(* ===== verification/Prelude.thy ===== *)
theory Prelude
  imports Main "HOL-Library.Word" "HOL-Library.Signed_Division"
begin

unbundle bit_operations_syntax

text \<open>
  Shared vocabulary of the development: the C integer types as machine words, C strings as
  byte lists, the ways a C execution can go wrong as values of a sum type, and the generic
  lemmas on words, lists and functions that the components use.
\<close>

section \<open>Machine integers and byte strings\<close>

type_synonym u8 = "8 word"
type_synonym u16 = "16 word"
type_synonym u32 = "32 word"
type_synonym u64 = "64 word"
type_synonym i32 = "32 word" \<comment> \<open>read with \<open>sint\<close>\<close>
type_synonym i64 = "64 word" \<comment> \<open>read with \<open>sint\<close>\<close>

text \<open>
  A C string is the list of its bytes up to, and without, the terminating null byte: reading
  past the end of the list is reading the null byte. A buffer with a length is a plain list.
\<close>

type_synonym bytes = "u8 list"

definition bytes_of :: "string \<Rightarrow> bytes" where
  "bytes_of s = map of_char s"

definition cchar :: "bytes \<Rightarrow> nat \<Rightarrow> u8" where
  "cchar s i = (if i < length s then s ! i else 0)"

definition cstring :: "bytes \<Rightarrow> bool" where
  "cstring s \<longleftrightarrow> 0 \<notin> set s"

section \<open>Executions that do not return normally\<close>

text \<open>
  \<open>AssertFailed\<close>: a \<open>nasm_assert\<close> or \<open>nasm_panic\<close> that does not return.
  \<open>UndefinedShift\<close>: a shift by a negative count or by the operand's width or more.
  \<open>OutOfBounds\<close>: an access outside the object. \<open>DivideFault\<close>: a division by zero or one
  whose quotient does not fit. \<open>NullDeref\<close>: the use of a null pointer.
  \<open>Diverges\<close>: a loop that never ends.
\<close>

datatype fault =
    AssertFailed | UndefinedShift | OutOfBounds | DivideFault | NullDeref | Diverges

type_synonym 'a result = "fault + 'a"

definition andthen :: "'e + 'a \<Rightarrow> ('a \<Rightarrow> 'e + 'b) \<Rightarrow> 'e + 'b" where
  "andthen x f = (case x of Inl e \<Rightarrow> Inl e | Inr v \<Rightarrow> f v)"

lemma andthen_simps [simp]:
  "andthen (Inl e) f = Inl e"
  "andthen (Inr v) f = f v"
  by (simp_all add: andthen_def)

lemma andthen_cong [fundef_cong]:
  "x = y \<Longrightarrow> (\<And>v. y = Inr v \<Longrightarrow> f v = g v) \<Longrightarrow> andthen x f = andthen y g"
  by (cases y) simp_all

lemma andthen_eq_Inr: "andthen x f = Inr w \<longleftrightarrow> (\<exists>v. x = Inr v \<and> f v = Inr w)"
  by (cases x) simp_all

definition guard :: "bool \<Rightarrow> 'e \<Rightarrow> ('e + 'a) \<Rightarrow> 'e + 'a" where
  "guard c e x = (if c then x else Inl e)"

lemma guard_True [simp]: "guard True e x = x"
  and guard_False [simp]: "guard False e x = Inl e"
  by (simp_all add: guard_def)

lemma guard_cong [fundef_cong]:
  "c = d \<Longrightarrow> (d \<Longrightarrow> x = y) \<Longrightarrow> guard c e x = guard d e y"
  by (cases d) simp_all

lemma guard_eq_Inr: "guard c e x = Inr v \<longleftrightarrow> c \<and> x = Inr v"
  by (simp add: guard_def)

text \<open>A sequence of operations, stopping at the first fault.\<close>

fun steps :: "('s \<Rightarrow> 'a \<Rightarrow> 'e + 's) \<Rightarrow> 's \<Rightarrow> 'a list \<Rightarrow> 'e + 's" where
  "steps f s [] = Inr s"
| "steps f s (x # xs) = andthen (f s x) (\<lambda>s. steps f s xs)"

section \<open>Words\<close>

lemma unat_two_power: "n < LENGTH('a) \<Longrightarrow> unat (2 ^ n :: 'a::len word) = 2 ^ n"
proof -
  assume n: "n < LENGTH('a)"
  have "(2 ^ n :: 'a word) = of_nat (2 ^ n)" by simp
  then have "unat (2 ^ n :: 'a word) = 2 ^ n mod 2 ^ LENGTH('a)" by (metis unat_of_nat)
  then show ?thesis using n by simp
qed

lemma unat_push_bit_one [simp]:
  "n < LENGTH('a) \<Longrightarrow> unat (push_bit n (1 :: 'a::len word)) = 2 ^ n"
  by (simp add: push_bit_eq_mult unat_two_power)

lemma unat_take_bit: "unat (take_bit n w) = unat (w :: 'a::len word) mod 2 ^ n"
  by (simp only: unsigned_take_bit_eq take_bit_nat_def)

lemma unat_drop_bit: "unat (drop_bit n w) = unat (w :: 'a::len word) div 2 ^ n"
  by (simp only: unat_drop_bit_eq drop_bit_nat_def)

lemma unat_and_mask:
  "unat (w AND (push_bit n 1 - 1 :: 'a::len word)) = unat w mod 2 ^ n"
proof -
  have "push_bit n 1 - 1 = (mask n :: 'a word)"
    by (simp add: mask_eq_exp_minus_1 push_bit_eq_mult)
  then show ?thesis by (simp only: unat_take_bit flip: take_bit_eq_mask)
qed

text \<open>Bits that do not overlap add up.\<close>

lemma or_disjoint_nat:
  assumes "(b :: nat) < 2 ^ k" and "2 ^ k dvd a"
  shows "a OR b = a + b"
proof -
  have "a AND b = 0"
  proof (rule bit_eqI)
    fix n
    from assms(2) obtain c where a: "a = push_bit k c" by (auto simp: push_bit_eq_mult mult.commute)
    from assms(1) have b: "take_bit k b = b" by (simp add: take_bit_nat_eq_self)
    have "\<not> (bit a n \<and> bit b n)"
      by (subst b [symmetric]) (auto simp: a bit_simps)
    then show "bit (a AND b) n \<longleftrightarrow> bit 0 n" by (simp add: bit_simps)
  qed
  then show ?thesis by (rule disjunctive_add_eq_or [symmetric])
qed

lemma unat_or_disjoint:
  fixes a b :: "'a::len word"
  assumes "unat b < 2 ^ k" and "2 ^ k dvd unat a"
  shows "unat (a OR b) = unat a + unat b"
  using or_disjoint_nat [OF assms] by (simp add: unsigned_or_eq)

lemma unat_and_low: "unat (w AND mask k :: 'a::len word) = unat w mod 2 ^ k"
  by (simp add: unat_take_bit flip: take_bit_eq_mask)

text \<open>The signed reading of a word.\<close>

lemma sint_cases:
  fixes w :: "'a::len word"
  obtains "uint w < 2 ^ (LENGTH('a) - 1)" "sint w = uint w"
  | "2 ^ (LENGTH('a) - 1) \<le> uint w" "sint w = uint w - 2 ^ LENGTH('a)" "sint w < 0"
proof -
  define h u where "h = (2 :: int) ^ (LENGTH('a) - 1)" and "u = uint w"
  have L: "(2 :: int) ^ LENGTH('a) = 2 * h"
    unfolding h_def by (metis One_nat_def Suc_pred len_gt_0 power_Suc)
  have s: "sint w = (u + h) mod (2 * h) - h"
    using int_word_sint [of "uint w", where 'a = 'a] unfolding L u_def h_def by simp
  have b: "0 \<le> u" "u < 2 * h" unfolding u_def L [symmetric] by simp_all
  show thesis
  proof (cases "u < h")
    case True
    with b have "(u + h) mod (2 * h) = u + h" by (intro mod_pos_pos_trivial) auto
    with True s show thesis by (intro that(1)) (simp_all add: h_def u_def)
  next
    case False
    with b have "(u + h) mod (2 * h) = u - h"
      by (subst mod_pos_geq) (auto intro: mod_pos_pos_trivial)
    with False s b show thesis by (intro that(2)) (simp_all add: L h_def u_def)
  qed
qed
lemma sint_nonneg_iff: "0 \<le> sint (w::'a::len word) \<longleftrightarrow> unat w < 2 ^ (LENGTH('a) - 1)"
proof -
  have "uint w < 2 ^ (LENGTH('a) - 1) \<longleftrightarrow> unat w < 2 ^ (LENGTH('a) - 1)"
    using of_nat_less_iff [of "unat w" "2 ^ (LENGTH('a) - 1)", where 'a = int] by (simp del: of_nat_less_iff)
  then show ?thesis by (cases w rule: sint_cases) (auto simp del: One_nat_def dest: leD)
qed
lemma sint_eq_unat: "0 \<le> sint w \<Longrightarrow> sint (w::'a::len word) = int (unat w)"
  by (cases w rule: sint_cases) (auto simp del: One_nat_def dest: leD)
lemma sint_signed_drop: "0 \<le> sint w \<Longrightarrow> sint (signed_drop_bit n w) = int (unat w div 2 ^ n)" for w :: "'a::len word"
  using sint_eq_unat [of w] by (simp add: sint_signed_drop_bit_eq drop_bit_eq_div zdiv_int)

text \<open>The \<open>n\<close> low bytes of a word in little-endian order.\<close>

definition le_bytes :: "nat \<Rightarrow> 'a::len word \<Rightarrow> bytes" where
  "le_bytes n v = map (\<lambda>i. ucast (drop_bit (8 * i) v)) [0..<n]"

lemma length_le_bytes [simp]: "length (le_bytes n v) = n"
  by (simp add: le_bytes_def)

section \<open>Naturals and lists\<close>

lemma div_mod_inject: "(x :: nat) mod n = y mod n \<Longrightarrow> x div n = y div n \<Longrightarrow> x = y"
  by (metis mult_div_mod_eq)

text \<open>A position as a block number and an offset in the block.\<close>

lemma block_cursor:
  assumes "int p = b * int n + int k" and "k < n"
  shows "b = int (p div n)" "k = p mod n"
proof -
  have "int p div int n = b" using assms by (simp add: div_pos_pos_trivial)
  then show b: "b = int (p div n)" by (simp add: zdiv_int)
  have "int k = int p - b * int n" using assms(1) by simp
  also have "\<dots> = int (p - p div n * n)" by (simp add: b of_nat_diff)
  finally show "k = p mod n" by (simp add: minus_div_mult_eq_mod)
qed

text \<open>Overwriting a stretch of a list.\<close>

definition splice_at :: "nat \<Rightarrow> 'a list \<Rightarrow> 'a list \<Rightarrow> 'a list" where
  "splice_at p xs m = take p m @ xs @ drop (p + length xs) m"

lemma splice_at_Nil [simp]: "splice_at p [] m = m"
  by (simp add: splice_at_def)

lemma length_splice_at [simp]:
  "p \<le> length m \<Longrightarrow> length (splice_at p xs m) = max (length m) (p + length xs)"
  by (simp add: splice_at_def)

lemma splice_at_end: "splice_at (length m) xs m = m @ xs"
  by (simp add: splice_at_def)

lemma splice_at_append:
  "p \<le> length m \<Longrightarrow> splice_at (p + length xs) ys (splice_at p xs m) = splice_at p (xs @ ys) m"
  by (simp add: splice_at_def ac_simps)

lemma splice_at_take:
  assumes "p \<le> n" and "p + length xs \<le> length m"
  shows "splice_at p xs (take n m) = take (max n (p + length xs)) (splice_at p xs m)"
proof (cases "xs = []")
  case True
  with assms(1) show ?thesis by (simp add: max_def)
next
  case False
  then have "p < length m" using assms(2) by (cases xs) auto
  with assms show ?thesis by (auto simp: splice_at_def max_def min_def drop_take)
qed

lemma splice_at_prefix:
  "p + length xs \<le> length m \<Longrightarrow> splice_at p xs (m @ m') = splice_at p xs m @ m'"
  by (simp add: splice_at_def)

lemma length_concat_const: "\<forall>b \<in> set bs. length b = n \<Longrightarrow> length (concat bs) = length bs * n"
  by (induction bs) auto

lemma concat_update_splice:
  assumes "\<forall>b \<in> set bs. length b = n" and "i < length bs" and "p + length xs \<le> n"
  shows "concat (bs[i := splice_at p xs (bs ! i)]) = splice_at (i * n + p) xs (concat bs)"
proof -
  from assms(2) have bs: "bs = take i bs @ bs ! i # drop (Suc i) bs" by (rule id_take_nth_drop)
  have l: "length (concat (take i bs)) = i * n"
    using assms by (subst length_concat_const [where n = n]) (auto dest: in_set_takeD)
  have li: "length (bs ! i) = n" using assms by simp
  have "concat bs = concat (take i bs) @ bs ! i @ concat (drop (Suc i) bs)"
    by (subst bs) simp
  then have "splice_at (i * n + p) xs (concat bs)
      = concat (take i bs) @ splice_at p xs (bs ! i) @ concat (drop (Suc i) bs)"
    using assms(3) l li by (simp add: splice_at_def)
  moreover have "bs[i := splice_at p xs (bs ! i)]
      = take i bs @ splice_at p xs (bs ! i) # drop (Suc i) bs"
    using assms(2) by (rule upd_conv_take_nth_drop)
  ultimately show ?thesis by simp
qed

lemma concat_take_drop_nth:
  assumes "\<forall>b \<in> set bs. length b = n" and "i < length bs" and "p + l \<le> n"
  shows "take l (drop p (bs ! i)) = take l (drop (i * n + p) (concat bs))"
proof -
  from assms(2) have bs: "bs = take i bs @ bs ! i # drop (Suc i) bs" by (rule id_take_nth_drop)
  have l: "length (concat (take i bs)) = i * n"
    using assms by (subst length_concat_const [where n = n]) (auto dest: in_set_takeD)
  have li: "length (bs ! i) = n" using assms by simp
  have "concat bs = concat (take i bs) @ bs ! i @ concat (drop (Suc i) bs)"
    by (subst bs) simp
  then show ?thesis using assms(3) l li by simp
qed

end
