(* ===== verification/Raa.thy ===== *)
theory Raa
  imports Prelude
begin

text \<open>
  The random access array of \<open>nasmlib/raa.c\<close>: a tree of branches with \<open>2 ^ 15\<close> pointers and
  leaves with \<open>2 ^ 15\<close> values, grown at the root when a position past its span is written.
  The section \<open>Model\<close> translates the code; the rest shows that on positions below \<open>2 ^ 30\<close>
  the array is a total map that starts at zero, and that every larger position makes
  \<open>real_raa_write\<close> evaluate a shift of a 32-bit value by 45.
\<close>

section \<open>Model\<close>

definition RAA_BLKSHIFT :: nat where "RAA_BLKSHIFT = 15"
definition RAA_BLKSIZE :: nat where "RAA_BLKSIZE = 2 ^ RAA_BLKSHIFT"
definition RAA_LAYERSHIFT :: nat where "RAA_LAYERSHIFT = 15"
definition RAA_LAYERSIZE :: nat where "RAA_LAYERSIZE = 2 ^ RAA_LAYERSHIFT"

text \<open>
  \<open>struct real_raa\<close>. The union is discriminated by \<open>layers\<close>: zero is a leaf with its shift and
  its values (a member of \<open>union intorptr\<close> is a 64-bit value), anything else a branch with its
  number of layers, its shift and its pointers.
\<close>

datatype real_raa =
    Leaf nat "nat \<Rightarrow> i64"
  | Branch nat nat "nat \<Rightarrow> real_raa option"

fun layers :: "real_raa \<Rightarrow> nat" where
  "layers (Leaf s d) = 0"
| "layers (Branch n s d) = n"

fun shift :: "real_raa \<Rightarrow> nat" where
  "shift (Leaf s d) = s"
| "shift (Branch n s d) = s"

definition LAYERSHIFT :: "real_raa \<Rightarrow> nat" where
  "LAYERSHIFT r = (if layers r = 0 then RAA_BLKSHIFT else RAA_LAYERSHIFT)"

definition raa_init_layer :: "nat \<Rightarrow> real_raa" where
  "raa_init_layer n =
     (if n = 0 then Leaf 0 (\<lambda>_. 0)
      else Branch n ((RAA_BLKSHIFT - RAA_LAYERSHIFT) + n * RAA_LAYERSHIFT) (\<lambda>_. None))"

definition real_raa_init :: real_raa where
  "real_raa_init = raa_init_layer 0"

text \<open>\<open>UINT32_C(1) << n\<close>, which C leaves undefined from the width on.\<close>

definition uint32_bit :: "nat \<Rightarrow> u32 result" where
  "uint32_bit n = guard (n < 32) UndefinedShift (Inr (push_bit n 1))"

text \<open>The position a shift and a mask select, with the array bound it must respect.\<close>

definition raa_index :: "nat \<Rightarrow> int \<Rightarrow> nat result" where
  "raa_index bound l = guard (0 \<le> l \<and> l < int bound) OutOfBounds (Inr (nat l))"

inductive_set raa_below :: "(real_raa \<times> real_raa) set" where
  child: "d i = Some c \<Longrightarrow> (c, Branch n s d) \<in> raa_below"
| fresh: "(raa_init_layer n, Branch (Suc n) s d) \<in> raa_below"

lemma raa_below_init: "raa_init_layer n \<in> Wellfounded.acc raa_below"
proof (induction n)
  case 0
  show ?case
    by (rule acc.intros) (auto elim: raa_below.cases simp: raa_init_layer_def)
next
  case (Suc n)
  show ?case
  proof (rule acc.intros)
    fix y assume "(y, raa_init_layer (Suc n)) \<in> raa_below"
    then have "y = raa_init_layer n" by cases (auto simp: raa_init_layer_def)
    with Suc show "y \<in> Wellfounded.acc raa_below" by simp
  qed
qed

lemma wf_raa_below: "wf raa_below"
proof -
  have "r \<in> Wellfounded.acc raa_below" for r
  proof (induction r)
    case (Leaf s d)
    show ?case by (rule acc.intros) (auto elim: raa_below.cases)
  next
    case (Branch n s d)
    show ?case
    proof (rule acc.intros)
      fix y assume "(y, Branch n s d) \<in> raa_below"
      then show "y \<in> Wellfounded.acc raa_below"
      proof cases
        case (child i)
        then show ?thesis using Branch [of "d i" y] rangeI [of d i] by simp
      next
        case (fresh n')
        then show ?thesis using raa_below_init by simp
      qed
    qed
  qed
  then show ?thesis by (simp add: wf_iff_acc)
qed

text \<open>The descent of \<open>real_raa_read\<close>: a pointer to the value, or the null pointer.\<close>

function raa_walk :: "real_raa \<Rightarrow> i32 \<Rightarrow> i64 option result" where
  "raa_walk (Leaf s d) posn =
     andthen (raa_index RAA_BLKSIZE (sint posn)) (\<lambda>k. Inr (Some (d k)))"
| "raa_walk (Branch n s d) posn =
     andthen (uint32_bit s) (\<lambda>m.
     andthen (raa_index RAA_LAYERSIZE (sint (signed_drop_bit s posn))) (\<lambda>l.
       (case d l of
          None \<Rightarrow> Inr None
        | Some r \<Rightarrow> raa_walk r (posn AND (m - 1)))))"
  by pat_completeness auto
termination
  by (relation "inv_image raa_below fst") (auto intro: wf_raa_below raa_below.child)

definition real_raa_read :: "real_raa \<Rightarrow> i32 \<Rightarrow> i64 option result" where
  "real_raa_read r posn =
     andthen (uint32_bit (shift r + LAYERSHIFT r)) (\<lambda>lim.
       if lim \<le> posn then Inr None else raa_walk r posn)"

definition raa_read :: "real_raa \<Rightarrow> i32 \<Rightarrow> i64 result" where
  "raa_read r pos =
     andthen (real_raa_read r pos) (\<lambda>ip. Inr (case ip of Some v \<Rightarrow> v | None \<Rightarrow> 0))"

text \<open>The first loop of \<open>real_raa_write\<close> adds layers above the root.\<close>

function raa_grow :: "real_raa \<Rightarrow> i32 \<Rightarrow> real_raa result" where
  "raa_grow r posn =
     andthen (uint32_bit (shift r + LAYERSHIFT r)) (\<lambda>lim.
       if lim \<le> posn
       then raa_grow (Branch (layers r + 1) (LAYERSHIFT r + shift r) ((\<lambda>_. None)(0 := Some r))) posn
       else Inr r)"
  by pat_completeness auto
termination
  by (relation "measure (\<lambda>(r, posn). 32 - (shift r + LAYERSHIFT r))")
     (auto simp: uint32_bit_def guard_def LAYERSHIFT_def RAA_BLKSHIFT_def RAA_LAYERSHIFT_def
        split: if_splits)

declare raa_grow.simps [simp del]

text \<open>The second loop descends, allocates the layers that are missing, and stores.\<close>

function raa_store :: "real_raa \<Rightarrow> i32 \<Rightarrow> i64 \<Rightarrow> real_raa result" where
  "raa_store (Leaf s d) posn v =
     andthen (raa_index RAA_BLKSIZE (sint posn)) (\<lambda>k. Inr (Leaf s (d(k := v))))"
| "raa_store (Branch n s d) posn v =
     andthen (uint32_bit s) (\<lambda>m.
     andthen (raa_index RAA_LAYERSIZE (sint (signed_drop_bit s posn))) (\<lambda>l.
     andthen
       (case d l of
          Some r \<Rightarrow> raa_store r (posn AND (m - 1)) v
        | None \<Rightarrow>
            (case n of
               0 \<Rightarrow> Inl OutOfBounds
             | Suc n' \<Rightarrow> raa_store (raa_init_layer n') (posn AND (m - 1)) v))
       (\<lambda>r'. Inr (Branch n s (d(l := Some r'))))))"
  by pat_completeness auto
termination
  by (relation "inv_image raa_below fst")
     (auto intro: wf_raa_below raa_below.intros)

definition real_raa_write :: "real_raa \<Rightarrow> i32 \<Rightarrow> i64 \<Rightarrow> real_raa result" where
  "real_raa_write r posn v =
     guard (0 \<le> sint posn) AssertFailed
       (andthen (raa_grow r posn) (\<lambda>r'. raa_store r' posn v))"

section \<open>The invariant\<close>

text \<open>
  A tree of height \<open>n\<close>: leaves at layer 0 with shift 0, and at layer \<open>n\<close> a branch whose shift is
  \<open>15 * n\<close> and whose present children have height \<open>n - 1\<close>. An array that was only written
  below \<open>2 ^ 30\<close> has height at most one.
\<close>

inductive raa_wf :: "nat \<Rightarrow> real_raa \<Rightarrow> bool" where
  leaf: "raa_wf 0 (Leaf 0 d)"
| branch: "(\<And>i c. d i = Some c \<Longrightarrow> raa_wf n c) \<Longrightarrow> raa_wf (Suc n) (Branch (Suc n) (15 * Suc n) d)"

inductive_cases raa_wf_0E: "raa_wf 0 r"
inductive_cases raa_wf_SucE: "raa_wf (Suc n) r"

definition raa_ok :: "real_raa \<Rightarrow> bool" where
  "raa_ok r \<longleftrightarrow> raa_wf 0 r \<or> raa_wf 1 r"

definition raa_leaves :: "(nat \<Rightarrow> real_raa option) \<Rightarrow> bool" where
  "raa_leaves d \<longleftrightarrow> (\<forall>i c. d i = Some c \<longrightarrow> (\<exists>f. c = Leaf 0 f))"

lemma raa_leavesD: "raa_leaves d \<Longrightarrow> d i = Some c \<Longrightarrow> \<exists>f. c = Leaf 0 f"
  by (simp add: raa_leaves_def)

lemma raa_leaves_upd [simp]: "raa_leaves d \<Longrightarrow> raa_leaves (d(i := Some (Leaf 0 f)))"
  and raa_leaves_empty [simp]: "raa_leaves (\<lambda>_. None)"
  by (simp_all add: raa_leaves_def)

lemma raa_ok_cases:
  assumes "raa_ok r"
  obtains (leaf) d where "r = Leaf 0 d"
  | (branch) d where "r = Branch (Suc 0) 15 d" and "raa_leaves d"
  using assms unfolding raa_leaves_def
  by (auto simp: raa_ok_def elim!: raa_wf_0E raa_wf_SucE [of 0, simplified]) (metis raa_wf_0E)

lemma raa_ok_leaf [simp]: "raa_ok (Leaf 0 d)"
  by (simp add: raa_ok_def raa_wf.leaf)

lemma raa_ok_branch: "raa_leaves d \<Longrightarrow> raa_ok (Branch (Suc 0) 15 d)"
  using raa_wf.branch [of d 0] raa_wf.leaf by (force simp: raa_ok_def raa_leaves_def)

text \<open>What the array holds, as a total function.\<close>

fun raa_get :: "real_raa \<Rightarrow> nat \<Rightarrow> i64" where
  "raa_get (Leaf s d) k = (if k < 2 ^ 15 then d k else 0)"
| "raa_get (Branch n s d) k =
     (if k < 2 ^ 30
      then (case d (k div 2 ^ 15) of Some (Leaf s' d') \<Rightarrow> d' (k mod 2 ^ 15) | _ \<Rightarrow> 0)
      else 0)"

section \<open>Reads and writes of a well-formed array\<close>

lemmas raa_const = RAA_BLKSHIFT_def RAA_LAYERSHIFT_def RAA_BLKSIZE_def RAA_LAYERSIZE_def
lemmas raa_op = raa_const uint32_bit_def raa_index_def LAYERSHIFT_def

lemma raa_leaf_bound:
  fixes p :: i32
  shows "32768 \<le> p \<longleftrightarrow> 32768 \<le> unat p" "1073741824 \<le> p \<longleftrightarrow> 1073741824 \<le> unat p"
  by (simp_all add: word_le_nat_alt)

lemma raa_small_sint: "unat (p :: i32) < 2 ^ 31 \<Longrightarrow> sint p = int (unat p)"
  using sint_nonneg_iff [of p] sint_eq_unat [of p] by simp

lemma raa_small_index:
  assumes "unat (p :: i32) < 2 ^ 30"
  shows "sint (signed_drop_bit 15 p) = int (unat p div 2 ^ 15)"
    and "sint (p AND (push_bit 15 1 - 1)) = int (unat p mod 2 ^ 15)"
proof -
  have "0 \<le> sint p" using raa_small_sint [of p] assms by simp
  then show "sint (signed_drop_bit 15 p) = int (unat p div 2 ^ 15)" by (rule sint_signed_drop)
  have m: "unat (p AND (push_bit 15 1 - 1)) = unat p mod 2 ^ 15" by (rule unat_and_mask)
  then have "unat (p AND (push_bit 15 1 - 1)) < 2 ^ 31" by simp
  from raa_small_sint [OF this] show "sint (p AND (push_bit 15 1 - 1)) = int (unat p mod 2 ^ 15)"
    by (simp only: m)
qed

lemma raa_index_Inr: "l = int k \<Longrightarrow> k < bound \<Longrightarrow> raa_index bound l = Inr k"
  by (simp add: raa_index_def)

lemma raa_walk_leaf:
  assumes "unat (p :: i32) < 2 ^ 15"
  shows "raa_walk (Leaf 0 d) p = Inr (Some (d (unat p)))"
  using assms raa_index_Inr [OF raa_small_sint [of p], of RAA_BLKSIZE] by (simp add: raa_const)

lemma raa_walk_branch:
  assumes "unat (p :: i32) < 2 ^ 30"
    and "raa_leaves d"
  shows "raa_walk (Branch (Suc 0) 15 d) p =
    Inr (case d (unat p div 2 ^ 15) of Some (Leaf s f) \<Rightarrow> Some (f (unat p mod 2 ^ 15)) | _ \<Rightarrow> None)"
proof -
  have bit: "uint32_bit 15 = Inr (push_bit 15 1)" by (simp add: uint32_bit_def)
  have l: "raa_index RAA_LAYERSIZE (sint (signed_drop_bit 15 p)) = Inr (unat p div 2 ^ 15)"
    using assms(1) by (intro raa_index_Inr raa_small_index) (simp_all add: raa_const)
  have k: "raa_walk (Leaf 0 f) (p AND (push_bit 15 1 - 1)) = Inr (Some (f (unat p mod 2 ^ 15)))" for f
    using raa_index_Inr [OF raa_small_index (2) [OF assms(1)], of RAA_BLKSIZE]
    by (simp add: raa_const)
  show ?thesis
  proof (cases "d (unat p div 2 ^ 15)")
    case None
    then show ?thesis by (simp only: raa_walk.simps bit l andthen_simps option.case)
  next
    case (Some c)
    with assms(2) obtain f where "c = Leaf 0 f" by (blast dest: raa_leavesD)
    with Some show ?thesis
      by (simp only: raa_walk.simps(2) bit l andthen_simps option.case k real_raa.case)
  qed
qed

lemma raa_read_get:
  assumes "raa_ok r"
  shows "raa_read r p = Inr (raa_get r (unat p))"
  using assms
proof (cases rule: raa_ok_cases)
  case (leaf d)
  then show ?thesis
    by (simp add: raa_read_def real_raa_read_def raa_op raa_leaf_bound raa_walk_leaf not_le
        del: raa_walk.simps)
next
  case (branch d)
  show ?thesis
  proof (cases "unat p < 2 ^ 30")
    case True
    from raa_walk_branch [OF this branch(2)] True branch(1) show ?thesis
      by (auto simp: raa_read_def real_raa_read_def raa_op raa_leaf_bound not_le
          simp del: raa_walk.simps split: option.split real_raa.split)
  next
    case False
    with branch(1) show ?thesis
      by (simp add: raa_read_def real_raa_read_def raa_op raa_leaf_bound)
  qed
qed

lemma raa_grow_leaf:
  assumes "unat (p :: i32) < 2 ^ 30"
  shows "raa_grow (Leaf 0 d) p =
    Inr (if unat p < 2 ^ 15 then Leaf 0 d else Branch (Suc 0) 15 ((\<lambda>_. None)(0 := Some (Leaf 0 d))))"
  using assms
  by (subst raa_grow.simps)
     (simp add: raa_op raa_leaf_bound raa_grow.simps [of "Branch _ _ _"])

lemma raa_grow_branch:
  assumes "unat (p :: i32) < 2 ^ 30"
  shows "raa_grow (Branch (Suc 0) 15 d) p = Inr (Branch (Suc 0) 15 d)"
  using assms by (subst raa_grow.simps) (simp add: raa_op raa_leaf_bound)

lemma raa_store_leaf:
  assumes "unat (p :: i32) < 2 ^ 15"
  shows "raa_store (Leaf 0 d) p v = Inr (Leaf 0 (d(unat p := v)))"
  using assms raa_index_Inr [OF raa_small_sint [of p], of RAA_BLKSIZE] by (simp add: raa_const)

lemma raa_store_branch:
  assumes "unat (p :: i32) < 2 ^ 30"
    and "raa_leaves d"
  shows "raa_store (Branch (Suc 0) 15 d) p v =
    Inr (Branch (Suc 0) 15 (d(unat p div 2 ^ 15 :=
      Some (Leaf 0 ((case d (unat p div 2 ^ 15) of Some (Leaf s f) \<Rightarrow> f | _ \<Rightarrow> (\<lambda>_. 0))
        (unat p mod 2 ^ 15 := v))))))"
proof -
  have bit: "uint32_bit 15 = Inr (push_bit 15 1)" by (simp add: uint32_bit_def)
  have l: "raa_index RAA_LAYERSIZE (sint (signed_drop_bit 15 p)) = Inr (unat p div 2 ^ 15)"
    using assms(1) by (intro raa_index_Inr raa_small_index) (simp_all add: raa_const)
  have k: "raa_store (Leaf 0 f) (p AND (push_bit 15 1 - 1)) v
      = Inr (Leaf 0 (f(unat p mod 2 ^ 15 := v)))" for f
    using raa_index_Inr [OF raa_small_index (2) [OF assms(1)], of RAA_BLKSIZE]
    by (simp add: raa_const)
  have z: "raa_init_layer 0 = Leaf 0 (\<lambda>_. 0)" by (simp add: raa_init_layer_def)
  show ?thesis
  proof (cases "d (unat p div 2 ^ 15)")
    case None
    then show ?thesis
      by (simp only: raa_store.simps(2) bit l andthen_simps option.case One_nat_def nat.case z k)
  next
    case (Some c)
    with assms(2) obtain f where "c = Leaf 0 f" by (blast dest: raa_leavesD)
    with Some show ?thesis
      by (simp only: raa_store.simps(2) bit l andthen_simps option.case k real_raa.case)
  qed
qed

lemma raa_write_get:
  assumes "raa_ok r" and p: "unat p < 2 ^ 30"
  shows "\<exists>r'. real_raa_write r p v = Inr r' \<and> raa_ok r' \<and> raa_get r' = (raa_get r)(unat p := v)"
proof -
  have s: "0 \<le> sint p" using raa_small_sint [of p] p by simp
  show ?thesis
    using assms(1)
  proof (cases rule: raa_ok_cases)
    case (leaf d)
    show ?thesis
    proof (cases "unat p < 2 ^ 15")
      case True
      with leaf p s show ?thesis
        by (auto simp: real_raa_write_def raa_grow_leaf raa_store_leaf fun_eq_iff
            simp del: raa_store.simps)
    next
      case False
      let ?d = "(\<lambda>_. None)(0 := Some (Leaf 0 d))"
      have lv: "raa_leaves ?d" by simp
      note st = raa_store_branch [OF p lv, of v]
      have nz: "unat p div 32768 \<noteq> 0" using False by (simp add: div_eq_0_iff)
      from False have "raa_grow r p = Inr (Branch (Suc 0) 15 ?d)" using leaf p by (simp add: raa_grow_leaf)
      with st s have "real_raa_write r p v = Inr (Branch (Suc 0) 15 (?d(unat p div 2 ^ 15 :=
          Some (Leaf 0 ((\<lambda>_. 0)(unat p mod 2 ^ 15 := v))))))"
        using False by (simp add: real_raa_write_def nz del: raa_store.simps)
      then show ?thesis
        using False leaf p
        by (auto intro!: raa_ok_branch split: if_splits simp: fun_eq_iff)
           (blast dest: div_mod_inject)+
    qed
  next
    case (branch d)
    let ?f = "case d (unat p div 2 ^ 15) of Some (Leaf s f) \<Rightarrow> f | _ \<Rightarrow> (\<lambda>_. 0)"
    let ?d = "d(unat p div 2 ^ 15 := Some (Leaf 0 (?f(unat p mod 2 ^ 15 := v))))"
    have w: "real_raa_write r p v = Inr (Branch (Suc 0) 15 ?d)"
      using branch p s
      by (simp only: real_raa_write_def guard_True raa_grow_branch andthen_simps raa_store_branch)
    have "raa_ok (Branch (Suc 0) 15 ?d)" using branch(2) by (simp add: raa_ok_branch)
    moreover have "raa_get (Branch (Suc 0) 15 ?d) = (raa_get r)(unat p := v)"
      using branch(1) p
      by (auto simp: fun_eq_iff dest: div_mod_inject split: option.split real_raa.split)
    ultimately show ?thesis using w by blast
  qed
qed

section \<open>The interface: a sparse array that starts at zero\<close>

text \<open>
  What the users of the array rely on: every position reads as zero at first, a write below the
  limit succeeds and changes the value of that position only.
\<close>

fun write_all :: "('a \<Rightarrow> i32 \<Rightarrow> i64 \<Rightarrow> 'a result) \<Rightarrow> 'a \<Rightarrow> (i32 \<times> i64) list \<Rightarrow> 'a result" where
  "write_all store r [] = Inr r"
| "write_all store r ((p, v) # ws) = andthen (store r p v) (\<lambda>r'. write_all store r' ws)"

locale sparse_array =
  fixes new :: 'a
    and load :: "'a \<Rightarrow> i32 \<Rightarrow> i64 result"
    and store :: "'a \<Rightarrow> i32 \<Rightarrow> i64 \<Rightarrow> 'a result"
    and ok :: "'a \<Rightarrow> bool"
    and limit :: nat
  assumes ok_new: "ok new"
    and read_new: "load new p = Inr 0"
    and write_read: "ok r \<Longrightarrow> unat p < limit \<Longrightarrow>
      \<exists>r'. store r p v = Inr r' \<and> ok r' \<and> (\<forall>q. load r' q = (if q = p then Inr v else load r q))"
begin

lemma write_all_read:
  assumes "ok r" and "\<forall>(p, v) \<in> set ws. unat p < limit"
  shows "\<exists>r'. write_all store r ws = Inr r' \<and> ok r' \<and>
    (\<forall>q. load r' q = (case map_of (rev ws) q of Some v \<Rightarrow> Inr v | None \<Rightarrow> load r q))"
  using assms
proof (induction ws arbitrary: r)
  case Nil
  then show ?case by simp
next
  case (Cons w ws)
  obtain p v where w: "w = (p, v)" by force
  with Cons.prems obtain r1 where r1: "store r p v = Inr r1" "ok r1"
    and rd: "\<And>q. load r1 q = (if q = p then Inr v else load r q)"
    using write_read [of r p v] by auto
  from Cons.IH [OF r1(2)] Cons.prems obtain r' where "write_all store r1 ws = Inr r'" "ok r'"
    and "\<And>q. load r' q = (case map_of (rev ws) q of Some v \<Rightarrow> Inr v | None \<Rightarrow> load r1 q)"
    by auto
  with r1 rd w show ?case
    by (auto simp: map_add_def split: option.split)
qed

lemma write_all_new:
  assumes "\<forall>(p, v) \<in> set ws. unat p < limit"
  shows "\<exists>r. write_all store new ws = Inr r \<and>
    (\<forall>q. load r q = Inr (case map_of (rev ws) q of Some v \<Rightarrow> v | None \<Rightarrow> 0))"
  using write_all_read [OF ok_new assms] by (fastforce simp: read_new split: option.splits)

end

lemma raa_ok_init: "raa_ok real_raa_init"
  by (simp add: real_raa_init_def raa_init_layer_def)

lemma raa_read_fresh: "raa_read real_raa_init p = Inr 0"
  using raa_read_get [OF raa_ok_init] by (simp add: real_raa_init_def raa_init_layer_def)

lemma raa_write_read_lemma:
  assumes "raa_ok r" and "unat p < 2 ^ 30"
  shows "\<exists>r'. real_raa_write r p v = Inr r' \<and> raa_ok r' \<and>
    (\<forall>q. raa_read r' q = (if q = p then Inr v else raa_read r q))"
proof -
  have inj: "unat q = unat p \<longleftrightarrow> q = p" for q by (metis word_unat_eq_iff)
  from raa_write_get [OF assms, of v] assms(1) show ?thesis by (auto simp: raa_read_get inj)
qed

interpretation raa: sparse_array real_raa_init raa_read real_raa_write raa_ok "2 ^ 30"
  by unfold_locales (simp_all only: raa_ok_init raa_read_fresh raa_write_read_lemma)

section \<open>Properties\<close>

text \<open>
  A write below position \<open>2 ^ 30\<close> into a well-formed array succeeds, keeps the array well
  formed, makes that position read back the value written, and leaves every other position,
  negative and past the end included, as it was.
\<close>

theorem raa_write_then_read:
  assumes "raa_ok r" and "unat p < 2 ^ 30"
  shows "\<exists>r'. real_raa_write r p v = Inr r' \<and> raa_ok r' \<and> raa_read r' p = Inr v \<and>
    (\<forall>q. q \<noteq> p \<longrightarrow> raa_read r' q = raa_read r q)"
  using raa.write_read [OF assms, of v] by auto

theorem raa_write_then_read_witness:
  "\<exists>r'. real_raa_write (Leaf 0 (\<lambda>_. 0)) 40000 7 = Inr r' \<and> raa_read r' 40000 = Inr 7"
  using raa_write_then_read [of "Leaf 0 (\<lambda>_. 0)" 40000 7] by auto

text \<open>
  C19. Starting from an empty array, any sequence of writes below \<open>2 ^ 30\<close> succeeds, and
  afterwards every position reads as the last value written there, or zero.
\<close>

theorem raa_write_sequence:
  assumes "\<forall>(p, v) \<in> set ws. unat p < 2 ^ 30"
  shows "\<exists>r. write_all real_raa_write real_raa_init ws = Inr r \<and>
    (\<forall>q. raa_read r q = Inr (case map_of (rev ws) q of Some v \<Rightarrow> v | None \<Rightarrow> 0))"
  using assms by (rule raa.write_all_new)

theorem raa_write_sequence_witness:
  "\<exists>r. write_all real_raa_write real_raa_init [(5, 1), (70000, 2), (5, 3)] = Inr r \<and>
    raa_read r 5 = Inr 3 \<and> raa_read r 70000 = Inr 2 \<and> raa_read r 6 = Inr 0"
  using raa_write_sequence [of "[(5, 1), (70000, 2), (5, 3)]"] by auto

text \<open>
  A write at or past position \<open>2 ^ 30\<close> (such positions are valid \<open>int32_t\<close> values and pass
  the assertion) always evaluates \<open>UINT32_C(1) << 45\<close>, which C leaves undefined.
\<close>

theorem raa_write_large_undefined:
  assumes "raa_ok r" and "2 ^ 30 \<le> unat p" and "0 \<le> sint p"
  shows "real_raa_write r p v = Inl UndefinedShift"
proof -
  have two: "raa_grow (Branch (Suc (Suc 0)) 30 d) p = Inl UndefinedShift" for d
    by (subst raa_grow.simps) (simp add: raa_op)
  have one: "raa_grow (Branch (Suc 0) 15 d) p = Inl UndefinedShift" for d
    using assms(2) by (subst raa_grow.simps) (simp add: raa_op raa_leaf_bound two)
  have zero: "raa_grow (Leaf 0 d) p = Inl UndefinedShift" for d
    using assms(2) by (subst raa_grow.simps) (simp add: raa_op raa_leaf_bound one)
  from assms(1) show ?thesis
    by (cases rule: raa_ok_cases) (simp_all add: real_raa_write_def assms(3) zero one)
qed

theorem raa_write_large_undefined_witness:
  "real_raa_write (Leaf 0 (\<lambda>_. 0)) 0x40000000 1 = Inl UndefinedShift"
  by (rule raa_write_large_undefined) simp_all

end
