(* ===== verification/Saa.thy ===== *)
theory Saa
  imports Prelude
begin

text \<open>
  The sequential access array of \<open>nasmlib/saa.c\<close>: a byte stream in blocks of one size, with a
  write cursor and a read cursor, random access through both, and the fixed-width and LEB128
  writers the debug formats use. The section \<open>Model\<close> translates the code; the rest shows that
  the array is a growing byte string, for every block size, and what the LEB128 writers emit.
\<close>

section \<open>Model\<close>

definition SAA_BLKSHIFT :: nat where "SAA_BLKSHIFT = 16"
definition SAA_BLKLEN :: nat where "SAA_BLKLEN = 2 ^ SAA_BLKSHIFT"

text \<open>
  A byte of a fresh block is indeterminate until it is written: \<open>None\<close>. Sizes and positions
  are natural numbers (64-bit \<open>size_t\<close> values that no real array reaches the end of); a block
  pointer is its index in \<open>blk_ptrs\<close>, an integer because \<open>saa_fwrite\<close> steps the write pointer
  one before the array.
\<close>

type_synonym mbyte = "u8 option"

record saa =
  elem_len :: nat
  blk_len :: nat
  nblks :: nat
  nblkptrs :: nat
  saa_length :: nat
  datalen :: nat
  wblk :: int
  wpos :: nat
  wptr :: nat
  rblk :: int
  rpos :: nat
  rptr :: nat
  blk_ptrs :: "mbyte list list"

definition saa_init :: "nat \<Rightarrow> saa result" where
  "saa_init elen =
     andthen
       (if SAA_BLKLEN \<le> elen then Inr elen
        else guard (elen \<noteq> 0) DivideFault (Inr (SAA_BLKLEN - SAA_BLKLEN mod elen)))
       (\<lambda>blen. Inr \<lparr>elem_len = elen, blk_len = blen, nblks = 1, nblkptrs = 1,
          saa_length = blen, datalen = 0, wblk = 0, wpos = 0, wptr = 0,
          rblk = 0, rpos = 0, rptr = 0, blk_ptrs = [replicate blen None]\<rparr>)"

text \<open>
  \<open>saa_extend\<close> adds a block. Growing \<open>blk_ptrs\<close> keeps the block indices of both cursors, which
  the code recomputes from the old array's base.
\<close>

definition saa_extend :: "saa \<Rightarrow> saa" where
  "saa_extend s =
     (let blkn = nblks s;
          s1 = s\<lparr>nblks := nblks s + 1\<rparr>;
          s2 = (if nblkptrs s1 \<le> blkn then s1\<lparr>nblkptrs := nblkptrs s1 * 2\<rparr> else s1)
      in s2\<lparr>blk_ptrs := blk_ptrs s2 @ [replicate (blk_len s2) None],
            saa_length := saa_length s2 + blk_len s2\<rparr>)"

text \<open>A pointer into the array: a block index and an offset in the block.\<close>

type_synonym saa_ptr = "int \<times> nat"

definition saa_wstruct :: "saa \<Rightarrow> (saa_ptr \<times> saa) result" where
  "saa_wstruct s =
     guard (elem_len s \<noteq> 0) DivideFault
     (guard (wpos s mod elem_len s = 0) AssertFailed
     (andthen
       (if blk_len s < wpos s + elem_len s
        then guard (wpos s = blk_len s) AssertFailed
          (Inr (let s1 = (if saa_length s < wptr s + elem_len s then saa_extend s else s)
                in s1\<lparr>wblk := wblk s1 + 1, wpos := 0\<rparr>))
        else Inr s)
       (\<lambda>s. let p = (wblk s, wpos s);
                s = s\<lparr>wpos := wpos s + elem_len s, wptr := wptr s + elem_len s\<rparr>;
                s = (if datalen s < wptr s then s\<lparr>datalen := wptr s\<rparr> else s)
            in Inr (p, s))))"

text \<open>\<open>memcpy\<close> or \<open>memset\<close> into block \<open>b\<close> at offset \<open>p\<close>.\<close>

definition blk_write :: "mbyte list list \<Rightarrow> int \<Rightarrow> nat \<Rightarrow> mbyte list \<Rightarrow> mbyte list list result" where
  "blk_write bs b p xs =
     guard (0 \<le> b \<and> nat b < length bs \<and> p + length xs \<le> length (bs ! nat b)) OutOfBounds
       (Inr (bs[nat b := take p (bs ! nat b) @ xs @ drop (p + length xs) (bs ! nat b)]))"

definition blk_read :: "mbyte list list \<Rightarrow> int \<Rightarrow> nat \<Rightarrow> nat \<Rightarrow> mbyte list result" where
  "blk_read bs b p l =
     guard (0 \<le> b \<and> nat b < length bs \<and> p + l \<le> length (bs ! nat b)) OutOfBounds
       (Inr (take l (drop p (bs ! nat b))))"

text \<open>
  \<open>saa_wbytes\<close>. The source is a buffer, or the null pointer for zeros. The loop goes round with
  nothing copied only to step to the next block, so it ends unless blocks are empty.
\<close>

definition src_take :: "bytes option \<Rightarrow> nat \<Rightarrow> mbyte list result" where
  "src_take d l =
     (case d of
        None \<Rightarrow> Inr (replicate l (Some 0))
      | Some xs \<Rightarrow> guard (l \<le> length xs) OutOfBounds (Inr (map Some (take l xs))))"

definition saa_wchunk :: "saa \<Rightarrow> bytes option \<Rightarrow> nat \<Rightarrow> saa result" where
  "saa_wchunk s d l =
     (if l = 0 then Inr s
      else andthen (src_take d l) (\<lambda>xs.
           andthen (blk_write (blk_ptrs s) (wblk s) (wpos s) xs) (\<lambda>bs.
             let s = s\<lparr>blk_ptrs := bs, wpos := wpos s + l, wptr := wptr s + l\<rparr>
             in Inr (if datalen s < wptr s then s\<lparr>datalen := wptr s\<rparr> else s))))"

definition saa_wnext :: "saa \<Rightarrow> saa" where
  "saa_wnext s =
     (let s = (if saa_length s \<le> wptr s then saa_extend s else s)
      in s\<lparr>wblk := wblk s + 1, wpos := 0\<rparr>)"

lemma saa_wchunk_frame:
  "saa_wchunk s d l = Inr s' \<Longrightarrow> blk_len s' = blk_len s \<and> wpos s' = wpos s + l"
  by (auto simp: saa_wchunk_def andthen_eq_Inr Let_def split: if_splits)

lemma saa_wnext_frame [simp]: "blk_len (saa_wnext s) = blk_len s" "wpos (saa_wnext s) = 0"
  by (simp_all add: saa_wnext_def saa_extend_def Let_def)

function saa_wbytes :: "saa \<Rightarrow> bytes option \<Rightarrow> nat \<Rightarrow> saa result" where
  "saa_wbytes s d len =
     (if len = 0 then Inr s
      else guard (wpos s \<le> blk_len s) OutOfBounds
        (guard (0 < blk_len s) Diverges
        (let l = min (blk_len s - wpos s) len
         in andthen (saa_wchunk s d l) (\<lambda>s.
            if len - l = 0 then Inr s
            else saa_wbytes (saa_wnext s) (map_option (drop l) d) (len - l)))))"
  by pat_completeness auto
termination
proof (relation "measures [\<lambda>(s, d, len). len, \<lambda>(s, d, len). wpos s]", goal_cases)
  case (2 s d len l s')
  then show ?case
    using saa_wchunk_frame [of s d l s'] by (cases "l = 0") auto
qed simp

declare saa_wbytes.simps [simp del]

definition saa_wcstring :: "saa \<Rightarrow> bytes \<Rightarrow> (nat \<times> saa) result" where
  "saa_wcstring s str =
     (let len = length str + 1
      in andthen (saa_wbytes s (Some (str @ [0])) len) (\<lambda>s. Inr (len, s)))"

definition saa_rewind :: "saa \<Rightarrow> saa" where
  "saa_rewind s = s\<lparr>rblk := 0, rpos := 0, rptr := 0\<rparr>"

definition saa_rstruct :: "saa \<Rightarrow> (saa_ptr option \<times> saa) result" where
  "saa_rstruct s =
     (if datalen s < rptr s + elem_len s then Inr (None, s)
      else
        guard (elem_len s \<noteq> 0) DivideFault
        (guard (rpos s mod elem_len s = 0) AssertFailed
        (let s = (if blk_len s < rpos s + elem_len s then s\<lparr>rblk := rblk s + 1, rpos := 0\<rparr> else s);
             p = (rblk s, rpos s)
         in Inr (Some p, s\<lparr>rpos := rpos s + elem_len s, rptr := rptr s + elem_len s\<rparr>))))"

text \<open>\<open>saa_rbytes\<close> with the request \<open>*lenp\<close>: the pointer it returns, \<open>*lenp\<close> and the array.\<close>

definition saa_rbytes :: "saa \<Rightarrow> nat \<Rightarrow> saa_ptr option \<times> nat \<times> saa" where
  "saa_rbytes s lenp =
     (if datalen s \<le> rptr s then (None, 0, s)
      else
        let s = (if blk_len s \<le> rpos s then s\<lparr>rblk := rblk s + 1, rpos := 0\<rparr> else s);
            len = min (min lenp (datalen s - rptr s)) (blk_len s - rpos s);
            p = (rblk s, rpos s)
        in (Some p, len, s\<lparr>rpos := rpos s + len, rptr := rptr s + len\<rparr>))"

text \<open>\<open>memcpy\<close> from what \<open>saa_rbytes\<close> returned; nothing is copied when the length is zero.\<close>

definition saa_copy :: "saa \<Rightarrow> saa_ptr option \<Rightarrow> nat \<Rightarrow> mbyte list result" where
  "saa_copy s p l =
     (if l = 0 then Inr []
      else case p of None \<Rightarrow> Inl NullDeref | Some (b, ofs) \<Rightarrow> blk_read (blk_ptrs s) b ofs l)"

text \<open>The loop of \<open>saa_rnbytes\<close>, which would not end if a read made no progress.\<close>

function saa_rnloop :: "saa \<Rightarrow> nat \<Rightarrow> (mbyte list \<times> saa) result" where
  "saa_rnloop s len =
     (if len = 0 then Inr ([], s)
      else
        let r = saa_rbytes s len; p = fst r; l = fst (snd r); s' = snd (snd r)
        in andthen (saa_copy s' p l) (\<lambda>d.
           guard (0 < l) Diverges
           (andthen (saa_rnloop s' (len - l)) (\<lambda>r. Inr (d @ fst r, snd r)))))"
  by pat_completeness auto
termination
  by (relation "measure snd") auto

declare saa_rnloop.simps [simp del]

definition saa_rnbytes :: "saa \<Rightarrow> nat \<Rightarrow> (mbyte list \<times> saa) result" where
  "saa_rnbytes s len = guard (rptr s + len \<le> datalen s) AssertFailed (saa_rnloop s len)"

text \<open>The block and offset of a position: a shift and a mask for full-size blocks.\<close>

definition saa_seek :: "saa \<Rightarrow> nat \<Rightarrow> nat \<times> nat" where
  "saa_seek s posn =
     (if blk_len s = SAA_BLKLEN
      then (drop_bit SAA_BLKSHIFT posn, posn AND (SAA_BLKLEN - 1))
      else (posn div blk_len s, posn mod blk_len s))"

definition saa_fread :: "saa \<Rightarrow> nat \<Rightarrow> nat \<Rightarrow> (mbyte list \<times> saa) result" where
  "saa_fread s posn len =
     guard (posn + len \<le> datalen s) AssertFailed
     (guard (blk_len s \<noteq> 0) DivideFault
     (case saa_seek s posn of
        (ix, pos) \<Rightarrow> saa_rnbytes (s\<lparr>rpos := pos, rptr := posn, rblk := int ix\<rparr>) len))"

definition saa_fwrite :: "saa \<Rightarrow> nat \<Rightarrow> bytes option \<Rightarrow> nat \<Rightarrow> saa result" where
  "saa_fwrite s posn d len =
     guard (posn \<le> datalen s) AssertFailed
     (guard (blk_len s \<noteq> 0) DivideFault
     (case saa_seek s posn of
        (ix, pos) \<Rightarrow>
          let s = s\<lparr>wpos := pos, wptr := posn, wblk := int ix\<rparr>;
              s = (if wpos s = 0 then s\<lparr>wpos := blk_len s, wblk := wblk s - 1\<rparr> else s)
          in saa_wbytes s d len))"

text \<open>\<open>saa_fpwrite\<close>: the bytes handed to the file, in order.\<close>

function saa_fploop :: "saa \<Rightarrow> (mbyte list \<times> saa) result" where
  "saa_fploop s =
     (let r = saa_rbytes s (datalen s); l = fst (snd r); s' = snd (snd r)
      in case fst r of
           None \<Rightarrow> Inr ([], s')
         | Some p \<Rightarrow>
             andthen (saa_copy s' (Some p) l) (\<lambda>d.
             guard (0 < l) Diverges
             (andthen (saa_fploop s') (\<lambda>r. Inr (d @ fst r, snd r)))))"
  by pat_completeness auto
termination
  by (relation "measure (\<lambda>s. datalen s - rptr s)") (auto simp: saa_rbytes_def Let_def split: if_splits)

declare saa_fploop.simps [simp del]

definition saa_fpwrite :: "saa \<Rightarrow> (mbyte list \<times> saa) result" where
  "saa_fpwrite s = saa_fploop (saa_rewind s)"

text \<open>The writers of fixed-width values: \<open>cpu_to_le\<close> followed by a copy of the bytes in memory.\<close>

definition saa_write8 :: "saa \<Rightarrow> u8 \<Rightarrow> saa result" where
  "saa_write8 s v = saa_wbytes s (Some (le_bytes 1 v)) 1"

definition saa_write16 :: "saa \<Rightarrow> u16 \<Rightarrow> saa result" where
  "saa_write16 s v = saa_wbytes s (Some (le_bytes 2 v)) 2"

definition saa_write32 :: "saa \<Rightarrow> u32 \<Rightarrow> saa result" where
  "saa_write32 s v = saa_wbytes s (Some (le_bytes 4 v)) 4"

definition saa_write64 :: "saa \<Rightarrow> u64 \<Rightarrow> saa result" where
  "saa_write64 s v = saa_wbytes s (Some (le_bytes 8 v)) 8"

definition saa_writeaddr :: "saa \<Rightarrow> u64 \<Rightarrow> nat \<Rightarrow> saa result" where
  "saa_writeaddr s v len = saa_wbytes s (Some (le_bytes 8 v)) len"

text \<open>
  The loops of the LEB128 writers fill \<open>char temp[64]\<close>; \<open>n\<close> is the number of bytes already in it.
\<close>

function leb128u_loop :: "i32 \<Rightarrow> nat \<Rightarrow> bytes result" where
  "leb128u_loop v n =
     guard (n < 64) OutOfBounds
     (let byte = ucast (v AND 127) :: u8;
          v' = signed_drop_bit 7 v;
          byte = (if v' \<noteq> 0 then byte OR 0x80 else byte)
      in if v' \<noteq> 0
         then andthen (leb128u_loop v' (n + 1)) (\<lambda>bs. Inr (byte # bs))
         else Inr [byte])"
  by pat_completeness auto
termination
  by (relation "measure (\<lambda>(v, n). 64 - n)") auto

definition saa_wleb128u :: "saa \<Rightarrow> i32 \<Rightarrow> saa result" where
  "saa_wleb128u s v =
     andthen (leb128u_loop v 0) (\<lambda>temp. saa_wbytes s (Some temp) (length temp))"

function leb128s_loop :: "bool \<Rightarrow> i32 \<Rightarrow> nat \<Rightarrow> bytes result" where
  "leb128s_loop negative v n =
     guard (n < 64) OutOfBounds
     (let byte = ucast (v AND 0x7f) :: u8;
          v1 = signed_drop_bit 7 v;
          v2 = (if negative then v1 OR - (push_bit (32 - 7) 1) else v1)
      in if (v2 = 0 \<and> byte AND 0x40 = 0) \<or> (v2 = -1 \<and> byte AND 0x40 \<noteq> 0)
         then Inr [byte]
         else andthen (leb128s_loop negative v2 (n + 1)) (\<lambda>bs. Inr ((byte OR 0x80) # bs)))"
  by pat_completeness auto
termination
  by (relation "measure (\<lambda>(g, v, n). 64 - n)") auto

definition saa_wleb128s :: "saa \<Rightarrow> i32 \<Rightarrow> saa result" where
  "saa_wleb128s s v =
     andthen (leb128s_loop (sint v < 0) v 0) (\<lambda>temp. saa_wbytes s (Some temp) (length temp))"

declare leb128u_loop.simps [simp del] leb128s_loop.simps [simp del]

section \<open>The invariant and the contents\<close>

definition saa_data :: "saa \<Rightarrow> mbyte list" where
  "saa_data s = take (datalen s) (concat (blk_ptrs s))"

definition saa_ok :: "saa \<Rightarrow> bool" where
  "saa_ok s \<longleftrightarrow>
     0 < elem_len s \<and> 0 < blk_len s \<and> elem_len s dvd blk_len s \<and>
     length (blk_ptrs s) = nblks s \<and> 0 < nblks s \<and> nblks s \<le> nblkptrs s \<and>
     (\<forall>b \<in> set (blk_ptrs s). length b = blk_len s) \<and>
     saa_length s = nblks s * blk_len s \<and> wptr s \<le> datalen s \<and> datalen s \<le> saa_length s \<and>
     wpos s \<le> blk_len s \<and> int (wptr s) = wblk s * int (blk_len s) + int (wpos s) \<and>
     (wpos s < blk_len s \<longrightarrow> wblk s < int (nblks s)) \<and>
     rptr s \<le> datalen s \<and> rpos s \<le> blk_len s \<and> 0 \<le> rblk s \<and>
     int (rptr s) = rblk s * int (blk_len s) + int (rpos s)"

text \<open>The read cursor and the geometry, which the writers leave alone.\<close>

definition saa_reader :: "saa \<Rightarrow> nat \<times> nat \<times> int \<times> nat \<times> nat" where
  "saa_reader s = (elem_len s, blk_len s, rblk s, rpos s, rptr s)"

lemma length_saa_data: "saa_ok s \<Longrightarrow> length (saa_data s) = datalen s"
  unfolding saa_ok_def saa_data_def
  by (auto simp: length_concat_const [where n = "blk_len s"])

lemma saa_init_ok:
  assumes "0 < e"
  shows "\<exists>s. saa_init e = Inr s \<and> saa_ok s \<and> saa_data s = [] \<and> elem_len s = e \<and> wptr s = 0 \<and> rptr s = 0"
proof -
  have "e dvd n - n mod e" for n by (rule dvd_minus_mod)
  moreover have "n mod e < n" if "e < n" for n using assms that by (metis less_trans mod_less_divisor)
  ultimately show ?thesis
    using assms by (auto simp: saa_init_def saa_ok_def saa_data_def not_le)
qed

section \<open>Writing\<close>

lemma saa_extend_ok:
  assumes "saa_ok s" and "wpos s = blk_len s"
  shows "saa_data (saa_extend s) = saa_data s" "saa_ok (saa_extend s)"
    "wptr (saa_extend s) = wptr s" "saa_reader (saa_extend s) = saa_reader s"
    "wblk (saa_extend s) = wblk s" "wpos (saa_extend s) = wpos s"
    "nblks (saa_extend s) = Suc (nblks s)" "saa_length (saa_extend s) = saa_length s + blk_len s"
    "datalen (saa_extend s) = datalen s"
proof -
  have c: "length (concat (blk_ptrs s)) = saa_length s"
    using assms(1) unfolding saa_ok_def by (auto simp: length_concat_const [where n = "blk_len s"])
  show "saa_data (saa_extend s) = saa_data s"
    using assms(1) c by (simp add: saa_data_def saa_extend_def Let_def saa_ok_def)
  show "saa_ok (saa_extend s)"
    using assms by (auto simp: saa_extend_def Let_def saa_ok_def)
qed (simp_all add: saa_extend_def Let_def saa_reader_def)

lemma saa_wnext_ok:
  assumes "saa_ok s" and "wpos s = blk_len s"
  shows "saa_ok (saa_wnext s) \<and> saa_data (saa_wnext s) = saa_data s \<and> wptr (saa_wnext s) = wptr s
    \<and> saa_reader (saa_wnext s) = saa_reader s \<and> datalen (saa_wnext s) = datalen s"
proof -
  have w: "int (wptr s) = (wblk s + 1) * int (blk_len s)" and b: "0 < blk_len s"
    and l: "saa_length s = nblks s * blk_len s"
    using assms by (auto simp: saa_ok_def algebra_simps)
  define t where "t = (if saa_length s \<le> wptr s then saa_extend s else s)"
  have nx: "saa_wnext s = t\<lparr>wblk := wblk t + 1, wpos := 0\<rparr>"
    by (simp add: saa_wnext_def t_def Let_def)
  have t: "saa_ok t" "saa_data t = saa_data s" "wptr t = wptr s" "saa_reader t = saa_reader s"
    "wblk t = wblk s" "datalen t = datalen s" "wpos t = blk_len s"
    using saa_extend_ok [OF assms] assms by (simp_all add: t_def)
  have "blk_len t = blk_len s" using t(4) by (simp add: saa_reader_def)
  have "wptr s < saa_length t \<or> wptr s = nblks s * blk_len s \<and> nblks t = Suc (nblks s)"
  proof (cases "saa_length s \<le> wptr s")
    case True
    have "wptr s \<le> saa_length s" using assms by (simp add: saa_ok_def)
    with True have "wptr s = nblks s * blk_len s" using l by simp
    with True show ?thesis using saa_extend_ok [OF assms] by (simp add: t_def)
  qed (simp add: t_def)
  then have "wblk s + 1 < int (nblks t)"
  proof
    assume "wptr s < saa_length t"
    then have "(wblk s + 1) * int (blk_len s) < int (nblks t) * int (blk_len s)"
      using t(1) w \<open>blk_len t = blk_len s\<close> by (simp add: saa_ok_def flip: of_nat_mult)
    then show ?thesis using b by simp
  next
    assume a: "wptr s = nblks s * blk_len s \<and> nblks t = Suc (nblks s)"
    have "(wblk s + 1) * int (blk_len s) = int (nblks s) * int (blk_len s)"
      using w a by (metis of_nat_mult)
    then have "wblk s + 1 = int (nblks s)"
      using b by (metis less_irrefl mult_right_cancel of_nat_0_less_iff)
    then show ?thesis using a by simp
  qed
  with t w \<open>blk_len t = blk_len s\<close> show ?thesis
    by (auto simp: nx saa_ok_def saa_data_def saa_reader_def)
qed

lemma src_take_length: "src_take d l = Inr xs \<Longrightarrow> length xs = l"
  by (auto simp: src_take_def guard_eq_Inr split: option.splits)

lemma src_take_split:
  assumes "src_take d n = Inr xs" and "l \<le> n"
  shows "src_take d l = Inr (take l xs)" "src_take (map_option (drop l) d) (n - l) = Inr (drop l xs)"
  using assms
  by (auto simp: src_take_def guard_eq_Inr take_map drop_map min_def drop_take split: option.splits)

lemma saa_wchunk_ok:
  assumes ok: "saa_ok s" and xs: "src_take d l = Inr xs" and l: "wpos s + l \<le> blk_len s"
  shows "\<exists>s'. saa_wchunk s d l = Inr s' \<and> saa_ok s' \<and> saa_data s' = splice_at (wptr s) xs (saa_data s)
    \<and> wptr s' = wptr s + l \<and> wpos s' = wpos s + l \<and> saa_reader s' = saa_reader s
    \<and> datalen s' = max (datalen s) (wptr s + l)"
proof (cases "l = 0")
  case True
  then have "xs = []" using src_take_length [OF xs] by simp
  moreover have "wptr s \<le> datalen s" using ok by (simp add: saa_ok_def)
  ultimately show ?thesis using True ok by (simp add: saa_wchunk_def)
next
  case False
  let ?B = "blk_len s"
  have lx: "length xs = l" using xs by (rule src_take_length)
  have inv: "0 < ?B" "int (wptr s) = wblk s * int ?B + int (wpos s)" "wblk s < int (nblks s)"
    "\<forall>b \<in> set (blk_ptrs s). length b = ?B" "length (blk_ptrs s) = nblks s"
    "wptr s \<le> datalen s" "datalen s \<le> saa_length s" "saa_length s = nblks s * ?B"
    using ok l False by (auto simp: saa_ok_def)
  have k: "wpos s < ?B" using l False by simp
  define i where "i = wptr s div ?B"
  have i: "wblk s = int i" "wpos s = wptr s mod ?B"
    using block_cursor [OF inv(2) k] by (simp_all add: i_def)
  have p: "i * ?B + wpos s = wptr s" by (simp add: i(2) i_def)
  have il: "i < length (blk_ptrs s)" using inv(3,5) i(1) by simp
  define bs where "bs = (blk_ptrs s)[i := splice_at (wpos s) xs (blk_ptrs s ! i)]"
  have "length (blk_ptrs s ! i) = ?B" using inv(4) il by simp
  then have w: "blk_write (blk_ptrs s) (wblk s) (wpos s) xs = Inr bs"
    using il l by (simp add: blk_write_def i(1) lx bs_def splice_at_def)
  have lb: "\<forall>b \<in> set bs. length b = ?B"
    using inv(4) il l lx by (auto simp: bs_def set_update_subset_insert
        dest!: set_update_subset_insert [THEN subsetD])
  have cc: "concat bs = splice_at (wptr s) xs (concat (blk_ptrs s))"
    using concat_update_splice [OF inv(4) il, of "wpos s" xs] l lx by (simp add: bs_def p)
  have cl: "length (concat (blk_ptrs s)) = nblks s * ?B"
    using length_concat_const [OF inv(4)] inv(5) by simp
  have "wptr s + l \<le> (i + 1) * ?B" using p l by simp
  also have "\<dots> \<le> nblks s * ?B" using il inv(5) by (intro mult_le_mono1) simp
  finally have e: "wptr s + l \<le> nblks s * ?B" .
  define s' where "s' = s\<lparr>blk_ptrs := bs, wpos := wpos s + l, wptr := wptr s + l,
    datalen := max (datalen s) (wptr s + l)\<rparr>"
  have "saa_wchunk s d l = Inr s'"
    using False xs w by (simp add: saa_wchunk_def s'_def Let_def max_def)
  moreover have "saa_ok s'"
    using ok lb e l False by (auto simp: saa_ok_def s'_def bs_def)
  moreover have "saa_data s' = splice_at (wptr s) xs (saa_data s)"
    using inv(6) e cl lx by (simp add: saa_data_def s'_def cc splice_at_take)
  ultimately show ?thesis by (auto simp: s'_def saa_reader_def)
qed

lemma saa_wbytes_ok:
  assumes "saa_ok s" and "src_take d len = Inr xs"
  shows "\<exists>s'. saa_wbytes s d len = Inr s' \<and> saa_ok s' \<and> saa_data s' = splice_at (wptr s) xs (saa_data s)
    \<and> wptr s' = wptr s + len \<and> saa_reader s' = saa_reader s"
  using assms
proof (induction s d len arbitrary: xs rule: saa_wbytes.induct)
  case (1 s d len)
  let ?l = "min (blk_len s - wpos s) len"
  have ok: "wpos s \<le> blk_len s" "0 < blk_len s" using "1.prems"(1) by (simp_all add: saa_ok_def)
  show ?case
  proof (cases "len = 0")
    case True
    then show ?thesis using "1.prems" src_take_length [OF "1.prems"(2)]
      by (simp add: saa_wbytes.simps)
  next
    case False
    note split = src_take_split [OF "1.prems"(2), of ?l]
    have "wpos s + ?l \<le> blk_len s" using ok(1) by simp
    from saa_wchunk_ok [OF "1.prems"(1) split(1) [OF min.cobounded2] this]
    obtain s1 where s1: "saa_wchunk s d ?l = Inr s1" "saa_ok s1" "wptr s1 = wptr s + ?l"
      "saa_data s1 = splice_at (wptr s) (take ?l xs) (saa_data s)"
      "wpos s1 = wpos s + ?l" "saa_reader s1 = saa_reader s"
      by auto
    show ?thesis
    proof (cases "len - ?l = 0")
      case True
      then have "take ?l xs = xs" using src_take_length [OF "1.prems"(2)] by simp
      then show ?thesis using s1 True False ok
        by (subst saa_wbytes.simps) (simp add: Let_def)
    next
      case more: False
      have B: "blk_len s1 = blk_len s" using s1(6) by (simp add: saa_reader_def)
      have "wpos s1 = blk_len s1" using s1(5) B more ok(1) by simp
      note nx = saa_wnext_ok [OF s1(2) this]
      have xl: "length xs = len" using "1.prems"(2) by (rule src_take_length)
      have wl: "wptr s \<le> length (saa_data s)"
        using "1.prems"(1) length_saa_data [of s] by (simp add: saa_ok_def)
      from "1.IH" [OF False ok(1,2) refl s1(1) more _ split(2) [OF min.cobounded2]] nx
      obtain s' where "saa_wbytes (saa_wnext s1) (map_option (drop ?l) d) (len - ?l) = Inr s'"
        "saa_ok s'" "saa_data s' = splice_at (wptr s1) (drop ?l xs) (saa_data s1)"
        "wptr s' = wptr s1 + (len - ?l)" "saa_reader s' = saa_reader s1"
        by auto
      moreover have "splice_at (wptr s1) (drop ?l xs) (saa_data s1) = splice_at (wptr s) xs (saa_data s)"
        using splice_at_append [OF wl, of "take ?l xs" "drop ?l xs"] s1(3,4) xl by simp
      ultimately show ?thesis using s1 False ok more
        by (subst saa_wbytes.simps) (simp add: Let_def)
    qed
  qed
qed

section \<open>Reading\<close>

lemma saa_copy_data:
  assumes ok: "saa_ok s" and q: "int q = b * int (blk_len s) + int p"
    and l: "p + l \<le> blk_len s" "q + l \<le> datalen s" "0 < l"
  shows "saa_copy s (Some (b, p)) l = Inr (take l (drop q (saa_data s)))"
proof -
  let ?B = "blk_len s"
  have inv: "\<forall>b \<in> set (blk_ptrs s). length b = ?B" "length (blk_ptrs s) = nblks s"
    "datalen s \<le> nblks s * ?B" using ok by (auto simp: saa_ok_def)
  have "p < ?B" using l by simp
  note bq = block_cursor [OF q this]
  have "q < nblks s * ?B" using l inv(3) by simp
  then have i: "q div ?B < length (blk_ptrs s)" by (simp add: inv(2) less_mult_imp_div_less)
  have "length (blk_ptrs s ! (q div ?B)) = ?B" using inv(1) i by simp
  then have "saa_copy s (Some (b, p)) l = Inr (take l (drop p (blk_ptrs s ! (q div ?B))))"
    using i l by (simp add: saa_copy_def blk_read_def bq(1))
  also have "take l (drop p (blk_ptrs s ! (q div ?B))) = take l (drop q (concat (blk_ptrs s)))"
    using concat_take_drop_nth [OF inv(1) i l(1)] by (simp add: bq(2))
  also have "\<dots> = take l (drop q (saa_data s))"
    using l by (simp add: saa_data_def drop_take min_def)
  finally show ?thesis .
qed

text \<open>What reading leaves alone: everything but the read cursor.\<close>

definition saa_unread :: "saa \<Rightarrow> saa" where
  "saa_unread s = s\<lparr>rblk := 0, rpos := 0, rptr := 0\<rparr>"

lemma saa_unread_data: "saa_unread s' = saa_unread s \<Longrightarrow>
    saa_data s' = saa_data s \<and> datalen s' = datalen s \<and> blk_len s' = blk_len s \<and>
    elem_len s' = elem_len s \<and> wptr s' = wptr s \<and> blk_ptrs s' = blk_ptrs s"
  by (cases s; cases s') (simp add: saa_unread_def saa_data_def)

lemma saa_rbytes_ok:
  assumes ok: "saa_ok s" and r: "rptr s < datalen s" and n: "0 < lenp"
  obtains p l s' where "saa_rbytes s lenp = (Some p, l, s')" "0 < l" "l \<le> lenp"
    "l \<le> datalen s - rptr s" "saa_copy s' (Some p) l = Inr (take l (drop (rptr s) (saa_data s)))"
    "saa_ok s'" "saa_unread s' = saa_unread s" "rptr s' = rptr s + l"
proof -
  define t where "t = (if blk_len s \<le> rpos s then s\<lparr>rblk := rblk s + 1, rpos := 0\<rparr> else s)"
  define l where "l = min (min lenp (datalen t - rptr t)) (blk_len t - rpos t)"
  define s' where "s' = t\<lparr>rpos := rpos t + l, rptr := rptr t + l\<rparr>"
  have t: "saa_ok t" "rpos t < blk_len t" "rptr t = rptr s" "saa_unread t = saa_unread s"
    using ok by (auto simp: t_def saa_ok_def algebra_simps saa_unread_def)
  note td = saa_unread_data [OF t(4)]
  have e: "saa_rbytes s lenp = (Some (rblk t, rpos t), l, s')"
    using r by (simp add: saa_rbytes_def Let_def s'_def t_def l_def)
  have l: "0 < l" "l \<le> lenp" "l \<le> datalen s - rptr s" "rpos t + l \<le> blk_len t"
    using r n t td by (auto simp: l_def)
  have "int (rptr t) = rblk t * int (blk_len t) + int (rpos t)" using t(1) by (simp add: saa_ok_def)
  then have "saa_copy t (Some (rblk t, rpos t)) l = Inr (take l (drop (rptr t) (saa_data t)))"
    using saa_copy_data [OF t(1) _ l(4) _ l(1)] l(3) t(3) td r by simp
  then have "saa_copy s' (Some (rblk t, rpos t)) l = Inr (take l (drop (rptr s) (saa_data s)))"
    using t(3) td l(1) by (simp add: saa_copy_def s'_def)
  moreover have "saa_ok s'" using t l td r by (auto simp: saa_ok_def s'_def algebra_simps)
  moreover have "saa_unread s' = saa_unread s" using t(4) by (simp add: s'_def saa_unread_def)
  moreover have "rptr s' = rptr s + l" using t(3) by (simp add: s'_def)
  ultimately show thesis using that e l by blast
qed

lemma saa_rnloop_ok:
  assumes "saa_ok s" and "rptr s + len \<le> datalen s"
  shows "\<exists>s'. saa_rnloop s len = Inr (take len (drop (rptr s) (saa_data s)), s') \<and> saa_ok s' \<and>
    saa_unread s' = saa_unread s \<and> rptr s' = rptr s + len"
  using assms
proof (induction len arbitrary: s rule: less_induct)
  case (less len)
  show ?case
  proof (cases "len = 0")
    case True
    then show ?thesis using less.prems by (simp add: saa_rnloop.simps)
  next
    case False
    then have "rptr s < datalen s" "0 < len" using less.prems by simp_all
    from saa_rbytes_ok [OF less.prems(1) this] obtain p l s1
      where rb: "saa_rbytes s len = (Some p, l, s1)" "0 < l" "l \<le> len"
      and cp: "saa_copy s1 (Some p) l = Inr (take l (drop (rptr s) (saa_data s)))"
      and s1: "saa_ok s1" "saa_unread s1 = saa_unread s" "rptr s1 = rptr s + l" by metis
    note d1 = saa_unread_data [OF s1(2)]
    have "rptr s1 + (len - l) \<le> datalen s1" using rb s1(3) d1 less.prems(2) by simp
    with less.IH [of "len - l" s1] rb s1(1)
    obtain s' where s': "saa_rnloop s1 (len - l) = Inr (take (len - l) (drop (rptr s1) (saa_data s1)), s')"
      "saa_ok s'" "saa_unread s' = saa_unread s1" "rptr s' = rptr s1 + (len - l)"
      by auto
    have "take l (drop (rptr s) (saa_data s)) @ take (len - l) (drop (rptr s1) (saa_data s1))
        = take len (drop (rptr s) (saa_data s))"
      using take_add [of l "len - l" "drop (rptr s) (saa_data s)"] rb(3)
      by (simp add: s1(3) d1 add.commute [of l "rptr s"])
    then have "saa_rnloop s len = Inr (take len (drop (rptr s) (saa_data s)), s')"
      using False rb(2) by (subst saa_rnloop.simps) (simp add: rb(1) cp s'(1) Let_def)
    then show ?thesis using s' s1 rb(3) by simp
  qed
qed

section \<open>Random access and output\<close>

lemma saa_seek_eq: "0 < blk_len s \<Longrightarrow> saa_seek s posn = (posn div blk_len s, posn mod blk_len s)"
proof -
  have "SAA_BLKLEN - 1 = mask SAA_BLKSHIFT" by (simp add: SAA_BLKLEN_def mask_eq_exp_minus_1)
  then have "posn AND (SAA_BLKLEN - 1) = posn mod SAA_BLKLEN"
    by (simp only: SAA_BLKLEN_def take_bit_eq_mod flip: take_bit_eq_mask)
  then show ?thesis by (simp add: saa_seek_def drop_bit_eq_div SAA_BLKLEN_def)
qed

text \<open>Positioning either cursor re-establishes the invariant.\<close>

lemma saa_rseek_ok:
  assumes "saa_ok s" and "posn \<le> datalen s"
  shows "saa_ok (s\<lparr>rpos := posn mod blk_len s, rptr := posn, rblk := int (posn div blk_len s)\<rparr>)"
  using assms by (auto simp: saa_ok_def simp flip: of_nat_mult of_nat_add intro: less_imp_le)

definition saa_wseek :: "saa \<Rightarrow> nat \<Rightarrow> saa" where
  "saa_wseek s posn =
     (let s = s\<lparr>wpos := posn mod blk_len s, wptr := posn, wblk := int (posn div blk_len s)\<rparr>
      in if wpos s = 0 then s\<lparr>wpos := blk_len s, wblk := wblk s - 1\<rparr> else s)"

lemma saa_wseek_ok:
  assumes "saa_ok s" and "posn \<le> datalen s"
  shows "saa_ok (saa_wseek s posn)" "saa_data (saa_wseek s posn) = saa_data s"
    "wptr (saa_wseek s posn) = posn" "saa_reader (saa_wseek s posn) = saa_reader s"
    "datalen (saa_wseek s posn) = datalen s"
proof -
  let ?B = "blk_len s"
  have B: "0 < ?B" "datalen s \<le> nblks s * ?B" using assms(1) by (auto simp: saa_ok_def)
  have i: "int posn = int (posn div ?B) * int ?B + int (posn mod ?B)"
    by (simp flip: of_nat_mult of_nat_add)
  have "posn div ?B < nblks s" if "posn mod ?B \<noteq> 0"
  proof -
    have "posn \<noteq> nblks s * ?B" using that by auto
    then have "posn < nblks s * ?B" using assms(2) B by simp
    then show ?thesis by (simp add: less_mult_imp_div_less)
  qed
  with assms B i show "saa_ok (saa_wseek s posn)"
    by (auto simp: saa_wseek_def Let_def saa_ok_def less_imp_le algebra_simps)
qed (simp_all add: saa_wseek_def Let_def saa_data_def saa_reader_def)

lemma saa_fwrite_ok:
  assumes "saa_ok s" and "posn \<le> datalen s" and "src_take d len = Inr xs"
  shows "\<exists>s'. saa_fwrite s posn d len = Inr s' \<and> saa_ok s' \<and>
    saa_data s' = splice_at posn xs (saa_data s) \<and> wptr s' = posn + len \<and> saa_reader s' = saa_reader s"
proof -
  have "0 < blk_len s" using assms(1) by (simp add: saa_ok_def)
  then have "saa_fwrite s posn d len = saa_wbytes (saa_wseek s posn) d len"
    using assms(2) by (simp add: saa_fwrite_def saa_seek_eq saa_wseek_def Let_def)
  with saa_wbytes_ok [OF saa_wseek_ok(1) [OF assms(1,2)] assms(3)] saa_wseek_ok [OF assms(1,2)]
  show ?thesis by simp
qed

lemma saa_fread_ok:
  assumes "saa_ok s" and "posn + len \<le> datalen s"
  shows "\<exists>s'. saa_fread s posn len = Inr (take len (drop posn (saa_data s)), s') \<and> saa_ok s' \<and>
    saa_unread s' = saa_unread s \<and> rptr s' = posn + len"
proof -
  let ?s = "s\<lparr>rpos := posn mod blk_len s, rptr := posn, rblk := int (posn div blk_len s)\<rparr>"
  have B: "0 < blk_len s" using assms(1) by (simp add: saa_ok_def)
  have u: "saa_unread ?s = saa_unread s" by (simp add: saa_unread_def)
  have "saa_ok ?s" using assms by (intro saa_rseek_ok) auto
  then have "\<exists>s'. saa_rnloop ?s len = Inr (take len (drop posn (saa_data ?s)), s') \<and> saa_ok s' \<and>
    saa_unread s' = saa_unread ?s \<and> rptr s' = posn + len"
    using saa_rnloop_ok [of ?s len] assms(2) by simp
  then show ?thesis
    using assms(2) B saa_unread_data [OF u] u by (simp add: saa_fread_def saa_seek_eq saa_rnbytes_def)
qed

lemma saa_fploop_ok:
  assumes "saa_ok s"
  shows "\<exists>s'. saa_fploop s = Inr (drop (rptr s) (saa_data s), s') \<and> saa_ok s' \<and> saa_unread s' = saa_unread s"
  using assms
proof (induction "datalen s - rptr s" arbitrary: s rule: less_induct)
  case less
  show ?case
  proof (cases "rptr s < datalen s")
    case False
    then have "saa_fploop s = Inr ([], s)" by (subst saa_fploop.simps) (simp add: saa_rbytes_def)
    with False less.prems show ?thesis by (simp add: length_saa_data)
  next
    case True
    then have "0 < datalen s" by simp
    from saa_rbytes_ok [OF less.prems True this] obtain p l s1
      where rb: "saa_rbytes s (datalen s) = (Some p, l, s1)" "0 < l"
      and cp: "saa_copy s1 (Some p) l = Inr (take l (drop (rptr s) (saa_data s)))"
      and s1: "saa_ok s1" "saa_unread s1 = saa_unread s" "rptr s1 = rptr s + l" by metis
    note d1 = saa_unread_data [OF s1(2)]
    have "datalen s1 - rptr s1 < datalen s - rptr s" using True rb(2) s1(3) d1 by simp
    from less.hyps [OF this s1(1)] obtain s'
      where s': "saa_fploop s1 = Inr (drop (rptr s1) (saa_data s1), s')" "saa_ok s'"
        "saa_unread s' = saa_unread s1" by auto
    have "take l (drop (rptr s) (saa_data s)) @ drop (rptr s1) (saa_data s1) = drop (rptr s) (saa_data s)"
      using append_take_drop_id [of l "drop (rptr s) (saa_data s)"]
      by (simp add: s1(3) d1 add.commute [of l "rptr s"])
    then have "saa_fploop s = Inr (drop (rptr s) (saa_data s), s')"
      using rb(2) by (subst saa_fploop.simps) (simp add: rb(1) cp s'(1) Let_def)
    then show ?thesis using s' s1 by simp
  qed
qed

lemma saa_fpwrite_ok:
  assumes "saa_ok s"
  shows "\<exists>s'. saa_fpwrite s = Inr (saa_data s, s') \<and> saa_ok s' \<and> saa_unread s' = saa_unread s"
proof -
  have "saa_ok (saa_rewind s)" using assms by (simp add: saa_rewind_def saa_ok_def)
  moreover have u: "saa_unread (saa_rewind s) = saa_unread s" by (simp add: saa_unread_def saa_rewind_def)
  ultimately show ?thesis
    using saa_fploop_ok [of "saa_rewind s"] saa_unread_data [OF u]
    by (simp add: saa_fpwrite_def) (simp add: saa_rewind_def)
qed

section \<open>LEB128\<close>

text \<open>Readers of the two encodings: the value and the rest of the input.\<close>

fun uleb_read :: "bytes \<Rightarrow> (nat \<times> bytes) option" where
  "uleb_read [] = None"
| "uleb_read (b # bs) =
     (if unat b < 128 then Some (unat b, bs)
      else map_option (\<lambda>(k, r). (unat b - 128 + 128 * k, r)) (uleb_read bs))"

fun sleb_read :: "bytes \<Rightarrow> (int \<times> bytes) option" where
  "sleb_read [] = None"
| "sleb_read (b # bs) =
     (if unat b < 64 then Some (int (unat b), bs)
      else if unat b < 128 then Some (int (unat b) - 128, bs)
      else map_option (\<lambda>(k, r). (int (unat b) - 128 + 128 * k, r)) (sleb_read bs))"

lemma sint_eq_0_iff: "sint w = 0 \<longleftrightarrow> w = 0"
  by (simp add: word_eq_iff_signed [where 'a = int])
lemma sint_eq_minus_1_iff: "sint w = - 1 \<longleftrightarrow> w = - 1"
  by (simp add: word_eq_iff_signed [where 'a = int])

lemma unat_low7: "unat (ucast (v AND 127) :: u8) = unat (v::u32) mod 128"
proof -
  have "(127 :: u32) = mask 7" by (simp add: mask_eq_exp_minus_1)
  then have "v AND 127 = take_bit 7 v" by (simp add: take_bit_eq_mask)
  then have "unat (v AND 127) = unat v mod 128" using unat_take_bit [of 7 v] by simp
  moreover have "unat v mod 128 < 128" by simp
  ultimately show ?thesis by (simp add: unsigned_ucast_eq take_bit_nat_eq_self del: mod_less_divisor)
qed

lemma unat_or_80: "unat (b :: u8) < 128 \<Longrightarrow> unat (b OR 0x80) = unat b + 128"
proof -
  assume b: "unat b < 128"
  have "bit b 7 \<longleftrightarrow> bit (unat b) 7" by (simp add: bit_unsigned_iff)
  then have "\<not> bit b 7" using b by (simp add: bit_iff_odd)
  then have "b AND 0x80 = 0" by (simp add: bit_iff_and_push_bit_not_eq_0)
  then have "b OR 0x80 = b + 0x80" using word_plus_and_or [of b "0x80"] by simp
  then show ?thesis using b by (simp add: unat_word_ariths)
qed

lemma and_40: "unat (b :: u8) < 128 \<Longrightarrow> b AND 0x40 = 0 \<longleftrightarrow> unat b < 64"
proof -
  assume b: "unat b < 128"
  have "b AND 0x40 = 0 \<longleftrightarrow> \<not> bit b 6" by (simp add: bit_iff_and_push_bit_not_eq_0)
  moreover have "bit b 6 \<longleftrightarrow> bit (unat b) 6" by (simp add: bit_unsigned_iff)
  moreover have "bit (unat b) 6 \<longleftrightarrow> odd (unat b div 64)" by (simp add: bit_iff_odd)
  moreover have "unat b div 64 = 0 \<or> unat b div 64 = 1" using b by auto
  ultimately show ?thesis by auto
qed

lemma leb128u_loop_ok:
  "0 \<le> sint v \<Longrightarrow> unat v < 128 ^ Suc k \<Longrightarrow> n + Suc k \<le> 64 \<Longrightarrow>
   \<exists>bs. leb128u_loop v n = Inr bs \<and> length bs \<le> Suc k \<and> (\<forall>r. uleb_read (bs @ r) = Some (unat v, r))"
proof (induction k arbitrary: v n)
  case (0 v n)
  have "sint (signed_drop_bit 7 v) = 0" using sint_signed_drop [of v 7] 0 by simp
  then have "signed_drop_bit 7 v = 0" by (simp only: sint_eq_0_iff)
  then have "leb128u_loop v n = Inr [ucast (v AND 127)]" using 0
    by (subst leb128u_loop.simps) (simp add: Let_def)
  then show ?case using 0 by (simp add: unat_low7)
next
  case (Suc k v n)
  let ?w = "signed_drop_bit 7 v" and ?b = "ucast (v AND 127) :: u8"
  have w: "sint ?w = int (unat v div 128)" using sint_signed_drop [of v 7] Suc.prems by simp
  have b: "unat ?b = unat v mod 128" by (rule unat_low7)
  show ?case
  proof (cases "?w = 0")
    case True
    then have "unat v < 128" using w by simp
    then show ?thesis using Suc.prems True
      by (subst leb128u_loop.simps) (simp add: Let_def b)
  next
    case False
    have u: "unat ?w = unat v div 128" using w sint_eq_unat [of ?w] by (metis of_nat_0_le_iff of_nat_eq_iff)
    have "unat v div 128 < 128 ^ Suc k" using Suc.prems by (simp add: div_less_iff_less_mult)
    with Suc.IH [of ?w "Suc n"] u w Suc.prems obtain bs
      where bs: "leb128u_loop ?w (Suc n) = Inr bs" "length bs \<le> Suc k"
        "\<forall>r. uleb_read (bs @ r) = Some (unat ?w, r)" by auto
    have e: "leb128u_loop v n = Inr ((?b OR 0x80) # bs)" using Suc.prems False bs(1)
      by (subst leb128u_loop.simps) (simp add: Let_def)
    have "unat ?b < 128" using b by simp
    then have "uleb_read ((?b OR 0x80) # bs @ r) = Some (unat v, r)" for r
      using bs(3) b u unat_or_80 [of ?b] by simp
    with e bs(2) show ?thesis by simp
  qed
qed

text \<open>A negative value stays negative under the arithmetic shift.\<close>

lemma leb128u_loop_neg: "sint v < 0 \<Longrightarrow> leb128u_loop v n = Inl OutOfBounds"
proof (induction v n rule: leb128u_loop.induct)
  case (1 v n)
  let ?w = "signed_drop_bit 7 v"
  have "sint ?w < 0" using "1.prems"
    by (simp add: sint_signed_drop_bit_eq drop_bit_eq_div pos_imp_zdiv_neg_iff)
  moreover from this have "?w \<noteq> 0" by auto
  ultimately show ?case using "1.IH" by (subst leb128u_loop.simps) (simp add: Let_def guard_def)
qed

lemma signed_drop_bit_sign:
  fixes v :: "'a::len word"
  assumes "n + k = LENGTH('a)" and "sint v < 0"
  shows "signed_drop_bit n v OR NOT (mask k) = signed_drop_bit n v"
proof -
  have "bit v (LENGTH('a) - Suc 0)" using assms(2) by (simp add: bit_last_iff)
  with assms(1) show ?thesis
    by (intro bit_word_eqI) (auto simp: bit_signed_drop_bit_iff bit_or_iff bit_not_iff bit_mask_iff min_def)
qed

lemma sign_extend_neg:
  assumes "sint (v :: i32) < 0"
  shows "signed_drop_bit 7 v OR - (push_bit (32 - 7) 1) = signed_drop_bit 7 v"
  using signed_drop_bit_sign [of 7 25 v] assms by (simp add: mask_eq_exp_minus_1 push_bit_eq_mult)

lemma leb128s_step:
  "leb128s_loop (sint v < 0) v n =
     guard (n < 64) OutOfBounds
     (let byte = ucast (v AND 127) :: u8; w = signed_drop_bit 7 v
      in if (w = 0 \<and> unat byte < 64) \<or> (w = -1 \<and> 64 \<le> unat byte) then Inr [byte]
         else andthen (leb128s_loop (sint w < 0) w (Suc n)) (\<lambda>bs. Inr ((byte OR 0x80) # bs)))"
proof -
  have "sint (signed_drop_bit 7 v) < 0 \<longleftrightarrow> sint v < 0"
    by (simp add: sint_signed_drop_bit_eq drop_bit_eq_div pos_imp_zdiv_neg_iff)
  moreover have "unat (ucast (v AND 127) :: u8) < 128" by (simp add: unat_low7)
  ultimately show ?thesis
    using sign_extend_neg [of v] and_40 [of "ucast (v AND 127)"]
    by (subst leb128s_loop.simps) (auto simp: Let_def not_le)
qed

lemma sint_low7: "int (unat (ucast (v AND 127) :: u8)) = sint (v :: i32) mod 128"
proof -
  have "sint v mod 128 = uint v mod 128" by (cases v rule: sint_cases) (simp, use mod_mult_self2 [of "uint v" 128 "-33554432"] in simp)
  then show ?thesis unfolding unat_low7 by (simp add: zmod_int)
qed

lemma low7_cases:
  fixes x q r :: int
  assumes "x = 128 * q + r" "0 \<le> r" "r < 128"
  shows "(q = 0 \<and> r < 64) \<or> (q = -1 \<and> 64 \<le> r) \<longleftrightarrow> -64 \<le> x \<and> x < 64"
    and "- (64 * 128 * m) \<le> x \<Longrightarrow> - (64 * m) \<le> q" "x < 64 * 128 * m \<Longrightarrow> q < 64 * m"
    and "-64 \<le> x \<Longrightarrow> x < 64 \<Longrightarrow> r < 64 \<and> x = r \<or> 64 \<le> r \<and> x = r - 128"
proof -
  have "q \<le> -2 \<or> q = -1 \<or> q = 0 \<or> 1 \<le> q" by linarith
  then show "(q = 0 \<and> r < 64) \<or> (q = -1 \<and> 64 \<le> r) \<longleftrightarrow> -64 \<le> x \<and> x < 64"
    using assms by (elim disjE) simp_all
next
  show "-64 \<le> x \<Longrightarrow> x < 64 \<Longrightarrow> r < 64 \<and> x = r \<or> 64 \<le> r \<and> x = r - 128"
    using assms by presburger
qed (use assms in linarith)+

lemma leb128s_value:
  fixes v :: i32
  defines "w \<equiv> signed_drop_bit 7 v" and "b \<equiv> ucast (v AND 127) :: u8"
  shows "sint v = 128 * sint w + uint b" "0 \<le> uint b" "uint b < 128" "unat b < 128"
proof -
  have "sint w = sint v div 128" unfolding w_def by (simp add: sint_signed_drop_bit_eq drop_bit_eq_div)
  moreover have "uint b = sint v mod 128" using sint_low7 [of v] unfolding b_def by simp
  ultimately show "sint v = 128 * sint w + uint b" "uint b < 128"
    by (metis mult_div_mod_eq, simp)
  show "unat b < 128" unfolding b_def unat_low7 by simp
qed simp

lemma unat_uint_less: "unat b < 64 \<longleftrightarrow> uint b < 64" "64 \<le> unat b \<longleftrightarrow> 64 \<le> uint b" for b :: u8
  using of_nat_less_iff [of "unat b" 64, where 'a = int] of_nat_le_iff [of 64 "unat b", where 'a = int]
  by (simp_all del: of_nat_less_iff of_nat_le_iff)

lemma leb128s_cases:
  fixes v :: i32
  defines "w \<equiv> signed_drop_bit 7 v" and "b \<equiv> ucast (v AND 127) :: u8"
  shows "(w = 0 \<and> unat b < 64) \<or> (w = -1 \<and> 64 \<le> unat b) \<longleftrightarrow> -64 \<le> sint v \<and> sint v < 64"
  using low7_cases(1) [OF leb128s_value(1-3) [of v]]
  unfolding w_def b_def sint_eq_0_iff sint_eq_minus_1_iff unat_uint_less .

lemma leb128s_last:
  assumes "-64 \<le> sint v" "sint v < 64" "n < 64"
  shows "\<exists>bs. leb128s_loop (sint v < 0) v n = Inr bs \<and> length bs \<le> 1 \<and>
     (\<forall>r. sleb_read (bs @ r) = Some (sint v, r))"
proof -
  let ?b = "ucast (v AND 127) :: u8"
  have "leb128s_loop (sint v < 0) v n = Inr [?b]"
    using leb128s_cases [of v] assms by (subst leb128s_step) (simp add: Let_def)
  moreover have "unat ?b < 128" by (rule leb128s_value)
  moreover have "unat ?b < 64 \<and> sint v = uint ?b \<or> \<not> unat ?b < 64 \<and> sint v = uint ?b - 128"
    using low7_cases(4) [OF leb128s_value(1-3) [of v] assms(1,2)] by (simp only: unat_uint_less not_less)
  ultimately show ?thesis by (elim disjE) simp_all
qed

lemma leb128s_loop_ok:
  "- (64 * 128 ^ k) \<le> sint v \<Longrightarrow> sint v < 64 * 128 ^ k \<Longrightarrow> n + Suc k \<le> 64 \<Longrightarrow>
   \<exists>bs. leb128s_loop (sint v < 0) v n = Inr bs \<and> length bs \<le> Suc k \<and>
     (\<forall>r. sleb_read (bs @ r) = Some (sint v, r))"
proof (induction k arbitrary: v n)
  case (0 v n)
  then show ?case using leb128s_last [of v n] by simp
next
  case (Suc k v n)
  let ?w = "signed_drop_bit 7 v" and ?b = "ucast (v AND 127) :: u8"
  note c = leb128s_value [of v]
  show ?case
  proof (cases "-64 \<le> sint v \<and> sint v < 64")
    case True
    then show ?thesis using leb128s_last [of v n] Suc.prems(3) by fastforce
  next
    case False
    have "- (64 * 128 ^ k) \<le> sint ?w" "sint ?w < 64 * 128 ^ k"
      using Suc.prems(1,2) low7_cases(2,3) [OF c(1-3), of "128 ^ k"] by (simp_all add: mult.assoc)
    with Suc.IH [of ?w "Suc n"] Suc.prems(3) obtain bs
      where bs: "leb128s_loop (sint ?w < 0) ?w (Suc n) = Inr bs" "length bs \<le> Suc k"
        "\<forall>r. sleb_read (bs @ r) = Some (sint ?w, r)" by auto
    have e: "leb128s_loop (sint v < 0) v n = Inr ((?b OR 0x80) # bs)"
      using False Suc.prems(3) bs(1) by (subst leb128s_step) (auto simp: Let_def leb128s_cases [of v])
    have "sleb_read ((?b OR 0x80) # bs @ r) = Some (sint v, r)" for r
      using bs(3) unat_or_80 [OF c(4)] c(1,4) by simp
    with e bs(2) show ?thesis by simp
  qed
qed


section \<open>Growing at the end\<close>

text \<open>
  What the object-format writers rely on: every write appends its bytes to the contents.
\<close>

locale byte_sink =
  fixes ok :: "'s \<Rightarrow> bool" and contents :: "'s \<Rightarrow> 'b list" and put :: "'s \<Rightarrow> 'b list \<Rightarrow> 's result"
  assumes put_ok: "ok s \<Longrightarrow> \<exists>s'. put s xs = Inr s' \<and> ok s' \<and> contents s' = contents s @ xs"
begin

lemma puts_ok: "ok s \<Longrightarrow> \<exists>s'. steps put s xss = Inr s' \<and> ok s' \<and> contents s' = contents s @ concat xss"
proof (induction xss arbitrary: s)
  case (Cons xs xss)
  from put_ok [OF Cons.prems, of xs] obtain s1 where "put s xs = Inr s1" "ok s1"
    "contents s1 = contents s @ xs" by blast
  with Cons.IH [of s1] show ?case by simp
qed simp

end

definition saa_at_end :: "saa \<Rightarrow> bool" where
  "saa_at_end s \<longleftrightarrow> saa_ok s \<and> wptr s = datalen s \<and> None \<notin> set (saa_data s)"

definition saa_bytes :: "saa \<Rightarrow> bytes" where
  "saa_bytes s = map the (saa_data s)"

definition saa_put :: "saa \<Rightarrow> bytes \<Rightarrow> saa result" where
  "saa_put s xs = saa_wbytes s (Some xs) (length xs)"

lemma saa_put_ok:
  assumes "saa_at_end s"
  shows "\<exists>s'. saa_put s xs = Inr s' \<and> saa_at_end s' \<and> saa_bytes s' = saa_bytes s @ xs"
proof -
  have s: "saa_ok s" "wptr s = datalen s" "None \<notin> set (saa_data s)"
    using assms by (simp_all add: saa_at_end_def)
  obtain s' where s': "saa_wbytes s (Some xs) (length xs) = Inr s'" "saa_ok s'"
    "saa_data s' = splice_at (wptr s) (map Some xs) (saa_data s)" "wptr s' = wptr s + length xs"
    using saa_wbytes_ok [OF s(1), of "Some xs" "length xs" "map Some xs"] by (auto simp: src_take_def)
  have d: "saa_data s' = saa_data s @ map Some xs"
    using splice_at_end [of "saa_data s" "map Some xs"] s' s(2) length_saa_data [OF s(1)] by simp
  then have "datalen s' = wptr s'"
    using length_saa_data [OF s'(2)] length_saa_data [OF s(1)] s' s(2) by simp
  with d s s' show ?thesis by (auto simp: saa_put_def saa_at_end_def saa_bytes_def)
qed

interpretation saa_sink: byte_sink saa_at_end saa_bytes saa_put
  by unfold_locales (rule saa_put_ok)

text \<open>Every writer is a write of the bytes it encodes.\<close>

datatype saa_item =
    Byte u8 | Half u16 | Word32 u32 | Word64 u64 | Addr u64 nat | Buffer bytes | Zeros nat
  | CString bytes | ULeb i32 | SLeb i32

fun saa_emit :: "saa \<Rightarrow> saa_item \<Rightarrow> saa result" where
  "saa_emit s (Byte v) = saa_write8 s v"
| "saa_emit s (Half v) = saa_write16 s v"
| "saa_emit s (Word32 v) = saa_write32 s v"
| "saa_emit s (Word64 v) = saa_write64 s v"
| "saa_emit s (Addr v n) = saa_writeaddr s v n"
| "saa_emit s (Buffer xs) = saa_wbytes s (Some xs) (length xs)"
| "saa_emit s (Zeros n) = saa_wbytes s None n"
| "saa_emit s (CString str) = andthen (saa_wcstring s str) (\<lambda>r. Inr (snd r))"
| "saa_emit s (ULeb v) = saa_wleb128u s v"
| "saa_emit s (SLeb v) = saa_wleb128s s v"

definition leb_temp :: "bytes result \<Rightarrow> bytes" where
  "leb_temp r = (case r of Inl e \<Rightarrow> [] | Inr bs \<Rightarrow> bs)"

fun item_bytes :: "saa_item \<Rightarrow> bytes" where
  "item_bytes (Byte v) = [v]"
| "item_bytes (Half v) = [ucast v, ucast (drop_bit 8 v)]"
| "item_bytes (Word32 v) = le_bytes 4 v"
| "item_bytes (Word64 v) = le_bytes 8 v"
| "item_bytes (Addr v n) = take n (le_bytes 8 v)"
| "item_bytes (Buffer xs) = xs"
| "item_bytes (Zeros n) = replicate n 0"
| "item_bytes (CString str) = str @ [0]"
| "item_bytes (ULeb v) = leb_temp (leb128u_loop v 0)"
| "item_bytes (SLeb v) = leb_temp (leb128s_loop (sint v < 0) v 0)"

text \<open>The values the writers are meant for.\<close>

fun item_valid :: "saa_item \<Rightarrow> bool" where
  "item_valid (Addr v n) \<longleftrightarrow> n \<le> 8"
| "item_valid (ULeb v) \<longleftrightarrow> 0 \<le> sint v"
| "item_valid _ \<longleftrightarrow> True"

lemma leb128u_total: "0 \<le> sint v \<Longrightarrow> \<exists>bs. leb128u_loop v 0 = Inr bs"
proof -
  assume v: "0 \<le> sint v"
  have "unat v < 2 ^ LENGTH(32)" by (rule unsigned_less)
  then show ?thesis using leb128u_loop_ok [OF v, of 4 0] by auto
qed

lemma leb128s_bounds: "- (64 * 128 ^ 4) \<le> sint v" "sint v < 64 * 128 ^ 4" for v :: i32
  using sint_greater_eq [of v] sint_less [of v] by simp_all

lemma leb128s_total: "\<exists>bs. leb128s_loop (sint v < 0) v 0 = Inr bs"
  using leb128s_loop_ok [OF leb128s_bounds, of 0 v] by auto

text \<open>What is written depends only on the bytes the source stands for.\<close>

lemma saa_wbytes_source:
  "src_take d n = Inr xs \<Longrightarrow> src_take e n = Inr xs \<Longrightarrow> saa_wbytes s d n = saa_wbytes s e n"
proof (induction n arbitrary: d e xs s rule: less_induct)
  case (less n)
  note sp = src_take_split [OF less.prems(1)] src_take_split [OF less.prems(2)]
  have c: "saa_wchunk s d l = saa_wchunk s e l" if "l \<le> n" for s l
    using sp(1,3) [OF that] by (simp add: saa_wchunk_def)
  have r: "saa_wbytes t (map_option (drop l) d) (n - l) = saa_wbytes t (map_option (drop l) e) (n - l)"
    if "0 < l" "l \<le> n" for t l
    using less.IH [OF _ sp(2,4) [OF that(2)]] that by simp
  have main: "saa_wbytes t d n = saa_wbytes t e n" if "wpos t < blk_len t" for t
  proof (cases "n = 0")
    case False
    define l where "l = min (blk_len t - wpos t) n"
    have "0 < l" "l \<le> n" using False that by (auto simp: l_def)
    then show ?thesis
      unfolding saa_wbytes.simps [of t d n] saa_wbytes.simps [of t e n] Let_def l_def [symmetric]
      by (simp only: r c)
  qed (simp add: saa_wbytes.simps)
  show ?case
  proof (cases "wpos s < blk_len s")
    case True
    then show ?thesis by (rule main)
  next
    case full: False
    have "saa_wbytes (saa_wnext s) d n = saa_wbytes (saa_wnext s) e n" if "0 < blk_len s"
      using that by (intro main) simp
    then show ?thesis using full
      by (subst (1 2) saa_wbytes.simps) (simp add: Let_def saa_wchunk_def guard_def option.map_ident)
  qed
qed

lemma le_bytes_one: "le_bytes 1 v = [ucast v]"
  and le_bytes_two: "le_bytes 2 v = [ucast v, ucast (drop_bit 8 v)]"
  by (simp_all add: le_bytes_def upt_rec)

lemma saa_emit_put: "item_valid x \<Longrightarrow> saa_emit s x = saa_put s (item_bytes x)"
proof (cases x)
  case (ULeb v)
  assume "item_valid x"
  with leb128u_total [of v] ULeb obtain bs where "leb128u_loop v 0 = Inr bs" by auto
  with ULeb show ?thesis by (simp add: saa_wleb128u_def saa_put_def leb_temp_def)
next
  case (SLeb v)
  obtain bs where "leb128s_loop (sint v < 0) v 0 = Inr bs" using leb128s_total by blast
  with SLeb show ?thesis by (simp add: saa_wleb128s_def saa_put_def leb_temp_def)
next
  case (CString str)
  then show ?thesis
    by (cases "saa_wbytes s (Some (str @ [0])) (length str + 1)")
      (simp_all add: saa_put_def saa_wcstring_def Let_def)
next
  case (Addr v n)
  assume "item_valid x"
  with Addr show ?thesis
    using saa_wbytes_source [of "Some (le_bytes 8 v)" n "map Some (take n (le_bytes 8 v))"]
    by (simp add: saa_writeaddr_def saa_put_def src_take_def min_def)
next
  case (Zeros n)
  then show ?thesis using saa_wbytes_source [of None n "replicate n (Some 0)" "Some (replicate n 0)"]
    by (simp add: saa_put_def src_take_def)
qed (simp_all add: saa_put_def saa_write8_def saa_write16_def saa_write32_def saa_write64_def
  le_bytes_two le_bytes_one numeral_2_eq_2 [symmetric] flip: One_nat_def)

lemma saa_emits_puts:
  "\<forall>x \<in> set xs. item_valid x \<Longrightarrow> steps saa_emit s xs = steps saa_put s (map item_bytes xs)"
  by (induction xs arbitrary: s) (auto simp: saa_emit_put intro: andthen_cong)

section \<open>Properties\<close>

text \<open>
  C35. \<open>saa_fwrite\<close> at any position up to the end succeeds, for every element size and block
  layout, and \<open>saa_fread\<close> then returns, from any readable stretch, the bytes of the old contents
  overwritten at that position by the new data.
\<close>

theorem saa_fwrite_fread:
  assumes "saa_ok s" and "posn \<le> datalen s"
    and "q + n \<le> max (datalen s) (posn + length xs)"
  shows "\<exists>s1 s2. saa_fwrite s posn (Some xs) (length xs) = Inr s1 \<and> saa_ok s1 \<and>
    saa_fread s1 q n = Inr (take n (drop q (splice_at posn (map Some xs) (saa_data s))), s2) \<and> saa_ok s2"
proof -
  from saa_fwrite_ok [OF assms(1,2), of "Some xs" "length xs" "map Some xs"] obtain s1
    where s1: "saa_fwrite s posn (Some xs) (length xs) = Inr s1" "saa_ok s1"
      "saa_data s1 = splice_at posn (map Some xs) (saa_data s)" by (auto simp: src_take_def)
  then have "datalen s1 = max (datalen s) (posn + length xs)"
    using length_saa_data [OF s1(2)] length_saa_data [OF assms(1)] assms(2) by simp
  with saa_fread_ok [OF s1(2), of q n] s1 assms(3) show ?thesis by auto
qed

definition saa_sample :: saa where
  "saa_sample = \<lparr>elem_len = 2, blk_len = 4, nblks = 2, nblkptrs = 2, saa_length = 8, datalen = 6,
     wblk = 1, wpos = 2, wptr = 6, rblk = 0, rpos = 0, rptr = 0,
     blk_ptrs = [map Some [1, 2, 3, 4], [Some 5, Some 6, None, None]]\<rparr>"

theorem saa_fwrite_fread_witness:
  "\<exists>s1 s2. saa_fwrite saa_sample 4 (Some [7, 8, 9, 10, 11]) 5 = Inr s1 \<and> saa_ok s1 \<and>
    saa_fread s1 2 6 = Inr (map Some [3, 4, 7, 8, 9, 10], s2) \<and> saa_ok s2"
proof -
  have "saa_ok saa_sample" by (simp add: saa_sample_def saa_ok_def)
  moreover have "take 6 (drop 2 (splice_at 4 (map Some [7, 8, 9, 10, 11]) (saa_data saa_sample)))
      = map Some [3, 4, 7, 8, 9, 10]"
    by (simp add: saa_sample_def saa_data_def splice_at_def)
  moreover have "datalen saa_sample = 6" by (simp add: saa_sample_def)
  moreover have l: "length [7, 8, 9, 10, 11 :: u8] = 5" by simp
  ultimately show ?thesis
    using saa_fwrite_fread [of saa_sample 4 2 6 "[7, 8, 9, 10, 11]", unfolded l] by simp
qed

text \<open>
  C13. The array is a byte stream: from a fresh array of any element size, any sequence of the
  writers (fixed-width, buffers, zeros, strings, LEB128) succeeds, and \<open>saa_fpwrite\<close> then
  hands the file exactly the concatenation of the items' encodings.
\<close>

theorem saa_stream:
  assumes "0 < elen" and "\<forall>x \<in> set xs. item_valid x"
  shows "\<exists>s0 s1 s2. saa_init elen = Inr s0 \<and> steps saa_emit s0 xs = Inr s1 \<and>
    saa_fpwrite s1 = Inr (map Some (concat (map item_bytes xs)), s2)"
proof -
  from saa_init_ok [OF assms(1)] obtain s0 where s0: "saa_init elen = Inr s0" "saa_ok s0"
    "saa_data s0 = []" "wptr s0 = 0" by auto
  then have "saa_at_end s0" using length_saa_data [OF s0(2)] by (simp add: saa_at_end_def)
  from saa_sink.puts_ok [OF this, of "map item_bytes xs"] s0(3) obtain s1
    where s1: "steps saa_put s0 (map item_bytes xs) = Inr s1" "saa_at_end s1"
      "saa_bytes s1 = concat (map item_bytes xs)"
    by (auto simp: saa_bytes_def)
  have "x \<in> set (saa_data s1) \<Longrightarrow> Some (the x) = x" for x
    using s1(2) by (cases x) (auto simp: saa_at_end_def)
  then have "map Some (saa_bytes s1) = saa_data s1"
    by (auto simp: saa_bytes_def intro!: map_idI)
  then show ?thesis
    using saa_fpwrite_ok [of s1] s0(1) s1 saa_emits_puts [OF assms(2)] by (auto simp: saa_at_end_def)
qed

theorem saa_stream_witness:
  "\<exists>s0 s1 s2. saa_init 3 = Inr s0 \<and> steps saa_emit s0 [Half 0x1234, CString [65], Zeros 2] = Inr s1 \<and>
    saa_fpwrite s1 = Inr (map Some [0x34, 0x12, 65, 0, 0, 0], s2)"
proof -
  have v: "\<forall>x \<in> set [Half 0x1234, CString [65], Zeros 2]. item_valid x" by simp
  have b: "concat (map item_bytes [Half 0x1234, CString [65], Zeros 2]) = [0x34, 0x12, 65, 0, 0, 0]"
    by simp (simp only: numeral_2_eq_2 replicate.simps)
  show ?thesis by (rule saa_stream [of 3, OF _ v, unfolded b]) simp
qed

text \<open>
  C36. Both LEB128 writers emit at most five bytes from which a reader recovers the value, whatever
  follows them: \<open>saa_wleb128u\<close> for every non-negative \<open>int\<close>, \<open>saa_wleb128s\<close> for every \<open>int\<close>. On a
  negative value \<open>saa_wleb128u\<close> never reaches zero and runs over its 64-byte buffer.
\<close>

theorem saa_leb128_roundtrip:
  "(if 0 \<le> sint v
    then \<exists>bs. leb128u_loop v 0 = Inr bs \<and> length bs \<le> 5 \<and> (\<forall>r. uleb_read (bs @ r) = Some (unat v, r))
    else saa_wleb128u s v = Inl OutOfBounds) \<and>
   (\<exists>bs. leb128s_loop (sint v < 0) v 0 = Inr bs \<and> length bs \<le> 5 \<and>
     (\<forall>r. sleb_read (bs @ r) = Some (sint v, r)))"
proof -
  have "unat v < 2 ^ LENGTH(32)" by (rule unsigned_less)
  then have "unat v < 128 ^ Suc 4" by simp
  then show ?thesis
    using leb128u_loop_ok [of v 4 0] leb128u_loop_neg [of v 0] leb128s_loop_ok [OF leb128s_bounds, of 0 v]
    by (simp add: saa_wleb128u_def not_le)
qed

end
