(* ===== verification/RbTree.thy ===== *)
theory RbTree
  imports Prelude
begin

text \<open>
  The left-leaning red-black tree of \<open>nasmlib/rbtree.c\<close>: search for the highest node at or below
  a key, and insertion. The disassembler and the debug formats keep their address maps in it.
\<close>

section \<open>Model\<close>

text \<open>
  \<open>struct rbtree\<close>, or the null pointer. The structure is embedded in a larger one, which stands
  beside the key; search returns the embedding.
\<close>

datatype 'a rbtree =
    RBNil
  | RBNode u64 'a (rb_left: "'a rbtree") (rb_right: "'a rbtree") bool

fun rb_loop :: "'a rbtree \<Rightarrow> u64 \<Rightarrow> (u64 \<times> 'a) option \<Rightarrow> (u64 \<times> 'a) option" where
  "rb_loop RBNil key best = best"
| "rb_loop (RBNode k a l r c) key best =
     (if k = key then Some (k, a)
      else if key < k then rb_loop l key best
      else rb_loop r key (Some (k, a)))"

definition rb_search :: "'a rbtree \<Rightarrow> u64 \<Rightarrow> (u64 \<times> 'a) option" where
  "rb_search tree key = rb_loop tree key None"

fun is_red :: "'a rbtree \<Rightarrow> bool" where
  "is_red RBNil = False"
| "is_red (RBNode k a l r c) = c"

text \<open>Following a child of the null pointer, or flipping it, is a fault.\<close>

fun rotate_left :: "'a rbtree \<Rightarrow> 'a rbtree result" where
  "rotate_left (RBNode k a l (RBNode k' a' l' r' c') c) =
     Inr (RBNode k' a' (RBNode k a l l' True) r' c)"
| "rotate_left h = Inl NullDeref"

fun rotate_right :: "'a rbtree \<Rightarrow> 'a rbtree result" where
  "rotate_right (RBNode k a (RBNode k' a' l' r' c') r c) =
     Inr (RBNode k' a' l' (RBNode k a r' r True) c)"
| "rotate_right h = Inl NullDeref"

fun flip :: "'a rbtree \<Rightarrow> 'a rbtree" where
  "flip RBNil = RBNil"
| "flip (RBNode k a l r c) = RBNode k a l r (\<not> c)"

fun color_flip :: "'a rbtree \<Rightarrow> 'a rbtree result" where
  "color_flip (RBNode k a l r c) =
     guard (l \<noteq> RBNil \<and> r \<noteq> RBNil) NullDeref (Inr (RBNode k a (flip l) (flip r) (\<not> c)))"
| "color_flip RBNil = Inl NullDeref"

text \<open>The two repairs after the recursive call.\<close>

definition rb_lean :: "'a rbtree \<Rightarrow> 'a rbtree result" where
  "rb_lean tree = (if is_red (rb_right tree) then rotate_left tree else Inr tree)"

definition rb_balance :: "'a rbtree \<Rightarrow> 'a rbtree result" where
  "rb_balance tree =
     (if is_red (rb_left tree) \<and> is_red (rb_left (rb_left tree)) then rotate_right tree else Inr tree)"

definition rb_fix :: "'a rbtree \<Rightarrow> 'a rbtree result" where
  "rb_fix tree = andthen (rb_lean tree) rb_balance"

text \<open>
  \<open>rb_insert\<close>: the node that is inserted comes with the null children its owner gave it.
\<close>

lemma size_flip [simp]: "size (flip t) = size t"
  by (cases t) simp_all

function rb_insert :: "'a rbtree \<Rightarrow> u64 \<Rightarrow> 'a \<Rightarrow> 'a rbtree result" where
  "rb_insert RBNil nk na = Inr (RBNode nk na RBNil RBNil True)"
| "rb_insert (RBNode k a l r c) nk na =
     andthen
       (if is_red l \<and> is_red r then color_flip (RBNode k a l r c) else Inr (RBNode k a l r c))
       (\<lambda>t. case t of
          RBNil \<Rightarrow> Inl NullDeref
        | RBNode k a l r c \<Rightarrow>
            andthen
              (if nk < k
               then andthen (rb_insert l nk na) (\<lambda>l. Inr (RBNode k a l r c))
               else andthen (rb_insert r nk na) (\<lambda>r. Inr (RBNode k a l r c)))
              (\<lambda>t. andthen (rb_lean t) rb_balance))"
  by pat_completeness auto

termination
  by (relation "measure (\<lambda>(t, nk, na). size t)") (auto split: if_splits simp: guard_eq_Inr)

section \<open>Order\<close>

fun rb_inorder :: "'a rbtree \<Rightarrow> (u64 \<times> 'a) list" where
  "rb_inorder RBNil = []"
| "rb_inorder (RBNode k a l r c) = rb_inorder l @ (k, a) # rb_inorder r"

definition rb_sorted :: "'a rbtree \<Rightarrow> bool" where
  "rb_sorted t \<longleftrightarrow> sorted (map fst (rb_inorder t))"

text \<open>Insertion into the sorted sequence, after the entries of the same key.\<close>

fun seq_insert :: "u64 \<Rightarrow> 'a \<Rightarrow> (u64 \<times> 'a) list \<Rightarrow> (u64 \<times> 'a) list" where
  "seq_insert k a [] = [(k, a)]"
| "seq_insert k a (x # xs) = (if k < fst x then (k, a) # x # xs else x # seq_insert k a xs)"

lemma set_seq_insert [simp]: "set (seq_insert k a xs) = insert (k, a) (set xs)"
  by (induction xs) auto

lemma sorted_seq_insert: "sorted (map fst xs) \<Longrightarrow> sorted (map fst (seq_insert k a xs))"
  by (induction xs) (auto simp: not_less)

lemma seq_insert_left:
  "sorted (map fst (xs @ x # ys)) \<Longrightarrow> k < fst x \<Longrightarrow>
   seq_insert k a (xs @ x # ys) = seq_insert k a xs @ x # ys"
  by (induction xs) auto

lemma seq_insert_right:
  "sorted (map fst (xs @ x # ys)) \<Longrightarrow> \<not> k < fst x \<Longrightarrow>
   seq_insert k a (xs @ x # ys) = xs @ x # seq_insert k a ys"
  by (induction xs) (auto simp: not_less)

lemma inorder_flip [simp]: "rb_inorder (flip t) = rb_inorder t"
  by (cases t) simp_all

lemma inorder_color_flip: "color_flip t = Inr t' \<Longrightarrow> rb_inorder t' = rb_inorder t"
  by (cases t) (auto simp: guard_eq_Inr)

lemma inorder_fix: "andthen (rb_lean t) rb_balance = Inr t' \<Longrightarrow> rb_inorder t' = rb_inorder t"
proof -
  have l: "rotate_left t = Inr t' \<Longrightarrow> rb_inorder t' = rb_inorder t" for t t' :: "'a rbtree"
    by (cases t rule: rotate_left.cases) auto
  have r: "rotate_right t = Inr t' \<Longrightarrow> rb_inorder t' = rb_inorder t" for t t' :: "'a rbtree"
    by (cases t rule: rotate_right.cases) auto
  assume "andthen (rb_lean t) rb_balance = Inr t'"
  then obtain u where "rb_lean t = Inr u" "rb_balance u = Inr t'" by (auto simp: andthen_eq_Inr)
  then show ?thesis by (auto simp: rb_lean_def rb_balance_def split: if_splits dest!: l r)
qed

lemma rb_insert_NodeE:
  assumes "rb_insert (RBNode k a l r c) nk na = Inr t'"
  obtains k1 a1 l1 r1 c1 where
    "(if is_red l \<and> is_red r then color_flip (RBNode k a l r c) else Inr (RBNode k a l r c))
      = Inr (RBNode k1 a1 l1 r1 c1)"
proof (cases "if is_red l \<and> is_red r then color_flip (RBNode k a l r c) else Inr (RBNode k a l r c)")
  case (Inl e)
  with assms show thesis by simp
next
  case (Inr t1)
  with assms that show thesis by (cases t1) simp_all
qed

lemma inorder_insert:
  "rb_sorted t \<Longrightarrow> rb_insert t nk na = Inr t' \<Longrightarrow> rb_inorder t' = seq_insert nk na (rb_inorder t)"
proof (induction t nk na arbitrary: t' rule: rb_insert.induct)
  case (2 k a l r c nk na)
  from rb_insert_NodeE [OF "2.prems"(2)] obtain k1 a1 l1 r1 c1 where
    f: "(if is_red l \<and> is_red r then color_flip (RBNode k a l r c) else Inr (RBNode k a l r c))
      = Inr (RBNode k1 a1 l1 r1 c1)" .
  have e: "rb_inorder (RBNode k1 a1 l1 r1 c1) = rb_inorder (RBNode k a l r c)" "k1 = k" "a1 = a"
    "rb_inorder l1 = rb_inorder l" "rb_inorder r1 = rb_inorder r"
    using f by (auto split: if_splits simp: guard_eq_Inr)
  have s: "rb_sorted l1" "rb_sorted r1"
    using "2.prems"(1) e by (auto simp: rb_sorted_def sorted_append)
  show ?case
  proof (cases "nk < k1")
    case True
    then obtain l2 where l2: "rb_insert l1 nk na = Inr l2"
      "andthen (rb_lean (RBNode k1 a1 l2 r1 c1)) rb_balance = Inr t'"
      using "2.prems"(2) f by (auto simp: andthen_eq_Inr)
    from "2.IH"(1) [OF f refl _ s(1) l2(1)] True inorder_fix [OF l2(2)] e "2.prems"(1)
    show ?thesis by (simp add: seq_insert_left rb_sorted_def)
  next
    case False
    then obtain r2 where r2: "rb_insert r1 nk na = Inr r2"
      "andthen (rb_lean (RBNode k1 a1 l1 r2 c1)) rb_balance = Inr t'"
      using "2.prems"(2) f by (auto simp: andthen_eq_Inr)
    from "2.IH"(2) [OF f refl _ s(2) r2(1)] False inorder_fix [OF r2(2)] e "2.prems"(1)
    show ?thesis by (simp add: seq_insert_right rb_sorted_def)
  qed
qed auto

section \<open>Balance\<close>

text \<open>
  A subtree below the root: as many black nodes on every path, no red node with a red child,
  and no red right child beside a black left one.
\<close>

fun rb_black_height :: "'a rbtree \<Rightarrow> nat" where
  "rb_black_height RBNil = 0"
| "rb_black_height (RBNode k a l r c) = rb_black_height l + (if c then 0 else 1)"

fun llrb :: "'a rbtree \<Rightarrow> bool" where
  "llrb RBNil \<longleftrightarrow> True"
| "llrb (RBNode k a l r c) \<longleftrightarrow>
     llrb l \<and> llrb r \<and> rb_black_height l = rb_black_height r \<and>
     (c \<longrightarrow> \<not> is_red l \<and> \<not> is_red r) \<and> (is_red r \<longrightarrow> is_red l)"

text \<open>The code never blackens the root, whose own colour is left out of account.\<close>

fun rb_paint :: "bool \<Rightarrow> 'a rbtree \<Rightarrow> 'a rbtree" where
  "rb_paint c RBNil = RBNil"
| "rb_paint c (RBNode k a l r d) = RBNode k a l r c"

definition rb_ok :: "'a rbtree \<Rightarrow> bool" where
  "rb_ok t \<longleftrightarrow> llrb (rb_paint False t)"

text \<open>What the recursive call may return: a red root may have a red left child.\<close>

definition rb_post :: "'a rbtree \<Rightarrow> 'a rbtree \<Rightarrow> bool" where
  "rb_post t t' \<longleftrightarrow> t' \<noteq> RBNil \<and> rb_black_height t' = rb_black_height t \<and> llrb (rb_paint False t') \<and>
     (is_red t' \<longrightarrow> \<not> is_red (rb_right t')) \<and> (\<not> is_red t \<longrightarrow> t \<noteq> RBNil \<longrightarrow> llrb t') \<and>
     (t = RBNil \<longrightarrow> llrb t') \<and> (is_red t' \<longrightarrow> t \<noteq> RBNil \<longrightarrow> is_red t \<or> is_red (rb_left t))"

lemma is_redE: "is_red t \<Longrightarrow> (\<And>k a l r. t = RBNode k a l r True \<Longrightarrow> P) \<Longrightarrow> P"
  by (cases t) auto

lemma llrb_flip_red: "llrb t \<Longrightarrow> is_red t \<Longrightarrow> llrb (flip t) \<and> \<not> is_red (flip t) \<and>
    flip t \<noteq> RBNil \<and> rb_black_height (flip t) = Suc (rb_black_height t)"
  by (cases t) auto

text \<open>The state of the node when the recursive call is made.\<close>

lemma rb_flip_pre:
  assumes "llrb (RBNode k a l r c)"
  obtains l1 r1 c1 where
    "(if is_red l \<and> is_red r then color_flip (RBNode k a l r c) else Inr (RBNode k a l r c))
      = Inr (RBNode k a l1 r1 c1)"
    "llrb l1" "llrb r1" "rb_black_height l1 = rb_black_height r1" "\<not> is_red r1"
    "rb_black_height (RBNode k a l1 r1 c1) = rb_black_height (RBNode k a l r c)"
    "c1 \<Longrightarrow> \<not> is_red l1" "c \<Longrightarrow> c1" "c1 \<Longrightarrow> \<not> c \<Longrightarrow> is_red l \<and> l1 \<noteq> RBNil \<and> r1 \<noteq> RBNil \<and> \<not> is_red (rb_left l1) \<and> \<not> is_red (rb_left r1)"
proof (cases "is_red l \<and> is_red r")
  case True
  then have "l \<noteq> RBNil" "r \<noteq> RBNil" by auto
  with True assms llrb_flip_red [of l] llrb_flip_red [of r] show thesis
    by (intro that [of "flip l" "flip r" "\<not> c"]) (auto elim!: is_redE)
next
  case False
  with assms show thesis by (intro that [of l r c]) auto
qed

lemma rb_fix_left:
  assumes "llrb r" "\<not> is_red r" "rb_black_height l = rb_black_height r" "llrb l"
    and "c \<Longrightarrow> \<not> is_red l" and "rb_post l l'"
  shows "\<exists>t'. andthen (rb_lean (RBNode k a l' r c)) rb_balance = Inr t' \<and> t' \<noteq> RBNil \<and>
    rb_black_height t' = rb_black_height (RBNode k a l r c) \<and> llrb (rb_paint False t') \<and>
    (is_red t' \<longleftrightarrow> c) \<and> (c \<longrightarrow> \<not> is_red (rb_right t')) \<and> (\<not> c \<longrightarrow> llrb t') \<and>
    (c \<longrightarrow> \<not> is_red l' \<longrightarrow> llrb t')"
proof (cases "is_red l' \<and> is_red (rb_left l')")
  case True
  then obtain kl al ll rl where l': "l' = RBNode kl al ll rl True" "is_red ll" by (cases l') auto
  have "is_red l" "l \<noteq> RBNil" using assms(6) l' by (auto simp: rb_post_def)
  with assms l' show ?thesis by (cases c) (auto simp: rb_lean_def rb_balance_def rb_post_def)
next
  case False
  then have e: "andthen (rb_lean (RBNode k a l' r c)) rb_balance = Inr (RBNode k a l' r c)"
    using assms(2) by (auto simp: rb_lean_def rb_balance_def)
  have "llrb l'" using False assms(6) by (cases l') (auto simp: rb_post_def)
  then show ?thesis using e assms by (auto simp: rb_post_def)
qed

lemma rb_fix_right:
  assumes "llrb r" "\<not> is_red r" "rb_black_height l = rb_black_height r" "llrb l"
    and "c \<Longrightarrow> \<not> is_red l" and "rb_post r r'"
  shows "\<exists>t'. andthen (rb_lean (RBNode k a l r' c)) rb_balance = Inr t' \<and> t' \<noteq> RBNil \<and>
    rb_black_height t' = rb_black_height (RBNode k a l r c) \<and> llrb (rb_paint False t') \<and>
    (is_red t' \<longleftrightarrow> c) \<and> (c \<longrightarrow> \<not> is_red (rb_right t')) \<and> (\<not> c \<longrightarrow> llrb t') \<and>
    (c \<longrightarrow> \<not> is_red r' \<longrightarrow> llrb t')"
proof -
  have r': "llrb r'" using assms(2,6) by (cases "r = RBNil") (auto simp: rb_post_def)
  show ?thesis
  proof (cases "is_red r'")
    case False
    then have "andthen (rb_lean (RBNode k a l r' c)) rb_balance = rb_balance (RBNode k a l r' c)"
      by (simp add: rb_lean_def)
    moreover have "\<not> (is_red l \<and> is_red (rb_left l))" using assms(4) by (cases l) auto
    ultimately show ?thesis using assms r' False by (auto simp: rb_balance_def rb_post_def)
  next
    case True
    then obtain kr ar lr rr where e: "r' = RBNode kr ar lr rr True" by (cases r') auto
    show ?thesis
    proof (cases "is_red l")
      case True
      then obtain kl al ll rl where "l = RBNode kl al ll rl True" by (cases l) auto
      with e assms r' show ?thesis by (auto simp: rb_lean_def rb_balance_def rb_post_def)
    next
      case False
      with e assms r' show ?thesis by (auto simp: rb_lean_def rb_balance_def rb_post_def)
    qed
  qed
qed

lemma rb_insert_post: "llrb t \<Longrightarrow> \<exists>t'. rb_insert t nk na = Inr t' \<and> rb_post t t'"
proof (induction t nk na rule: rb_insert.induct)
  case (2 k a l r c nk na)
  show ?case
  proof (rule rb_flip_pre [OF "2.prems"])
    fix l1 r1 c1
    assume f: "(if is_red l \<and> is_red r then color_flip (RBNode k a l r c) else Inr (RBNode k a l r c))
        = Inr (RBNode k a l1 r1 c1)"
      and p: "llrb l1" "llrb r1" "rb_black_height l1 = rb_black_height r1" "\<not> is_red r1"
      "rb_black_height (RBNode k a l1 r1 c1) = rb_black_height (RBNode k a l r c)"
      "c1 \<Longrightarrow> \<not> is_red l1" "c \<Longrightarrow> c1"
      "c1 \<Longrightarrow> \<not> c \<Longrightarrow> is_red l \<and> l1 \<noteq> RBNil \<and> r1 \<noteq> RBNil \<and> \<not> is_red (rb_left l1) \<and> \<not> is_red (rb_left r1)"
    show ?thesis
    proof (cases "nk < k")
      case True
      from "2.IH"(1) [OF f refl True p(1)] obtain l2 where l2: "rb_insert l1 nk na = Inr l2"
        "rb_post l1 l2" by blast
      have "c1 \<Longrightarrow> \<not> c \<Longrightarrow> \<not> is_red l2" using l2(2) p(6,8) by (auto simp: rb_post_def)
      with rb_fix_left [OF p(2,4,3,1,6) l2(2), of c1 k a] True f l2(1) p(5,7,8)
      show ?thesis by (auto simp: rb_post_def)
    next
      case False
      from "2.IH"(2) [OF f refl False p(2)] obtain r2 where r2: "rb_insert r1 nk na = Inr r2"
        "rb_post r1 r2" by blast
      have "c1 \<Longrightarrow> \<not> c \<Longrightarrow> \<not> is_red r2" using r2(2) p(4,8) by (auto simp: rb_post_def)
      with rb_fix_right [OF p(2,4,3,1,6) r2(2), of c1 k a] False f r2(1) p(5,7,8)
      show ?thesis by (auto simp: rb_post_def)
    qed
  qed
qed (simp add: rb_post_def)

text \<open>The colour of the root only colours the root.\<close>

definition paint_eq :: "'a rbtree result \<Rightarrow> 'a rbtree result \<Rightarrow> bool" where
  "paint_eq x y \<longleftrightarrow> map_sum id (rb_paint False) x = map_sum id (rb_paint False) y"

lemma paint_eq_refl: "paint_eq x x"
  by (simp add: paint_eq_def)

lemma rb_fix_paint:
  "paint_eq (andthen (rb_lean (RBNode k a l r c)) rb_balance) (andthen (rb_lean (RBNode k a l r d)) rb_balance)"
  by (cases r; cases l) (auto simp: paint_eq_def rb_lean_def rb_balance_def)

lemma rb_insert_paint:
  "paint_eq (rb_insert (RBNode k a l r c) nk na) (rb_insert (RBNode k a l r d) nk na)"
proof -
  define f where "f = (\<lambda>l r c. andthen
      (if nk < k then andthen (rb_insert l nk na) (\<lambda>l. Inr (RBNode k a l r c))
       else andthen (rb_insert r nk na) (\<lambda>r. Inr (RBNode k a l r c)))
      (\<lambda>t. andthen (rb_lean t) rb_balance))"
  have e: "rb_insert (RBNode k a l r c) nk na =
    (if is_red l \<and> is_red r then f (flip l) (flip r) (\<not> c) else f l r c)" for c
    by (cases l; cases r) (simp_all add: f_def)
  have "paint_eq (f l r c) (f l r d)" for l r c d
    by (cases "rb_insert l nk na"; cases "rb_insert r nk na")
      (simp_all add: f_def rb_fix_paint paint_eq_refl)
  then show ?thesis unfolding e by simp
qed

lemma rb_insert_ok:
  assumes "rb_ok t"
  shows "\<exists>t'. rb_insert t nk na = Inr t' \<and> rb_ok t'"
proof (cases t)
  case (RBNode k a l r c)
  obtain t1 where t1: "rb_insert (RBNode k a l r False) nk na = Inr t1"
      "rb_post (RBNode k a l r False) t1"
    using rb_insert_post [of "RBNode k a l r False" nk na] assms RBNode by (auto simp: rb_ok_def)
  with rb_insert_paint [of k a l r c nk na False] RBNode show ?thesis
    by (cases "rb_insert t nk na") (auto simp: paint_eq_def rb_ok_def rb_post_def)
qed (simp add: rb_ok_def)

text \<open>A balanced tree is shallow.\<close>

fun rb_height :: "'a rbtree \<Rightarrow> nat" where
  "rb_height RBNil = 0"
| "rb_height (RBNode k a l r c) = Suc (max (rb_height l) (rb_height r))"

lemma llrb_height: "llrb t \<Longrightarrow> rb_height t \<le> 2 * rb_black_height t + (if is_red t then 1 else 0)"
  by (induction t) (auto split: if_splits)

lemma llrb_size: "llrb t \<Longrightarrow> 2 ^ rb_black_height t \<le> Suc (length (rb_inorder t))"
  by (induction t) auto

lemma rb_ok_height:
  assumes "rb_ok t"
  shows "2 ^ ((rb_height t) div 2) \<le> Suc (length (rb_inorder t))"
proof -
  let ?t = "rb_paint False t"
  have e: "rb_height ?t = rb_height t" "rb_inorder ?t = rb_inorder t" "\<not> is_red ?t" by (cases t; simp)+
  have "rb_height t div 2 \<le> rb_black_height ?t"
    using llrb_height [of ?t] assms e by (simp add: rb_ok_def)
  then have "(2::nat) ^ (rb_height t div 2) \<le> 2 ^ rb_black_height ?t" by simp
  also have "\<dots> \<le> Suc (length (rb_inorder t))" using llrb_size [of ?t] assms e by (simp add: rb_ok_def)
  finally show ?thesis .
qed

section \<open>Search\<close>

definition at_or_below :: "(u64 \<times> 'a) list \<Rightarrow> u64 \<Rightarrow> (u64 \<times> 'a) option \<Rightarrow> bool" where
  "at_or_below xs k r \<longleftrightarrow>
     (case r of
        None \<Rightarrow> \<forall>x \<in> set xs. k < fst x
      | Some x \<Rightarrow> x \<in> set xs \<and> fst x \<le> k \<and> (\<forall>y \<in> set xs. fst y \<le> k \<longrightarrow> fst y \<le> fst x))"

lemma at_or_below_above:
  "\<forall>y \<in> set ys. k < fst y \<Longrightarrow> at_or_below xs k (Some x) \<Longrightarrow> at_or_below (xs @ ys) k (Some x)"
  by (auto simp: at_or_below_def dest: leD)

lemma rb_loop_found:
  "rb_sorted t \<Longrightarrow>
   (if \<exists>y \<in> set (rb_inorder t). fst y \<le> k then \<exists>x. rb_loop t k best = Some x \<and> at_or_below (rb_inorder t) k (Some x)
    else rb_loop t k best = best)"
proof (induction t k best rule: rb_loop.induct)
  case (2 k' a l r c k best)
  have s: "rb_sorted l" "rb_sorted r" "\<forall>x \<in> set (rb_inorder l). fst x \<le> k'"
    "\<forall>x \<in> set (rb_inorder r). k' \<le> fst x"
    using "2.prems" by (auto simp: rb_sorted_def sorted_append)
  consider "k' = k" | "k' \<noteq> k" "k < k'" | "k' \<noteq> k" "k' < k" by fastforce
  then show ?case
  proof cases
    case 1
    then show ?thesis by (auto simp: at_or_below_def)
  next
    case 2
    let ?xs = "rb_inorder l" and ?ys = "(k', a) # rb_inorder r"
    have g: "\<forall>y \<in> set ?ys. k < fst y" using 2(2) s(4) by (auto intro: less_le_trans)
    then have ex: "(\<exists>y \<in> set (?xs @ ?ys). fst y \<le> k) \<longleftrightarrow> (\<exists>y \<in> set ?xs. fst y \<le> k)"
      by (auto dest: leD)
    have e: "rb_loop (RBNode k' a l r c) k best = rb_loop l k best" using 2 by simp
    show ?thesis using "2.IH"(1) [OF 2 s(1)] at_or_below_above [OF g]
      unfolding rb_inorder.simps ex e by (auto split: if_splits)
  next
    case 3
    let ?xs = "rb_inorder l @ [(k', a)]" and ?ys = "rb_inorder r"
    have nl: "\<not> k < k'" using 3(2) by simp
    have e: "rb_loop (RBNode k' a l r c) k best = rb_loop r k (Some (k', a))" using 3 nl by simp
    have g: "\<forall>y \<in> set ?xs. fst y \<le> k'" using s(3) by auto
    have k': "fst (k', a) \<le> k" using 3(2) by simp
    have a: "\<exists>x. rb_loop r k (Some (k', a)) = Some x \<and> at_or_below (?xs @ ?ys) k (Some x)"
    proof (cases "\<exists>y \<in> set ?ys. fst y \<le> k")
      case True
      then obtain x where x: "rb_loop r k (Some (k', a)) = Some x" "at_or_below ?ys k (Some x)"
        using "2.IH"(2) [OF 3(1) nl s(2)] by auto
      then have "k' \<le> fst x" using s(4) by (simp add: at_or_below_def)
      with g x show ?thesis by (force simp: at_or_below_def)
    next
      case False
      then have "rb_loop r k (Some (k', a)) = Some (k', a)" using "2.IH"(2) [OF 3(1) nl s(2)] by simp
      with False g k' show ?thesis by (auto simp: at_or_below_def)
    qed
    have "\<exists>y \<in> set (rb_inorder (RBNode k' a l r c)). fst y \<le> k"
      using k' by (intro bexI [of _ "(k', a)"]) auto
    then show ?thesis using a unfolding e by simp
  qed
qed simp

lemma rb_search_found: "rb_sorted t \<Longrightarrow> at_or_below (rb_inorder t) k (rb_search t k)"
  using rb_loop_found [of t k None] by (auto simp: rb_search_def at_or_below_def not_le split: if_splits)

section \<open>The ordered map\<close>

text \<open>What the users of the tree see: a sorted sequence of entries, extended and searched.\<close>

locale address_map =
  fixes entries :: "'t \<Rightarrow> (u64 \<times> 'a) list" and ok :: "'t \<Rightarrow> bool" and new :: 't
    and ins :: "'t \<Rightarrow> u64 \<times> 'a \<Rightarrow> 't result" and search :: "'t \<Rightarrow> u64 \<Rightarrow> (u64 \<times> 'a) option"
  assumes new_ok: "ok new" and entries_new: "entries new = []"
    and ins_ok: "ok t \<Longrightarrow> \<exists>t'. ins t x = Inr t' \<and> ok t' \<and> set (entries t') = insert x (set (entries t))"
    and search_ok: "ok t \<Longrightarrow> at_or_below (entries t) k (search t k)"
begin

lemma all_ins: "ok t \<Longrightarrow> \<exists>t'. steps ins t xs = Inr t' \<and> ok t' \<and> set (entries t') = set xs \<union> set (entries t)"
proof (induction xs arbitrary: t)
  case (Cons x xs)
  from ins_ok [OF Cons.prems, of x] obtain t1 where "ins t x = Inr t1" "ok t1"
    "set (entries t1) = insert x (set (entries t))" by blast
  with Cons.IH [of t1] show ?case by auto
qed simp

lemma build_search: "\<exists>t. steps ins new xs = Inr t \<and> ok t \<and> at_or_below xs k (search t k)"
proof -
  from all_ins [OF new_ok, of xs] obtain t where t: "steps ins new xs = Inr t" "ok t"
    "set (entries t) = set xs" by (auto simp: entries_new)
  with search_ok [of t k] show ?thesis by (auto simp: at_or_below_def split: option.splits)
qed

end

definition rb_valid :: "'a rbtree \<Rightarrow> bool" where
  "rb_valid t \<longleftrightarrow> rb_ok t \<and> rb_sorted t"

definition rb_add :: "'a rbtree \<Rightarrow> u64 \<times> 'a \<Rightarrow> 'a rbtree result" where
  "rb_add t x = rb_insert t (fst x) (snd x)"

interpretation rb_map: address_map rb_inorder rb_valid RBNil rb_add rb_search
proof
  fix t :: "'a rbtree" and x k
  show "rb_valid (RBNil :: 'a rbtree)" by (simp add: rb_valid_def rb_ok_def rb_sorted_def)
  show "rb_inorder (RBNil :: 'a rbtree) = []" by simp
  assume t: "rb_valid t"
  then obtain t' where "rb_insert t (fst x) (snd x) = Inr t'" "rb_ok t'"
    using rb_insert_ok [of t "fst x" "snd x"] by (auto simp: rb_valid_def)
  with t inorder_insert [of t "fst x" "snd x" t']
  show "\<exists>t'. rb_add t x = Inr t' \<and> rb_valid t' \<and> set (rb_inorder t') = insert x (set (rb_inorder t))"
    by (auto simp: rb_valid_def rb_add_def rb_sorted_def sorted_seq_insert)
  show "at_or_below (rb_inorder t) k (rb_search t k)"
    using t by (simp add: rb_valid_def rb_search_found)
qed

section \<open>Properties\<close>

text \<open>
  C21. Insertion into a balanced tree succeeds (no null pointer is followed), the result is balanced
  again, its entries are the old sequence with the new one inserted after those of its key, and a
  path through it is at most twice the logarithm of the number of entries long.
\<close>

theorem rb_insert_correct:
  assumes "rb_ok t" and "rb_sorted t"
  shows "\<exists>t'. rb_insert t nk na = Inr t' \<and> rb_ok t' \<and> rb_sorted t' \<and>
    rb_inorder t' = seq_insert nk na (rb_inorder t) \<and>
    2 ^ (rb_height t' div 2) \<le> Suc (length (rb_inorder t'))"
proof -
  from rb_insert_ok [OF assms(1)] obtain t' where t': "rb_insert t nk na = Inr t'" "rb_ok t'" by blast
  note inorder_insert [OF assms(2) t'(1)]
  with t' rb_ok_height [OF t'(2)] assms(2) show ?thesis by (simp add: rb_sorted_def sorted_seq_insert)
qed

theorem rb_insert_correct_witness:
  "\<exists>t'. rb_insert (RBNode 5 ''a'' (RBNode 3 ''b'' RBNil RBNil True) RBNil False) 9 ''c'' = Inr t' \<and>
    rb_inorder t' = [(3, ''b''), (5, ''a''), (9, ''c'')]"
  using rb_insert_correct [of "RBNode 5 ''a'' (RBNode 3 ''b'' RBNil RBNil True) RBNil False" 9 "''c''"]
  by (auto simp: rb_ok_def rb_sorted_def)

text \<open>
  C20. A tree built by any sequence of insertions from the empty tree answers every search with an
  entry of the greatest key not above the one asked for, and with the null pointer exactly when
  every key is above it.
\<close>

theorem rb_build_search:
  "\<exists>t. steps rb_add RBNil xs = Inr t \<and> at_or_below xs k (rb_search t k)"
  using rb_map.build_search [of xs k] by blast

end
