(* ===== verification/NasmString.thy ===== *)
theory NasmString
  imports Prelude "HOL-Library.List_Lexorder"
begin

text \<open>
  The string utilities of \<open>nasmlib/string.c\<close> and the binary searches of \<open>nasmlib/bsi.c\<close>: the
  case-insensitive comparisons, the word splitter the option parsers use, and look-up in a
  sorted array of names. The locale \<open>string_order\<close> is what a comparison function promises.
\<close>

section \<open>Characters\<close>

text \<open>The classes of \<open>ctype.h\<close> in the C locale.\<close>

definition isupper :: "u8 \<Rightarrow> bool" where "isupper c \<longleftrightarrow> 0x41 \<le> c \<and> c \<le> 0x5A"
definition islower :: "u8 \<Rightarrow> bool" where "islower c \<longleftrightarrow> 0x61 \<le> c \<and> c \<le> 0x7A"
definition isdigit :: "u8 \<Rightarrow> bool" where "isdigit c \<longleftrightarrow> 0x30 \<le> c \<and> c \<le> 0x39"
definition isspace :: "u8 \<Rightarrow> bool" where "isspace c \<longleftrightarrow> c = 0x20 \<or> 0x09 \<le> c \<and> c \<le> 0x0D"
definition isalpha :: "u8 \<Rightarrow> bool" where "isalpha c \<longleftrightarrow> isupper c \<or> islower c"
definition isalnum :: "u8 \<Rightarrow> bool" where "isalnum c \<longleftrightarrow> isalpha c \<or> isdigit c"
definition tolower :: "u8 \<Rightarrow> u8" where "tolower c = (if isupper c then c + 0x20 else c)"

text \<open>\<open>tolower_init\<close> tabulates \<open>tolower\<close>; \<open>nasm_tolower\<close> reads the table.\<close>

definition nasm_tolower_tab :: "u8 list" where
  "nasm_tolower_tab = map (\<lambda>i. tolower (word_of_nat i)) [0..<256]"

definition nasm_tolower :: "u8 \<Rightarrow> u8" where
  "nasm_tolower c = nasm_tolower_tab ! unat c"

lemma nasm_tolower_eq: "nasm_tolower c = tolower c"
proof -
  have "unat c < 2 ^ LENGTH(8)" by (rule unsigned_less)
  then show ?thesis by (simp add: nasm_tolower_def nasm_tolower_tab_def)
qed

lemma nasm_tolower_0 [simp]: "nasm_tolower c = 0 \<longleftrightarrow> c = 0"
proof -
  have "c + 0x20 \<noteq> 0" if "isupper c"
  proof
    assume "c + 0x20 = 0"
    then have "c = - 0x20" by (simp add: eq_neg_iff_add_eq_0)
    with that show False by (simp add: isupper_def)
  qed
  then show ?thesis by (auto simp: nasm_tolower_eq tolower_def isupper_def)
qed

section \<open>Comparison\<close>

text \<open>\<open>strcmp\<close> of the C library, and the case-insensitive versions.\<close>

function strcmp :: "bytes \<Rightarrow> bytes \<Rightarrow> int" where
  "strcmp s1 s2 =
     (let c1 = cchar s1 0; c2 = cchar s2 0; d = uint c1 - uint c2
      in if d \<noteq> 0 then d else if c1 = 0 then 0 else strcmp (tl s1) (tl s2))"
  by pat_completeness auto
termination by (relation "measure (\<lambda>(s1, s2). length s1)") (auto simp: cchar_def split: if_splits)

function nasm_stricmp :: "bytes \<Rightarrow> bytes \<Rightarrow> int" where
  "nasm_stricmp s1 s2 =
     (let c1 = nasm_tolower (cchar s1 0); c2 = nasm_tolower (cchar s2 0); d = uint c1 - uint c2
      in if d \<noteq> 0 then d else if c1 = 0 then 0 else nasm_stricmp (tl s1) (tl s2))"
  by pat_completeness auto
termination by (relation "measure (\<lambda>(s1, s2). length s1)") (auto simp: cchar_def split: if_splits)

fun nasm_strnicmp :: "bytes \<Rightarrow> bytes \<Rightarrow> nat \<Rightarrow> int" where
  "nasm_strnicmp s1 s2 0 = 0"
| "nasm_strnicmp s1 s2 (Suc n) =
     (let c1 = nasm_tolower (cchar s1 0); c2 = nasm_tolower (cchar s2 0); d = uint c1 - uint c2
      in if d \<noteq> 0 then d else if c1 = 0 then 0 else nasm_strnicmp (tl s1) (tl s2) n)"

text \<open>\<open>nasm_memicmp\<close> compares buffers of \<open>n\<close> bytes, null bytes included.\<close>

fun nasm_memicmp :: "bytes \<Rightarrow> bytes \<Rightarrow> nat \<Rightarrow> int result" where
  "nasm_memicmp s1 s2 0 = Inr 0"
| "nasm_memicmp s1 s2 (Suc n) =
     (case (s1, s2) of
        (a # s1', b # s2') \<Rightarrow>
          let d = uint (nasm_tolower a) - uint (nasm_tolower b)
          in if d \<noteq> 0 then Inr d else nasm_memicmp s1' s2' n
      | _ \<Rightarrow> Inl OutOfBounds)"

declare strcmp.simps [simp del] nasm_stricmp.simps [simp del]

text \<open>What a comparison promises: the order of the strings under a normal form.\<close>

locale string_order =
  fixes cmp :: "bytes \<Rightarrow> bytes \<Rightarrow> int" and norm :: "bytes \<Rightarrow> bytes"
  assumes cmp_eq: "cstring s \<Longrightarrow> cstring t \<Longrightarrow> cmp s t = 0 \<longleftrightarrow> norm s = norm t"
    and cmp_less: "cstring s \<Longrightarrow> cstring t \<Longrightarrow> cmp s t < 0 \<longleftrightarrow> norm s < norm t"
begin

lemma cmp_le: "cstring s \<Longrightarrow> cstring t \<Longrightarrow> cmp s t \<le> 0 \<longleftrightarrow> norm s \<le> norm t"
  by (simp add: cmp_eq cmp_less order_le_less)

lemma cmp_greater: "cstring s \<Longrightarrow> cstring t \<Longrightarrow> 0 < cmp s t \<longleftrightarrow> norm t < norm s"
  using cmp_le [of s t] by (simp add: not_le [symmetric])

lemma cmp_sym: "cstring s \<Longrightarrow> cstring t \<Longrightarrow> cmp s t = 0 \<longleftrightarrow> cmp t s = 0"
  by (auto simp: cmp_eq)

lemma cmp_trans:
  "cstring s \<Longrightarrow> cstring t \<Longrightarrow> cstring u \<Longrightarrow> cmp s t \<le> 0 \<Longrightarrow> cmp t u \<le> 0 \<Longrightarrow> cmp s u \<le> 0"
  by (simp add: cmp_le)

end

lemma compare_norm:
  assumes f: "\<And>c. f c = 0 \<longleftrightarrow> c = 0"
    and cmp: "\<And>s t. cmp s t = (let c1 = f (cchar s 0); c2 = f (cchar t 0); d = uint c1 - uint c2
        in if d \<noteq> 0 then d else if c1 = 0 then 0 else cmp (tl s) (tl t) :: int)"
  shows "cstring s \<Longrightarrow> cstring t \<Longrightarrow>
    (cmp s t = 0 \<longleftrightarrow> map f s = map f t) \<and> (cmp s t < 0 \<longleftrightarrow> map f s < map f t)"
proof (induction s arbitrary: t)
  case Nil
  have f0: "f 0 = 0" using f by simp
  show ?case
  proof (cases t)
    case Nil
    then show ?thesis using f0 by (subst (1 2) cmp) (simp add: cchar_def)
  next
    case (Cons b t')
    then have "uint (f b) \<noteq> 0" using Nil.prems f [of b] word_uint_eq_iff [of "f b" 0]
      by (auto simp: cstring_def)
    then show ?thesis using Cons f0
      by (subst (1 2) cmp) (simp add: cchar_def Let_def unsigned_greater_eq order_less_le)
  qed
next
  case (Cons a s)
  have f0: "f 0 = 0" "f a \<noteq> 0" using f Cons.prems by (auto simp: cstring_def)
  show ?case
  proof (cases t)
    case Nil
    moreover have "uint (f a) \<noteq> 0" using f0 word_uint_eq_iff [of "f a" 0] by auto
    ultimately show ?thesis using f0 by (subst (1 2) cmp) (simp add: Let_def cchar_def)
  next
    case (Cons b t')
    then have ih: "(cmp s t' = 0 \<longleftrightarrow> map f s = map f t') \<and> (cmp s t' < 0 \<longleftrightarrow> map f s < map f t')"
      using Cons.IH Cons.prems by (simp add: cstring_def)
    have "cmp (a # s) (b # t') = (if f a \<noteq> f b then uint (f a) - uint (f b) else cmp s t')"
      using f0 by (subst cmp) (simp add: Let_def cchar_def word_uint_eq_iff)
    with ih Cons show ?thesis
      by (cases "f a = f b") (simp_all add: word_less_def word_uint_eq_iff)
  qed
qed

interpretation exact: string_order strcmp "\<lambda>s. s"
  using compare_norm [of "\<lambda>c. c" strcmp] strcmp.simps by unfold_locales auto

interpretation nocase: string_order nasm_stricmp "map nasm_tolower"
  using compare_norm [of nasm_tolower nasm_stricmp] nasm_stricmp.simps by unfold_locales auto

section \<open>Words in a buffer\<close>

text \<open>
  The splitters write null bytes into the caller's string, so they work on a buffer: its bytes,
  terminator included, and positions in it. Reading past the buffer is a fault.
\<close>

function skip_loop :: "(u8 \<Rightarrow> bool) \<Rightarrow> bytes \<Rightarrow> nat \<Rightarrow> nat result" where
  "skip_loop P buf p =
     guard (p < length buf) OutOfBounds
       (if buf ! p \<noteq> 0 \<and> P (buf ! p) then skip_loop P buf (p + 1) else Inr p)"
  by pat_completeness auto
termination by (relation "measure (\<lambda>(P, buf, p). length buf - p)") auto

function zap_fwd_loop :: "bytes \<Rightarrow> nat \<Rightarrow> (nat \<times> bytes) result" where
  "zap_fwd_loop buf p =
     guard (p < length buf) OutOfBounds
       (if buf ! p \<noteq> 0 \<and> isspace (buf ! p) then zap_fwd_loop (buf[p := 0]) (p + 1) else Inr (p, buf))"
  by pat_completeness auto
termination by (relation "measure (\<lambda>(buf, p). length buf - p)") auto

fun zap_rev_loop :: "bytes \<Rightarrow> nat \<Rightarrow> (nat \<times> bytes) result" where
  "zap_rev_loop buf p =
     guard (p < length buf) OutOfBounds
       (if buf ! p \<noteq> 0 \<and> isspace (buf ! p)
        then (case p of 0 \<Rightarrow> Inl OutOfBounds | Suc q \<Rightarrow> zap_rev_loop (buf[p := 0]) q)
        else Inr (p, buf))"

declare skip_loop.simps [simp del] zap_fwd_loop.simps [simp del] zap_rev_loop.simps [simp del]

definition nasm_skip_spaces :: "bytes \<Rightarrow> nat option \<Rightarrow> nat option result" where
  "nasm_skip_spaces buf p =
     (case p of None \<Rightarrow> Inr None | Some p \<Rightarrow> andthen (skip_loop isspace buf p) (\<lambda>q. Inr (Some q)))"

definition nasm_skip_word :: "bytes \<Rightarrow> nat option \<Rightarrow> nat option result" where
  "nasm_skip_word buf p =
     (case p of None \<Rightarrow> Inr None
      | Some p \<Rightarrow> andthen (skip_loop (\<lambda>c. \<not> isspace c) buf p) (\<lambda>q. Inr (Some q)))"

definition nasm_zap_spaces_fwd :: "bytes \<Rightarrow> nat option \<Rightarrow> (nat option \<times> bytes) result" where
  "nasm_zap_spaces_fwd buf p =
     (case p of None \<Rightarrow> Inr (None, buf)
      | Some p \<Rightarrow> andthen (zap_fwd_loop buf p) (\<lambda>(q, buf). Inr (Some q, buf)))"

definition nasm_zap_spaces_rev :: "bytes \<Rightarrow> nat option \<Rightarrow> (nat option \<times> bytes) result" where
  "nasm_zap_spaces_rev buf p =
     (case p of None \<Rightarrow> Inr (None, buf)
      | Some p \<Rightarrow> andthen (zap_rev_loop buf p) (\<lambda>(q, buf). Inr (Some q, buf)))"

definition nasm_trim_spaces :: "bytes \<Rightarrow> nat option \<Rightarrow> (nat option \<times> bytes) result" where
  "nasm_trim_spaces buf p =
     andthen (nasm_zap_spaces_fwd buf p) (\<lambda>(p, buf).
     andthen (nasm_skip_word buf p) (\<lambda>w.
     andthen (nasm_zap_spaces_fwd buf w) (\<lambda>(_, buf). Inr (p, buf))))"

text \<open>The word, the tail and the buffer.\<close>

definition nasm_get_word :: "bytes \<Rightarrow> nat option \<Rightarrow> (nat option \<times> nat option \<times> bytes) result" where
  "nasm_get_word buf p =
     andthen (nasm_skip_spaces buf p) (\<lambda>word.
     andthen (nasm_skip_word buf word) (\<lambda>next.
       case (word, next) of
         (Some w, Some n) \<Rightarrow>
           guard (w < length buf \<and> n < length buf) OutOfBounds
           (if buf ! w \<noteq> 0
            then (if buf ! n \<noteq> 0 then Inr (Some w, Some (n + 1), buf[n := 0])
                  else Inr (Some w, Some n, buf))
            else Inr (None, None, buf))
       | _ \<Rightarrow> Inr (None, None, buf)))"

text \<open>\<open>strchr\<close> for a character that is not null.\<close>

definition strchr_at :: "bytes \<Rightarrow> nat \<Rightarrow> u8 \<Rightarrow> nat option result" where
  "strchr_at buf p c =
     andthen (skip_loop (\<lambda>x. x \<noteq> c) buf p) (\<lambda>q. Inr (if buf ! q = c then Some q else None))"

text \<open>The option name, its value, the rest and the buffer.\<close>

definition nasm_opt_val :: "bytes \<Rightarrow> nat option \<Rightarrow> (nat option \<times> nat option \<times> nat option \<times> bytes) result" where
  "nasm_opt_val buf p =
     andthen (nasm_get_word buf p) (\<lambda>(p, nxt, buf).
       case p of
         None \<Rightarrow> Inr (None, None, None, buf)
       | Some p \<Rightarrow>
           andthen (strchr_at buf p 0x3D) (\<lambda>q.
             case q of
               Some q \<Rightarrow>
                 let name = (if q = p then None else Some p);
                     buf = buf[q := 0]; q = q + 1
                 in guard (q < length buf) OutOfBounds
                    (if buf ! q \<noteq> 0 then Inr (name, Some q, nxt, buf)
                     else andthen (nasm_get_word buf (Some (q + 1))) (\<lambda>(q, nxt, buf).
                            Inr (name, q, nxt, buf)))
             | None \<Rightarrow>
                 andthen (nasm_skip_spaces buf nxt) (\<lambda>q.
                   case q of
                     Some q \<Rightarrow>
                       guard (q < length buf) OutOfBounds
                       (if buf ! q = 0x3D
                        then andthen (nasm_get_word buf (Some (q + 1))) (\<lambda>(q, nxt, buf).
                               Inr (Some p, q, nxt, buf))
                        else Inr (Some p, None, nxt, buf))
                   | None \<Rightarrow> Inr (Some p, None, nxt, buf))))"

section \<open>Binary search\<close>

text \<open>
  The loop of \<open>bsi\<close> and \<open>bsii\<close>, which differ in the comparison. The indices are \<open>int\<close>s whose sum
  stays within \<open>2 * size\<close>: no overflow for arrays below \<open>2 ^ 30\<close> names.
\<close>

lemma sdiv_between: "2 \<le> j - i \<Longrightarrow> i < (i + j) sdiv 2 \<and> (i + j) sdiv 2 < (j :: int)"
proof -
  assume "2 \<le> j - i"
  moreover have "(i + j) sdiv 2 = (if 0 \<le> i + j then (i + j) div 2 else - (- (i + j) div 2))"
    by (auto simp: signed_divide_int_def sgn_if)
  ultimately show ?thesis by presburger
qed

function bs_loop :: "(bytes \<Rightarrow> bytes \<Rightarrow> int) \<Rightarrow> bytes \<Rightarrow> bytes list \<Rightarrow> int \<Rightarrow> int \<Rightarrow> int result" where
  "bs_loop cmp str array i j =
     (if 2 \<le> j - i
      then let k = (i + j) sdiv 2
           in guard (0 \<le> k \<and> nat k < length array) OutOfBounds
              (let l = cmp str (array ! nat k)
               in if l < 0 then bs_loop cmp str array i k
                  else if 0 < l then bs_loop cmp str array k j
                  else Inr k)
      else Inr (-1))"
  by pat_completeness auto
termination
  by (relation "measure (\<lambda>(cmp, str, array, i, j). nat (j - i))") (auto dest: sdiv_between)

declare bs_loop.simps [simp del]

definition bsi :: "bytes \<Rightarrow> bytes list \<Rightarrow> int \<Rightarrow> int result" where
  "bsi str array sz = bs_loop strcmp str array (-1) sz"

definition bsii :: "bytes \<Rightarrow> bytes list \<Rightarrow> int \<Rightarrow> int result" where
  "bsii str array sz = bs_loop nasm_stricmp str array (-1) sz"

text \<open>What the tables must satisfy, and the answer.\<close>

definition bs_table :: "(bytes \<Rightarrow> bytes) \<Rightarrow> bytes list \<Rightarrow> bool" where
  "bs_table norm array \<longleftrightarrow> sorted_wrt (\<lambda>s t. norm s < norm t) array \<and> (\<forall>s \<in> set array. cstring s)"

definition bs_found :: "(bytes \<Rightarrow> bytes) \<Rightarrow> bytes \<Rightarrow> bytes list \<Rightarrow> int \<Rightarrow> bool" where
  "bs_found norm str array r \<longleftrightarrow>
     (if norm str \<in> set (map norm array)
      then 0 \<le> r \<and> nat r < length array \<and> norm (array ! nat r) = norm str else r = -1)"

context string_order
begin

lemma bs_loop_ok:
  assumes s: "sorted_wrt (\<lambda>s t. norm s < norm t) array" "\<forall>s \<in> set array. cstring s" "cstring str"
    and "-1 \<le> i" "i < j" "j \<le> int (length array)"
    and "\<forall>k < length array. int k \<le> i \<longrightarrow> norm (array ! k) < norm str"
    and "\<forall>k < length array. j \<le> int k \<longrightarrow> norm str < norm (array ! k)"
  shows "\<exists>r. bs_loop cmp str array i j = Inr r \<and>
    (if \<exists>k < length array. norm (array ! k) = norm str
     then 0 \<le> r \<and> nat r < length array \<and> norm (array ! nat r) = norm str else r = -1)"
  using assms(4-)
proof (induction "nat (j - i)" arbitrary: i j rule: less_induct)
  case less
  show ?case
  proof (cases "2 \<le> j - i")
    case False
    with less.prems have "int k \<le> i \<or> j \<le> int k" for k by linarith
    then have "\<not> (\<exists>k < length array. norm (array ! k) = norm str)" using less.prems(4,5)
      by (metis less_irrefl)
    with False show ?thesis by (simp add: bs_loop.simps)
  next
    case True
    define k where "k = (i + j) sdiv 2"
    have k: "i < k" "k < j" using sdiv_between [OF True] by (simp_all add: k_def)
    with less.prems(1) have "0 \<le> k" by linarith
    note k = k this
    then have kl: "nat k < length array" using less.prems(3) by linarith
    have ck: "cstring (array ! nat k)" using s(2) kl by simp
    have mono: "norm (array ! m) < norm (array ! n)" if "m < n" "n < length array" for m n
      using s(1) that by (simp add: sorted_wrt_iff_nth_less)
    have e: "bs_loop cmp str array i j =
      (let l = cmp str (array ! nat k) in if l < 0 then bs_loop cmp str array i k
         else if 0 < l then bs_loop cmp str array k j else Inr k)"
      using True k kl by (subst bs_loop.simps) (simp add: k_def [symmetric])
    consider "norm str < norm (array ! nat k)" | "norm (array ! nat k) < norm str"
      | "norm str = norm (array ! nat k)" by fastforce
    then show ?thesis
    proof cases
      case 1
      have "\<forall>m < length array. k \<le> int m \<longrightarrow> norm str < norm (array ! m)"
      proof (intro allI impI)
        fix m assume m: "m < length array" "k \<le> int m"
        then show "norm str < norm (array ! m)"
          using 1 mono [of "nat k" m] by (cases "nat k = m") (auto intro: less_trans)
      qed
      with less.hyps [of k i] less.prems k e cmp_less [OF s(3) ck] 1 show ?thesis by auto
    next
      case 2
      have "\<forall>m < length array. int m \<le> k \<longrightarrow> norm (array ! m) < norm str"
      proof (intro allI impI)
        fix m assume m: "m < length array" "int m \<le> k"
        then have "m = nat k \<or> m < nat k" by linarith
        then show "norm (array ! m) < norm str"
          using 2 mono [of m "nat k"] kl by (auto intro: less_trans)
      qed
      with less.hyps [of j k] less.prems k e cmp_greater [OF s(3) ck] 2 show ?thesis by auto
    next
      case 3
      then have "cmp str (array ! nat k) = 0" using cmp_eq [OF s(3) ck] by simp
      with 3 e k kl show ?thesis by auto
    qed
  qed
qed

lemma table_search:
  assumes "bs_table norm array" and "cstring str"
  shows "\<exists>r. bs_loop cmp str array (-1) (int (length array)) = Inr r \<and> bs_found norm str array r"
proof -
  have "norm str \<in> set (map norm array) \<longleftrightarrow> (\<exists>k < length array. norm (array ! k) = norm str)"
    by (auto simp: in_set_conv_nth image_iff Bex_def)
  then show ?thesis
    using bs_loop_ok [of array str "-1" "int (length array)"] assms by (simp add: bs_table_def bs_found_def)
qed

end

section \<open>Splitting\<close>

lemma skip_loop_run:
  "\<forall>x \<in> set xs. x \<noteq> 0 \<and> P x \<Longrightarrow> \<not> (c \<noteq> 0 \<and> P c) \<Longrightarrow>
   skip_loop P (pre @ xs @ c # post) (length pre) = Inr (length pre + length xs)"
proof (induction xs arbitrary: pre)
  case Nil
  then show ?case by (subst skip_loop.simps) (auto simp: nth_append)
next
  case (Cons x xs)
  from Cons.IH [of "pre @ [x]"] Cons.prems show ?case
    by (subst skip_loop.simps) (simp add: nth_append)
qed

lemma skip_loop_at:
  assumes "buf = pre @ xs @ c # post" and "p = length pre"
    and "\<forall>x \<in> set xs. x \<noteq> 0 \<and> P x" and "\<not> (c \<noteq> 0 \<and> P c)"
  shows "skip_loop P buf p = Inr (p + length xs)"
  using skip_loop_run [OF assms(3,4)] assms(1,2) by simp

lemma zap_fwd_run:
  "\<forall>x \<in> set xs. isspace x \<Longrightarrow> \<not> isspace c \<Longrightarrow>
   zap_fwd_loop (pre @ xs @ c # post) (length pre) =
     Inr (length pre + length xs, pre @ replicate (length xs) 0 @ c # post)"
proof (induction xs arbitrary: pre)
  case Nil
  then show ?case by (subst zap_fwd_loop.simps) (auto simp: nth_append)
next
  case (Cons x xs)
  have "isspace x \<Longrightarrow> x \<noteq> 0" by (auto simp: isspace_def)
  with Cons.IH [of "pre @ [0]"] Cons.prems show ?case
    by (subst zap_fwd_loop.simps) (simp add: nth_append list_update_append)
qed

definition word_chars :: "bytes \<Rightarrow> bool" where
  "word_chars w \<longleftrightarrow> (\<forall>x \<in> set w. x \<noteq> 0 \<and> \<not> isspace x)"

lemma get_word_run:
  assumes "\<forall>x \<in> set sp. isspace x" and "word_chars w" "w \<noteq> []" and "c = 0 \<or> isspace c"
  shows "nasm_get_word (pre @ sp @ w @ c # post) (Some (length pre)) =
    Inr (Some (length pre + length sp),
         Some (length pre + length sp + length w + (if c = 0 then 0 else 1)), pre @ sp @ w @ 0 # post)"
proof -
  obtain a w' where w: "w = a # w'" using assms(3) by (cases w) auto
  have sp: "\<forall>x \<in> set sp. x \<noteq> 0 \<and> isspace x" using assms(1) by (auto simp: isspace_def)
  have 1: "skip_loop isspace (pre @ sp @ w @ c # post) (length pre) = Inr (length pre + length sp)"
    using assms(2) by (intro skip_loop_at [OF _ _ sp, of _ _ a "w' @ c # post"]) (auto simp: w word_chars_def)
  have 2: "skip_loop (\<lambda>c. \<not> isspace c) (pre @ sp @ w @ c # post) (length pre + length sp)
      = Inr (length pre + length sp + length w)"
    using assms(2,4) by (intro skip_loop_at [of _ "pre @ sp" w c post]) (auto simp: word_chars_def)
  have "(pre @ sp @ w @ c # post) ! (length pre + length sp) = a" by (simp add: w nth_append)
  moreover have "(pre @ sp @ w @ c # post) ! (length pre + length sp + length w) = c"
    by (simp add: nth_append)
  moreover have "(pre @ sp @ w @ c # post)[length pre + length sp + length w := 0] = pre @ sp @ w @ 0 # post"
    by (simp add: list_update_append)
  moreover have "a \<noteq> 0" using assms(2) by (simp add: w word_chars_def)
  ultimately show ?thesis
    using 1 2 by (auto simp: nasm_get_word_def nasm_skip_spaces_def nasm_skip_word_def)
qed

section \<open>Properties\<close>

text \<open>
  The case-insensitive comparison is zero exactly on strings that agree up to case, and orders the
  strings by their lower-case forms.
\<close>

theorem nasm_stricmp_order:
  assumes "cstring s" and "cstring t"
  shows "(nasm_stricmp s t = 0 \<longleftrightarrow> map tolower s = map tolower t) \<and>
    (nasm_stricmp s t < 0 \<longleftrightarrow> map tolower s < map tolower t)"
proof -
  have "nasm_tolower = tolower" by (rule ext) (rule nasm_tolower_eq)
  then show ?thesis using nocase.cmp_eq [OF assms] nocase.cmp_less [OF assms] by simp
qed

theorem nasm_stricmp_order_witness:
  "nasm_stricmp [0x41, 0x62] [0x61, 0x42] = 0 \<and> nasm_stricmp [0x41, 0x62] [0x61, 0x43] < 0"
  using nasm_stricmp_order [of "[0x41, 0x62]" "[0x61, 0x42]"]
    nasm_stricmp_order [of "[0x41, 0x62]" "[0x61, 0x43]"]
  by (simp add: cstring_def tolower_def isupper_def)



text \<open>
  \<open>nasm_get_word\<close> returns the next word: it skips the spaces, points at the first character of the
  word, terminates it in place, and points the tail behind the space it overwrote or at the
  terminator; on a text of spaces only it returns no word.
\<close>

theorem nasm_get_word_correct:
  assumes "\<forall>x \<in> set sp. isspace x" and "word_chars w" and "c = 0 \<or> isspace c" and "w = [] \<longrightarrow> c = 0"
  shows "nasm_get_word (pre @ sp @ w @ c # post) (Some (length pre)) =
    (if w = [] then Inr (None, None, pre @ sp @ w @ c # post)
     else Inr (Some (length pre + length sp),
       Some (length pre + length sp + length w + (if c = 0 then 0 else 1)), pre @ sp @ w @ 0 # post))"
proof (cases "w = []")
  case True
  with assms have c: "c = 0" by simp
  have sp: "\<forall>x \<in> set sp. x \<noteq> 0 \<and> isspace x" using assms(1) by (auto simp: isspace_def)
  have "skip_loop isspace (pre @ sp @ c # post) (length pre) = Inr (length pre + length sp)"
    using c by (intro skip_loop_at [OF _ _ sp]) auto
  moreover have "skip_loop (\<lambda>c. \<not> isspace c) (pre @ sp @ c # post) (length pre + length sp)
      = Inr (length pre + length sp)"
    using c by (subst skip_loop_at [of _ "pre @ sp" "[]" c post]) auto
  ultimately show ?thesis using True c
    by (simp add: nasm_get_word_def nasm_skip_spaces_def nasm_skip_word_def nth_append)
next
  case False
  with get_word_run [OF assms(1,2) False assms(3)] show ?thesis by simp
qed

theorem nasm_get_word_correct_witness:
  "nasm_get_word [0x20, 0x61, 0x62, 0x20, 0x63, 0] (Some 0) =
    Inr (Some 1, Some 4, [0x20, 0x61, 0x62, 0, 0x63, 0])"
  using nasm_get_word_correct [of "[0x20]" "[0x61, 0x62]" "0x20" "[]" "[0x63, 0]"]
  by (simp add: isspace_def word_chars_def)

text \<open>
  \<open>nasm_trim_spaces\<close> keeps only the first word: when a text follows the spaces behind it, the
  first of these spaces becomes the terminator.
\<close>

theorem nasm_trim_spaces_first_word:
  assumes "\<forall>x \<in> set sp. isspace x" and "word_chars w" and "w \<noteq> []"
    and "\<forall>x \<in> set sp2. isspace x" and "sp2 \<noteq> []" and "word_chars v" and "v \<noteq> []"
  shows "\<exists>buf. nasm_trim_spaces (sp @ w @ sp2 @ v @ [0]) (Some 0) = Inr (Some (length sp), buf) \<and>
    takeWhile (\<lambda>x. x \<noteq> 0) (drop (length sp) buf) = w"
proof -
  obtain a w' where w: "w = a # w'" using assms(3) by (cases w) auto
  obtain b v' where v: "v = b # v'" using assms(7) by (cases v) auto
  obtain s sp' where s: "sp2 = s # sp'" using assms(5) by (cases sp2) auto
  let ?z = "replicate (length sp) 0 :: bytes" and ?z2 = "replicate (length sp2) 0 :: bytes"
  have 1: "zap_fwd_loop (sp @ w @ sp2 @ v @ [0]) 0 = Inr (length sp, ?z @ w @ sp2 @ v @ [0])"
    using zap_fwd_run [OF assms(1), of a "[]" "w' @ sp2 @ v @ [0]"] assms(2)
    by (simp add: w word_chars_def)
  have 2: "skip_loop (\<lambda>c. \<not> isspace c) (?z @ w @ sp2 @ v @ [0]) (length sp) = Inr (length sp + length w)"
    using assms(2,4) by (intro skip_loop_at [of _ ?z w s "sp' @ v @ [0]"]) (auto simp: s word_chars_def)
  have 3: "zap_fwd_loop (?z @ w @ sp2 @ v @ [0]) (length sp + length w)
      = Inr (length sp + length w + length sp2, ?z @ w @ ?z2 @ v @ [0])"
    using zap_fwd_run [OF assms(4), of b "?z @ w" "v' @ [0]"] assms(6)
    by (simp add: v word_chars_def)
  have "takeWhile (\<lambda>x. x \<noteq> 0) (w @ ?z2 @ v @ [0]) = w"
    using assms(2,5) by (subst takeWhile_append2) (auto simp: word_chars_def s)
  with 1 2 3 show ?thesis
    by (simp add: nasm_trim_spaces_def nasm_zap_spaces_fwd_def nasm_skip_word_def)
qed

theorem nasm_trim_spaces_first_word_witness:
  "\<exists>buf. nasm_trim_spaces [0x20, 0x61, 0x20, 0x62, 0] (Some 0) = Inr (Some 1, buf) \<and>
    takeWhile (\<lambda>x. x \<noteq> 0) (drop 1 buf) = [0x61]"
  using nasm_trim_spaces_first_word [of "[0x20]" "[0x61]" "[0x20]" "[0x62]"]
  by (simp add: isspace_def word_chars_def)

text \<open>
  \<open>nasm_opt_val\<close> splits \<open>name=value\<close> into its two parts; on \<open>name=\<close> at the end of the string it
  goes on reading behind the terminator.
\<close>

theorem nasm_opt_val_equals:
  assumes "word_chars x" and "x \<noteq> []" and "0x3D \<notin> set x" and "word_chars v" and "c = 0 \<or> isspace c"
  shows "nasm_opt_val (x @ 0x3D # v @ c # post) (Some 0) =
    (if v \<noteq> [] then Inr (Some 0, Some (length x + 1),
         Some (length x + length v + 1 + (if c = 0 then 0 else 1)), x @ 0 # v @ 0 # post)
     else if post = [] then Inl OutOfBounds
     else andthen (nasm_get_word (x @ 0 # 0 # post) (Some (length x + 2)))
       (\<lambda>(q, nxt, buf). Inr (Some 0, q, nxt, buf)))"
proof -
  let ?w = "x @ 0x3D # v"
  have "word_chars ?w" using assms(1,4) by (auto simp: word_chars_def isspace_def)
  from get_word_run [of "[]" ?w c "[]" post, OF _ this _ assms(5)]
  have 1: "nasm_get_word (x @ 0x3D # v @ c # post) (Some 0) =
      Inr (Some 0, Some (length x + length v + 1 + (if c = 0 then 0 else 1)), x @ 0x3D # v @ 0 # post)"
    by simp
  have "skip_loop (\<lambda>y. y \<noteq> 0x3D) (x @ 0x3D # v @ 0 # post) 0 = Inr (0 + length x)"
    using assms(1,3) by (intro skip_loop_at [of _ "[]" x "0x3D" "v @ 0 # post"]) (auto simp: word_chars_def)
  then have 2: "strchr_at (x @ 0x3D # v @ 0 # post) 0 0x3D = Inr (Some (length x))"
    by (simp add: strchr_at_def nth_append)
  have q: "length x \<noteq> 0" using assms(2) by simp
  have 3: "nasm_opt_val (x @ 0x3D # v @ c # post) (Some 0) =
    (let buf = x @ 0 # v @ 0 # post; q = length x + 1
     in if buf ! q \<noteq> 0 then Inr (Some 0, Some q,
          Some (length x + length v + 1 + (if c = 0 then 0 else 1)), buf)
        else andthen (nasm_get_word buf (Some (q + 1))) (\<lambda>(q, nxt, buf). Inr (Some 0, q, nxt, buf)))"
    using q by (simp add: nasm_opt_val_def 1 2 Let_def list_update_append nth_append)
  show ?thesis
  proof (cases v)
    case Nil
    then show ?thesis unfolding 3
      by (simp add: Let_def nth_append nasm_get_word_def nasm_skip_spaces_def skip_loop.simps)
  next
    case (Cons b v')
    with assms(4) show ?thesis unfolding 3 by (simp add: Let_def nth_append word_chars_def)
  qed
qed

theorem nasm_opt_val_equals_witness:
  "nasm_opt_val [0x61, 0x3D, 0] (Some 0) = Inl OutOfBounds \<and>
   nasm_opt_val [0x61, 0x3D, 0x62, 0x20, 0x63, 0] (Some 0) =
     Inr (Some 0, Some 2, Some 4, [0x61, 0, 0x62, 0, 0x63, 0])"
  using nasm_opt_val_equals [of "[0x61]" "[]" 0 "[]"]
    nasm_opt_val_equals [of "[0x61]" "[0x62]" "0x20" "[0x63, 0]"]
  by (simp add: isspace_def word_chars_def)

end
