(* ===== verification/Crc.thy ===== *)
theory Crc
  imports Prelude
begin

text \<open>
  Cyclic redundancy checks of any width that are driven by a table of 256 entries: the locale
  \<open>crc_table\<close> is a table that the polynomial generates, and its lemma that a step through the table
  is the division by the polynomial, bit by bit.
\<close>

section \<open>The division\<close>

text \<open>One bit: shift, and subtract the polynomial when a bit falls out.\<close>

definition crc_bit :: "'a::len word \<Rightarrow> 'a word \<Rightarrow> 'a word" where
  "crc_bit poly x = drop_bit 1 x XOR (if bit x 0 then poly else 0)"

fun crc_bits :: "'a::len word \<Rightarrow> nat \<Rightarrow> 'a word \<Rightarrow> 'a word" where
  "crc_bits poly 0 x = x"
| "crc_bits poly (Suc n) x = crc_bits poly n (crc_bit poly x)"

definition crc_byte :: "'a::len word \<Rightarrow> 'a word \<Rightarrow> u8 \<Rightarrow> 'a word" where
  "crc_byte poly crc c = crc_bits poly 8 (crc XOR ucast c)"

text \<open>The remainder of a message.\<close>

definition crc_reference :: "'a::len word \<Rightarrow> 'a word \<Rightarrow> bytes \<Rightarrow> 'a word" where
  "crc_reference poly crc str = foldl (crc_byte poly) crc str"

lemma crc_bits_8:
  "crc_bits poly 8 x = crc_bit poly (crc_bit poly (crc_bit poly (crc_bit poly (crc_bit poly (crc_bit poly (crc_bit poly (crc_bit poly x)))))))"
  by (simp add: eval_nat_numeral)

lemma crc_bit_xor: "crc_bit poly (x XOR y) = crc_bit poly x XOR crc_bit poly y"
  by (auto simp: crc_bit_def bit_xor_iff ac_simps)

lemma crc_bits_xor: "crc_bits poly n (x XOR y) = crc_bits poly n x XOR crc_bits poly n y"
  by (induction n arbitrary: x y) (simp_all add: crc_bit_xor)

lemma crc_bits_0 [simp]: "crc_bits poly n 0 = 0"
  by (induction n) (simp_all add: crc_bit_def)

text \<open>The bits above the lowest byte only move down.\<close>

lemma crc_bits_push: "n \<le> 8 \<Longrightarrow> crc_bits poly n (push_bit n (drop_bit 8 x)) = drop_bit 8 x"
proof (induction n)
  case (Suc n)
  have "crc_bit poly (push_bit (Suc n) (drop_bit 8 x)) = push_bit n (drop_bit 8 x)"
    unfolding crc_bit_def using Suc.prems
    by (intro bit_word_eqI) (auto simp: bit_simps simp del: push_bit_Suc dest: bit_imp_le_length)
  then show ?case using Suc by (simp del: push_bit_Suc)
qed simp

section \<open>Tables\<close>

text \<open>The entries of a linear table follow from those of the powers of two.\<close>

fun span :: "'a::len word list \<Rightarrow> 'a word list \<Rightarrow> 'a word list" where
  "span tab [] = tab"
| "span tab (g # gs) = span (tab @ map (\<lambda>x. x XOR g) tab) gs"

lemma span_snoc: "span tab (gs @ [g]) = span tab gs @ map (\<lambda>x. x XOR g) (span tab gs)"
  by (induction gs arbitrary: tab) simp_all

lemma word_of_nat_bit:
  assumes "i < 2 ^ n" "n < LENGTH('a)"
  shows "(word_of_nat (2 ^ n + i) :: 'a::len word) = word_of_nat i XOR 2 ^ n"
proof -
  have "\<not> bit i n" using assms(1) by (simp add: bit_iff_odd)
  then have "\<not> bit (word_of_nat i :: 'a word) n" by (simp add: bit_of_nat_iff)
  then have "word_of_nat i AND (2 ^ n :: 'a word) = 0"
    by (simp add: bit_iff_and_push_bit_not_eq_0 push_bit_eq_mult)
  then have "word_of_nat i XOR (2 ^ n :: 'a word) = word_of_nat i + 2 ^ n"
    by (rule disjunctive_add_eq_xor [symmetric])
  then show ?thesis by simp
qed

locale crc_table =
  fixes tab :: "'a::len word list" and poly :: "'a word"
  assumes wide: "8 \<le> LENGTH('a)"
    and generated: "tab = span [0] (map (\<lambda>k. tab ! (2 ^ k)) [0..<8])"
    and generators: "map (\<lambda>k. tab ! (2 ^ k)) [0..<8] = map (\<lambda>k. crc_bits poly 8 (2 ^ k)) [0..<8]"
begin

lemma span_nth:
  "n \<le> LENGTH('a) \<Longrightarrow> length (span [0] (map (\<lambda>k. crc_bits poly 8 (2 ^ k)) [0..<n])) = 2 ^ n \<and>
    (\<forall>i < 2 ^ n. span [0] (map (\<lambda>k. crc_bits poly 8 (2 ^ k)) [0..<n]) ! i = crc_bits poly 8 (word_of_nat i))"
proof (induction n)
  case (Suc n)
  let ?s = "span [0] (map (\<lambda>k. crc_bits poly 8 (2 ^ k)) [0..<n])"
  have ih: "length ?s = 2 ^ n" "\<And>i. i < 2 ^ n \<Longrightarrow> ?s ! i = crc_bits poly 8 (word_of_nat i)"
    using Suc by simp_all
  have e: "span [0] (map (\<lambda>k. crc_bits poly 8 (2 ^ k)) [0..<Suc n]) = ?s @ map (\<lambda>x. x XOR crc_bits poly 8 (2 ^ n)) ?s"
    by (simp add: span_snoc)
  have "(?s @ map (\<lambda>x. x XOR crc_bits poly 8 (2 ^ n)) ?s) ! i = crc_bits poly 8 (word_of_nat i)" if "i < 2 ^ Suc n" for i
  proof (cases "i < 2 ^ n")
    case False
    define j where "j = i - 2 ^ n"
    have j: "i = 2 ^ n + j" "j < 2 ^ n" using False that by (auto simp: j_def)
    have "(word_of_nat i :: 'a word) = word_of_nat j XOR 2 ^ n"
      unfolding j(1) using j(2) Suc.prems by (intro word_of_nat_bit) auto
    then show ?thesis using j ih by (simp add: nth_append crc_bits_xor)
  qed (simp add: nth_append ih)
  then show ?case unfolding e using ih(1) by simp
qed simp

lemma tab_nth: "tab ! unat (b :: u8) = crc_bits poly 8 (ucast b)"
proof -
  have "unat b < 2 ^ LENGTH(8)" by (rule unsigned_less)
  then have b: "unat b < 2 ^ 8" by simp
  have "tab = span [0] (map (\<lambda>k. crc_bits poly 8 (2 ^ k)) [0..<8])"
    using generated unfolding generators .
  then have "tab ! unat b = crc_bits poly 8 (word_of_nat (unat b))" using span_nth [of 8] b wide by simp
  then show ?thesis by simp
qed

lemma table_step: "(tab ! unat (ucast crc XOR c :: u8)) XOR drop_bit 8 crc = crc_byte poly crc c"
proof -
  have "crc XOR ucast c = ucast (ucast crc XOR c :: u8) XOR push_bit 8 (drop_bit 8 crc)"
    using wide by (intro bit_word_eqI) (auto simp: bit_simps dest: bit_imp_le_length)
  then show ?thesis by (simp add: crc_byte_def tab_nth crc_bits_xor crc_bits_push)
qed

end

end
