(* ===== verification/HashTbl.thy ===== *)
theory HashTbl
  imports Crc64 "HOL-Library.Multiset"
begin

text \<open>
  The hash table of \<open>nasmlib/hashtbl.c\<close>: open addressing with double hashing over a power of two
  of slots, doubled when half full. Symbols, macros, sections and string tables live in it, under
  exact or case-insensitive keys. The locale \<open>hash_keys\<close> is what the two key disciplines share;
  its lemmas show that a table is a map from keys to data.
\<close>

section \<open>Model\<close>

definition CRC64_INIT :: u64 where "CRC64_INIT = 0xffffffffffffffff"
definition HASH_MAX_LOAD :: u64 where "HASH_MAX_LOAD = 2"
definition HASH_LARGE :: u64 where "HASH_LARGE = 256"

definition hash_calc :: "bytes \<Rightarrow> u64" where "hash_calc key = crc64 CRC64_INIT key"
definition hash_calci :: "bytes \<Rightarrow> u64" where "hash_calci key = crc64i CRC64_INIT key"
definition hash_max_load :: "u64 \<Rightarrow> u64" where
  "hash_max_load sz = sz * (HASH_MAX_LOAD - 1) div HASH_MAX_LOAD"
definition hash_expand :: "u64 \<Rightarrow> u64" where "hash_expand sz = push_bit 1 sz"
definition hash_mask :: "u64 \<Rightarrow> u64" where "hash_mask sz = sz - 1"
definition hash_pos :: "u64 \<Rightarrow> u64 \<Rightarrow> u64" where "hash_pos h msk = h AND msk"
definition hash_inc :: "u64 \<Rightarrow> u64 \<Rightarrow> u64" where "hash_inc h msk = (drop_bit 32 h AND msk) OR 1"
definition hash_pos_next :: "u64 \<Rightarrow> u64 \<Rightarrow> u64 \<Rightarrow> u64" where
  "hash_pos_next pos inc msk = (pos + inc) AND msk"

definition is_power2 :: "u64 \<Rightarrow> bool" where
  "is_power2 v \<longleftrightarrow> v \<noteq> 0 \<and> v AND (v - 1) = 0"

text \<open>A slot whose \<open>key\<close> is the null pointer is free: \<open>None\<close>. A freed table has no slots.\<close>

record 'v hash_tbl_node =
  nd_hash :: u64
  nd_key :: bytes
  nd_data :: 'v

type_synonym 'v slots = "'v hash_tbl_node option list"

record 'v hash_table =
  table :: "'v slots"
  load :: u64
  tsize :: u64
  max_load :: u64

record hash_insert =
  ins_hash :: u64
  ins_where :: u64

definition alloc_table :: "u64 \<Rightarrow> 'v slots" where
  "alloc_table newsize = replicate (unat newsize) None"

definition hash_init :: "u64 \<Rightarrow> 'v hash_table result" where
  "hash_init sz =
     guard (is_power2 sz) AssertFailed
       (Inr \<lparr>table = alloc_table sz, load = 0, tsize = sz, max_load = hash_max_load sz\<rparr>)"

text \<open>
  The probe loop. The positions repeat after as many steps as there are slots, so when that many
  were tried the loop never ends.
\<close>

fun hash_probe :: "('v hash_tbl_node \<Rightarrow> bool) \<Rightarrow> 'v slots \<Rightarrow> u64 \<Rightarrow> u64 \<Rightarrow> nat \<Rightarrow> u64 \<Rightarrow>
    ('v hash_tbl_node option \<times> u64) result" where
  "hash_probe match tbl inc msk 0 pos = Inl Diverges"
| "hash_probe match tbl inc msk (Suc n) pos =
     guard (unat pos < length tbl) OutOfBounds
       (case tbl ! unat pos of
          None \<Rightarrow> Inr (None, pos)
        | Some np \<Rightarrow>
            if match np then Inr (Some np, pos)
            else hash_probe match tbl inc msk n (hash_pos_next pos inc msk))"

text \<open>
  \<open>hash_find\<close> and \<open>hash_findi\<close> differ in the hash and the comparison. They return the data of the
  node found, or where to insert.
\<close>

definition hash_find_by ::
    "(bytes \<Rightarrow> u64) \<Rightarrow> (bytes \<Rightarrow> bytes \<Rightarrow> int) \<Rightarrow> 'v hash_table \<Rightarrow> bytes \<Rightarrow> ('v + hash_insert) result" where
  "hash_find_by calc cmp head key =
     (let h = calc key;
          msk = hash_mask (tsize head);
          pos = hash_pos h msk;
          inc = hash_inc h msk
      in andthen
           (hash_probe (\<lambda>np. h = nd_hash np \<and> cmp key (nd_key np) = 0) (table head) inc msk
             (length (table head)) pos)
           (\<lambda>(found, pos). case found of
              Some np \<Rightarrow> Inr (Inl (nd_data np))
            | None \<Rightarrow> Inr (Inr \<lparr>ins_hash = h, ins_where = pos\<rparr>)))"

definition hash_find :: "'v hash_table \<Rightarrow> bytes \<Rightarrow> ('v + hash_insert) result" where
  "hash_find = hash_find_by hash_calc strcmp"

definition hash_findi :: "'v hash_table \<Rightarrow> bytes \<Rightarrow> ('v + hash_insert) result" where
  "hash_findi = hash_find_by hash_calci nasm_stricmp"

text \<open>Rebalancing moves one node after the other into the new table.\<close>

definition hash_move :: "u64 \<Rightarrow> 'v slots \<Rightarrow> 'v hash_tbl_node option \<Rightarrow> ('v slots \<times> u64 option) result" where
  "hash_move msk newtbl op =
     (case op of
        None \<Rightarrow> Inr (newtbl, None)
      | Some nd \<Rightarrow>
          andthen
            (hash_probe (\<lambda>_. False) newtbl (hash_inc (nd_hash nd) msk) msk (length newtbl)
              (hash_pos (nd_hash nd) msk))
            (\<lambda>(_, pos). Inr (newtbl[unat pos := Some nd], Some pos)))"

fun hash_rebalance :: "u64 \<Rightarrow> nat \<Rightarrow> nat \<Rightarrow> 'v slots \<Rightarrow> 'v slots \<Rightarrow> u64 \<Rightarrow> ('v slots \<times> u64) result" where
  "hash_rebalance msk i np [] newtbl npos = Inr (newtbl, npos)"
| "hash_rebalance msk i np (op # ops) newtbl npos =
     andthen (hash_move msk newtbl op) (\<lambda>(newtbl, moved).
       hash_rebalance msk (i + 1) np ops newtbl
         (case moved of Some xp \<Rightarrow> if i = np then xp else npos | None \<Rightarrow> npos))"

text \<open>\<open>hash_add\<close> returns the slot of the new node, whose data the caller may change.\<close>

definition hash_add :: "'v hash_table \<Rightarrow> hash_insert \<Rightarrow> bytes \<Rightarrow> 'v \<Rightarrow> (u64 \<times> 'v hash_table) result" where
  "hash_add head hi key data =
     (let np = ins_where hi;
          nd = \<lparr>nd_hash = ins_hash hi, nd_key = key, nd_data = data\<rparr>
      in guard (unat np < length (table head)) OutOfBounds
         (let head = head\<lparr>table := (table head)[unat np := Some nd], load := load head + 1\<rparr>
          in if max_load head < load head
             then
               let newsize = hash_expand (tsize head);
                   msk = hash_mask newsize
               in andthen (hash_rebalance msk 0 (unat np) (table head) (alloc_table newsize) np)
                    (\<lambda>(newtbl, np).
                      Inr (np, head\<lparr>table := newtbl, tsize := newsize, max_load := hash_max_load newsize\<rparr>))
             else Inr (np, head)))"

text \<open>
  \<open>hash_iterate\<close> from a slot on (the null iterator is slot 0): the next node and the iterator
  behind it.
\<close>

fun iterate_loop :: "'v slots \<Rightarrow> nat \<Rightarrow> ((bytes \<times> 'v) \<times> nat) option" where
  "iterate_loop [] np = None"
| "iterate_loop (Some nd # slots) np = Some ((nd_key nd, nd_data nd), np + 1)"
| "iterate_loop (None # slots) np = iterate_loop slots (np + 1)"

definition hash_iterate :: "'v hash_table \<Rightarrow> nat option \<Rightarrow> ((bytes \<times> 'v) \<times> nat) option" where
  "hash_iterate head iterator =
     (let np = (case iterator of None \<Rightarrow> 0 | Some i \<Rightarrow> i)
      in iterate_loop (drop np (table head)) np)"

lemma iterate_loop_bound: "iterate_loop slots np = Some (d, i) \<Longrightarrow> np < i \<and> i \<le> np + length slots"
  by (induction slots np rule: iterate_loop.induct) auto

text \<open>
  The loop every client runs over \<open>hash_iterate\<close>, from the null iterator until it returns the null
  pointer; data are never null. \<open>hash_free_all\<close> releases the data that way, and then the table.
\<close>

definition hash_free :: "'v hash_table \<Rightarrow> 'v hash_table" where
  "hash_free head = head\<lparr>table := []\<rparr>"

function hash_members :: "'v hash_table \<Rightarrow> nat option \<Rightarrow> (bytes \<times> 'v) list" where
  "hash_members head iter =
     (case hash_iterate head iter of
        None \<Rightarrow> []
      | Some (d, i) \<Rightarrow> d # hash_members head (Some i))"
  by pat_completeness auto

termination
  by (relation "measure (\<lambda>(head, iter). length (table head) + 1 - (case iter of None \<Rightarrow> 0 | Some i \<Rightarrow> i))")
     (auto simp: hash_iterate_def split: option.splits dest: iterate_loop_bound)

definition hash_free_all :: "'v hash_table \<Rightarrow> (bytes \<times> 'v) list \<times> 'v hash_table" where
  "hash_free_all head = (hash_members head None, hash_free head)"

declare hash_members.simps [simp del]

section \<open>Probe sequences\<close>

definition slot :: "nat \<Rightarrow> u64 \<Rightarrow> nat \<Rightarrow> nat" where
  "slot k h n = (unat h + n * unat (hash_inc h (2 ^ k - 1))) mod 2 ^ k"

lemma slot_less [simp]: "slot k h n < 2 ^ k"
  by (simp add: slot_def)

lemma and_size_mask: "unat (w AND (2 ^ k - 1 :: u64)) = unat w mod 2 ^ k"
  using unat_and_mask [of w k] by (simp add: push_bit_eq_mult)

lemma hash_pos_slot: "unat (hash_pos h (2 ^ k - 1)) = slot k h 0"
  by (simp add: hash_pos_def slot_def and_size_mask)

lemma hash_next_slot:
  assumes "unat pos = slot k h n" and "k \<le> 64"
  shows "unat (hash_pos_next pos (hash_inc h (2 ^ k - 1)) (2 ^ k - 1)) = slot k h (Suc n)"
proof -
  have "(2::nat) ^ k dvd 2 ^ 64" using assms(2) by (rule le_imp_power_dvd)
  then have "unat (pos + i) mod 2 ^ k = (unat pos + unat i) mod 2 ^ k" for i
    by (simp add: unat_word_ariths mod_mod_cancel)
  then have "unat (hash_pos_next pos (hash_inc h (2 ^ k - 1)) (2 ^ k - 1))
      = (slot k h n + unat (hash_inc h (2 ^ k - 1))) mod 2 ^ k"
    unfolding hash_pos_next_def and_size_mask assms(1) .
  then show ?thesis by (simp add: slot_def mod_add_left_eq add.assoc)
      (simp add: add.commute [of "unat (hash_inc h (2 ^ k - 1))"])
qed

lemma odd_hash_inc: "odd (unat (hash_inc h m))"
proof -
  have "bit (hash_inc h m) 0" by (simp add: hash_inc_def bit_or_iff)
  then have "bit (unat (hash_inc h m)) 0" by (simp add: bit_unsigned_iff)
  then show ?thesis by (simp add: bit_0)
qed

lemma slot_inj: "inj_on (slot k h) {..<2 ^ k}"
proof (rule linorder_inj_onI')
  fix m n :: nat
  let ?i = "unat (hash_inc h (2 ^ k - 1))"
  assume mn: "m \<in> {..<2 ^ k}" "n \<in> {..<2 ^ k}" "m < n"
  show "slot k h m \<noteq> slot k h n"
  proof
    assume "slot k h m = slot k h n"
    then have "2 ^ k dvd (unat h + n * ?i) - (unat h + m * ?i)"
      unfolding slot_def by (metis mod_eq_dvd_iff_nat mn(3) add_le_cancel_left less_imp_le mult_le_mono1)
    also have "(unat h + n * ?i) - (unat h + m * ?i) = (n - m) * ?i" by (simp add: diff_mult_distrib)
    finally have "2 ^ k dvd n - m"
      using odd_hash_inc by (subst (asm) coprime_dvd_mult_left_iff) auto
    then show False using mn by (auto dest: dvd_imp_le)
  qed
qed

lemma slot_surj: "p < 2 ^ k \<Longrightarrow> \<exists>n < 2 ^ k. slot k h n = p"
proof -
  assume p: "p < 2 ^ k"
  have "slot k h ` {..<2 ^ k} = {..<2 ^ k}"
    using slot_inj by (intro endo_inj_surj) auto
  then show ?thesis using p by (metis imageE lessThan_iff)
qed

definition probe_stops :: "('v hash_tbl_node \<Rightarrow> bool) \<Rightarrow> 'v slots \<Rightarrow> nat \<Rightarrow> bool" where
  "probe_stops match tbl p \<longleftrightarrow> (case tbl ! p of None \<Rightarrow> True | Some np \<Rightarrow> match np)"

lemma probe_runs: "\<not> probe_stops match tbl p \<Longrightarrow> tbl ! p \<noteq> None"
  by (cases "tbl ! p") (simp_all add: probe_stops_def)

lemma hash_probe_run:
  "length tbl = 2 ^ k \<Longrightarrow> k \<le> 64 \<Longrightarrow> unat pos = slot k h n \<Longrightarrow> j < m \<Longrightarrow>
   probe_stops match tbl (slot k h (n + j)) \<Longrightarrow> \<forall>i < j. \<not> probe_stops match tbl (slot k h (n + i)) \<Longrightarrow>
   \<exists>p. hash_probe match tbl (hash_inc h (2 ^ k - 1)) (2 ^ k - 1) m pos = Inr (tbl ! slot k h (n + j), p) \<and>
     unat p = slot k h (n + j)"
proof (induction j arbitrary: n m pos)
  case 0
  then obtain m' where "m = Suc m'" by (cases m) auto
  with 0 show ?case by (auto simp: probe_stops_def split: option.splits)
next
  case (Suc j)
  then obtain m' where m: "m = Suc m'" by (cases m) auto
  have "\<not> probe_stops match tbl (slot k h n)" using Suc.prems(6) by (metis add_0_right zero_less_Suc)
  then obtain np where np: "tbl ! slot k h n = Some np" "\<not> match np"
    by (auto simp: probe_stops_def split: option.splits)
  have "\<forall>i < j. \<not> probe_stops match tbl (slot k h (Suc n + i))"
    using Suc.prems(6) by (metis add_Suc_shift Suc_less_eq)
  then have "\<exists>p. hash_probe match tbl (hash_inc h (2 ^ k - 1)) (2 ^ k - 1) m'
      (hash_pos_next pos (hash_inc h (2 ^ k - 1)) (2 ^ k - 1)) = Inr (tbl ! slot k h (Suc n + j), p) \<and>
     unat p = slot k h (Suc n + j)"
    using Suc.prems m by (intro Suc.IH hash_next_slot) auto
  with np m Suc.prems(1,3) show ?case by simp
qed

lemma hash_probe_found:
  assumes "length tbl = 2 ^ k" "k \<le> 64" and "None \<in> set tbl"
  obtains n p where
    "hash_probe match tbl (hash_inc h (2 ^ k - 1)) (2 ^ k - 1) (length tbl) (hash_pos h (2 ^ k - 1))
      = Inr (tbl ! slot k h n, p)"
    "unat p = slot k h n" "n < 2 ^ k" "probe_stops match tbl (slot k h n)"
    "\<And>i. i < n \<Longrightarrow> \<not> probe_stops match tbl (slot k h i)"
proof -
  obtain q where q: "q < 2 ^ k" "tbl ! q = None" using assms(1,3) by (auto simp: in_set_conv_nth)
  obtain n0 where n0: "n0 < 2 ^ k" "slot k h n0 = q" using slot_surj [OF q(1)] by blast
  define n where "n = (LEAST n. probe_stops match tbl (slot k h n))"
  have s0: "probe_stops match tbl (slot k h n0)" using n0 q by (simp add: probe_stops_def)
  have s: "probe_stops match tbl (slot k h n)" unfolding n_def using s0 by (rule LeastI)
  have l: "\<not> probe_stops match tbl (slot k h i)" if "i < n" for i
    using that unfolding n_def by (rule not_less_Least)
  have "n \<le> n0" unfolding n_def using s0 by (rule Least_le)
  then have n: "n < 2 ^ k" using n0 by simp
  from hash_probe_run [OF assms(1,2) hash_pos_slot, of n "2 ^ k" match h] n s l assms(1) that
  show thesis by fastforce
qed

section \<open>Contents\<close>

fun filled :: "'v slots \<Rightarrow> 'v hash_tbl_node list" where
  "filled [] = []"
| "filled (None # tbl) = filled tbl"
| "filled (Some nd # tbl) = nd # filled tbl"

lemma filled_append [simp]: "filled (xs @ ys) = filled xs @ filled ys"
  by (induction xs rule: filled.induct) simp_all

lemma set_filled: "set (filled tbl) = {nd. Some nd \<in> set tbl}"
  by (induction tbl rule: filled.induct) auto

lemma filled_replicate [simp]: "filled (replicate n None) = []"
  by (induction n) simp_all

lemma filled_update:
  assumes "p < length tbl" and "tbl ! p = None"
  shows "mset (filled (tbl[p := Some nd])) = add_mset nd (mset (filled tbl))"
proof -
  have "tbl = take p tbl @ None # drop (Suc p) tbl" using assms by (metis id_take_nth_drop)
  then have "filled tbl = filled (take p tbl) @ filled (drop (Suc p) tbl)"
    by (metis filled_append filled.simps(2))
  then show ?thesis using assms(1) by (simp add: upd_conv_take_nth_drop)
qed

lemma filled_full: "None \<notin> set tbl \<Longrightarrow> length (filled tbl) = length tbl"
  by (induction tbl rule: filled.induct) auto

lemma room: "length (filled tbl) < length tbl \<Longrightarrow> None \<in> set tbl"
  using filled_full by fastforce

text \<open>Every node can be reached from the start of its probe sequence.\<close>

definition reach :: "nat \<Rightarrow> 'v slots \<Rightarrow> bool" where
  "reach k tbl \<longleftrightarrow> (\<forall>p < length tbl. \<forall>nd. tbl ! p = Some nd \<longrightarrow>
     (\<exists>n < 2 ^ k. p = slot k (nd_hash nd) n \<and> (\<forall>i < n. tbl ! slot k (nd_hash nd) i \<noteq> None)))"

lemma reach_update:
  assumes "reach k tbl" and "length tbl = 2 ^ k" and "n < 2 ^ k" and "tbl ! slot k (nd_hash nd) n = None"
    and "\<forall>i < n. tbl ! slot k (nd_hash nd) i \<noteq> None"
  shows "reach k (tbl[slot k (nd_hash nd) n := Some nd])" (is "reach k ?t")
proof -
  have mono: "tbl ! q \<noteq> None \<Longrightarrow> ?t ! q \<noteq> None" if "q < 2 ^ k" for q
    using that assms(2) by (simp add: nth_list_update)
  show ?thesis unfolding reach_def
  proof (intro allI impI)
    fix p x assume p: "p < length ?t" "?t ! p = Some x"
    show "\<exists>m < 2 ^ k. p = slot k (nd_hash x) m \<and> (\<forall>i < m. ?t ! slot k (nd_hash x) i \<noteq> None)"
    proof (cases "p = slot k (nd_hash nd) n")
      case True
      with p have "x = nd" using assms(2) by simp
      with True assms(3,5) mono show ?thesis by auto
    next
      case False
      then have "tbl ! p = Some x" using p by simp
      then obtain m where "m < 2 ^ k" "p = slot k (nd_hash x) m"
        "\<forall>i < m. tbl ! slot k (nd_hash x) i \<noteq> None"
        using assms(1) p(1) unfolding reach_def by auto
      with mono show ?thesis by auto
    qed
  qed
qed

text \<open>The state of a table while nodes are moved into it.\<close>

definition slots_ok :: "nat \<Rightarrow> 'v slots \<Rightarrow> bool" where
  "slots_ok k tbl \<longleftrightarrow> k \<le> 63 \<and> length tbl = 2 ^ k \<and> reach k tbl"

lemma hash_move_ok:
  assumes "slots_ok k tbl" and "length (filled tbl) < 2 ^ k"
  shows "\<exists>tbl' p. hash_move (2 ^ k - 1) tbl (Some nd) = Inr (tbl', Some p) \<and> slots_ok k tbl' \<and>
    mset (filled tbl') = add_mset nd (mset (filled tbl)) \<and> unat p < 2 ^ k \<and> tbl' ! unat p = Some nd \<and>
    (\<forall>q x. q < 2 ^ k \<longrightarrow> tbl ! q = Some x \<longrightarrow> tbl' ! q = Some x)"
proof -
  have t: "length tbl = 2 ^ k" "k \<le> 64" "None \<in> set tbl" "reach k tbl"
    using assms by (auto simp: slots_ok_def intro: room)
  obtain n p where p: "hash_probe (\<lambda>_. False) tbl (hash_inc (nd_hash nd) (2 ^ k - 1)) (2 ^ k - 1) (length tbl)
      (hash_pos (nd_hash nd) (2 ^ k - 1)) = Inr (tbl ! slot k (nd_hash nd) n, p)"
    "unat p = slot k (nd_hash nd) n" "n < 2 ^ k" "probe_stops (\<lambda>_. False) tbl (slot k (nd_hash nd) n)"
    "\<And>i. i < n \<Longrightarrow> \<not> probe_stops (\<lambda>_. False) tbl (slot k (nd_hash nd) i)"
    by (rule hash_probe_found [OF t(1-3)]) blast
  have none: "tbl ! slot k (nd_hash nd) n = None" using p(4) by (auto simp: probe_stops_def split: option.splits)
  have some: "\<forall>i < n. tbl ! slot k (nd_hash nd) i \<noteq> None" using p(5) probe_runs by blast
  let ?t = "tbl[slot k (nd_hash nd) n := Some nd]"
  have "hash_move (2 ^ k - 1) tbl (Some nd) = Inr (?t, Some p)" using p(1,2) by (simp add: hash_move_def)
  moreover have "slots_ok k ?t"
    using reach_update [OF t(4,1) p(3) none some] assms(1) by (simp add: slots_ok_def)
  moreover have "mset (filled ?t) = add_mset nd (mset (filled tbl))"
    using none t(1) by (intro filled_update) simp_all
  moreover have "\<forall>q x. q < 2 ^ k \<longrightarrow> tbl ! q = Some x \<longrightarrow> ?t ! q = Some x"
    using none by (auto simp: nth_list_update t(1))
  ultimately show ?thesis using p(2) t(1) by (intro exI [of _ ?t] exI [of _ p]) simp
qed

lemma tracked_shift:
  assumes "i \<le> np \<longrightarrow> np < i + length (op # ops) \<and> (op # ops) ! (np - i) = Some nd"
  shows "Suc i \<le> np \<longrightarrow> np < Suc i + length ops \<and> ops ! (np - Suc i) = Some nd"
proof
  assume s: "Suc i \<le> np"
  then have "np - i = Suc (np - Suc i)" by simp
  with assms s show "np < Suc i + length ops \<and> ops ! (np - Suc i) = Some nd" by simp
qed

lemma hash_rebalance_ok:
  "slots_ok k tbl \<Longrightarrow> length (filled tbl) + length (filled ops) < 2 ^ k \<Longrightarrow>
   (i \<le> np \<longrightarrow> np < i + length ops \<and> ops ! (np - i) = Some nd) \<Longrightarrow>
   (np < i \<longrightarrow> unat npos < 2 ^ k \<and> tbl ! unat npos = Some nd) \<Longrightarrow>
   \<exists>tbl' p. hash_rebalance (2 ^ k - 1) i np ops tbl npos = Inr (tbl', p) \<and> slots_ok k tbl' \<and>
     mset (filled tbl') = mset (filled ops) + mset (filled tbl) \<and> unat p < 2 ^ k \<and> tbl' ! unat p = Some nd"
proof (induction ops arbitrary: i tbl npos)
  case Nil
  then show ?case by (cases "i \<le> np") auto
next
  case (Cons op ops)
  show ?case
  proof (cases op)
    case None
    with Cons.prems(3) have "i \<noteq> np" by auto
    then have "np < Suc i \<longrightarrow> unat npos < 2 ^ k \<and> tbl ! unat npos = Some nd" using Cons.prems(4) by simp
    from Cons.IH [OF Cons.prems(1) _ tracked_shift [OF Cons.prems(3)] this] Cons.prems(2) None
    show ?thesis by (simp add: hash_move_def)
  next
    case (Some x)
    have "length (filled tbl) < 2 ^ k" using Cons.prems(2) by simp
    from hash_move_ok [OF Cons.prems(1) this, of x] obtain tbl1 p1 where
      m: "hash_move (2 ^ k - 1) tbl (Some x) = Inr (tbl1, Some p1)" "slots_ok k tbl1"
      "mset (filled tbl1) = add_mset x (mset (filled tbl))" "unat p1 < 2 ^ k" "tbl1 ! unat p1 = Some x"
      "\<forall>q x. q < 2 ^ k \<longrightarrow> tbl ! q = Some x \<longrightarrow> tbl1 ! q = Some x" by blast
    have "length (filled tbl1) = Suc (length (filled tbl))"
      using m(3) by (metis size_add_mset size_mset)
    then have c: "length (filled tbl1) + length (filled ops) < 2 ^ k" using Cons.prems(2) Some by simp
    let ?npos = "if i = np then p1 else npos"
    have b: "np < Suc i \<longrightarrow> unat ?npos < 2 ^ k \<and> tbl1 ! unat ?npos = Some nd"
    proof (cases "i = np")
      case True
      then have "x = nd" using Cons.prems(3) Some by simp
      with True m(4,5) show ?thesis by simp
    next
      case False
      with Cons.prems(4) m(6) show ?thesis by simp
    qed
    from Cons.IH [OF m(2) c tracked_shift [OF Cons.prems(3)] b] m(1,3) Some show ?thesis by simp
  qed
qed

section \<open>The table as a map\<close>

definition hash_nodes :: "'v hash_table \<Rightarrow> 'v hash_tbl_node list" where
  "hash_nodes head = filled (table head)"

definition hash_map :: "(bytes \<Rightarrow> bytes) \<Rightarrow> 'v hash_table \<Rightarrow> bytes \<Rightarrow> 'v option" where
  "hash_map norm head = map_of (map (\<lambda>nd. (norm (nd_key nd), nd_data nd)) (hash_nodes head))"

definition nodes_ok :: "(bytes \<Rightarrow> u64) \<Rightarrow> (bytes \<Rightarrow> bytes) \<Rightarrow> 'v hash_tbl_node list \<Rightarrow> bool" where
  "nodes_ok calc norm nds \<longleftrightarrow> (\<forall>nd \<in> set nds. nd_hash nd = calc (nd_key nd) \<and> cstring (nd_key nd)) \<and>
     distinct (map (\<lambda>nd. norm (nd_key nd)) nds)"

definition hash_ok :: "(bytes \<Rightarrow> u64) \<Rightarrow> (bytes \<Rightarrow> bytes) \<Rightarrow> 'v hash_table \<Rightarrow> bool" where
  "hash_ok calc norm head \<longleftrightarrow>
     (\<exists>k \<le> 62. tsize head = 2 ^ k \<and> slots_ok k (table head)) \<and>
     max_load head = hash_max_load (tsize head) \<and> load head \<le> max_load head \<and>
     unat (load head) = length (hash_nodes head) \<and> nodes_ok calc norm (hash_nodes head)"

lemma nodes_ok_mset: "mset xs = mset ys \<Longrightarrow> nodes_ok calc norm xs = nodes_ok calc norm ys"
proof -
  assume m: "mset xs = mset ys"
  then have "mset (map (\<lambda>nd. norm (nd_key nd)) xs) = mset (map (\<lambda>nd. norm (nd_key nd)) ys)" by simp
  then show ?thesis unfolding nodes_ok_def
    using mset_eq_setD [OF m] mset_eq_imp_distinct_iff by metis
qed

lemma option_eqI: "(\<And>v. x = Some v \<longleftrightarrow> y = Some v) \<Longrightarrow> x = y"
  by (cases x; cases y) auto

lemma map_of_nodes:
  "nodes_ok calc norm nds \<Longrightarrow> map_of (map (\<lambda>nd. (norm (nd_key nd), nd_data nd)) nds) x = Some d \<longleftrightarrow>
   (\<exists>nd \<in> set nds. norm (nd_key nd) = x \<and> nd_data nd = d)"
  by (subst map_of_eq_Some_iff) (auto simp: nodes_ok_def comp_def)

lemma map_of_nodes_cong:
  "nodes_ok calc norm xs \<Longrightarrow> nodes_ok calc norm ys \<Longrightarrow> set xs = set ys \<Longrightarrow>
   map_of (map (\<lambda>nd. (norm (nd_key nd), nd_data nd)) xs) = map_of (map (\<lambda>nd. (norm (nd_key nd), nd_data nd)) ys)"
  by (intro ext option_eqI) (simp add: map_of_nodes)

lemma nodes_ok_Cons:
  assumes "nodes_ok calc norm nds" and "nd_hash nd = calc (nd_key nd)" "cstring (nd_key nd)"
    and "map_of (map (\<lambda>nd. (norm (nd_key nd), nd_data nd)) nds) (norm (nd_key nd)) = None"
  shows "nodes_ok calc norm (nd # nds)"
  using assms by (auto simp: nodes_ok_def map_of_eq_None_iff comp_def image_iff)

lemma bigger: "k \<le> 61 \<Longrightarrow> P (Suc k) \<Longrightarrow> \<exists>j \<le> 62. (2 :: u64) * 2 ^ k = 2 ^ j \<and> P j"
  by (rule exI [of _ "Suc k"]) simp

lemma unat_two_pow: "k \<le> 63 \<Longrightarrow> unat (2 ^ k :: u64) = 2 ^ k"
  by (rule unat_two_power) simp

lemma unat_max_load: "k \<le> 63 \<Longrightarrow> unat (hash_max_load (2 ^ k)) = 2 ^ k div 2"
  by (simp add: hash_max_load_def HASH_MAX_LOAD_def unat_div unat_two_pow)

lemma hash_init_ok:
  assumes "k \<le> 62"
  shows "\<exists>head. hash_init (2 ^ k) = Inr head \<and> hash_ok calc norm head \<and> hash_nodes head = [] \<and> tsize head = 2 ^ k"
proof -
  have "unat (2 ^ k :: u64) \<noteq> 0" using unat_two_pow [of k] assms by simp
  then have "(2 ^ k :: u64) \<noteq> 0" by (metis unsigned_0)
  moreover have "unat ((2 ^ k :: u64) AND (2 ^ k - 1)) = 0"
    using assms by (simp add: and_size_mask unat_two_pow)
  ultimately have "is_power2 (2 ^ k)" unfolding is_power2_def word_unat_eq_iff by simp
  moreover have "slots_ok k (alloc_table (2 ^ k))"
    using assms by (simp add: slots_ok_def alloc_table_def unat_two_pow reach_def)
  ultimately show ?thesis using assms
    by (auto simp: hash_init_def hash_ok_def hash_nodes_def alloc_table_def nodes_ok_def)
qed

text \<open>Where \<open>hash_find\<close> tells \<open>hash_add\<close> to insert.\<close>

definition insert_ok :: "u64 \<Rightarrow> 'v hash_table \<Rightarrow> hash_insert \<Rightarrow> bool" where
  "insert_ok h head hi \<longleftrightarrow> ins_hash hi = h \<and>
     (\<exists>k n. tsize head = 2 ^ k \<and> k \<le> 62 \<and> n < 2 ^ k \<and> unat (ins_where hi) = slot k h n \<and>
       table head ! slot k h n = None \<and> (\<forall>i < n. table head ! slot k h i \<noteq> None))"

lemma two_pow_inject: "(2 :: u64) ^ j = 2 ^ k \<Longrightarrow> j \<le> 63 \<Longrightarrow> k \<le> 63 \<Longrightarrow> j = k"
  by (metis unat_two_pow power_inject_exp one_less_numeral_iff semiring_norm(76))

lemma hash_add_ok:
  fixes head :: "'v hash_table"
  assumes ok: "hash_ok calc norm head" and sz: "unat (tsize head) < 2 ^ 62"
    and hi: "insert_ok (calc key) head hi" and key: "cstring key" "hash_map norm head (norm key) = None"
  shows "\<exists>p head'. hash_add head hi key d = Inr (p, head') \<and> hash_ok calc norm head' \<and>
    hash_map norm head' = (hash_map norm head)(norm key \<mapsto> d) \<and>
    unat (tsize head') \<le> max (unat (tsize head)) (4 * length (hash_nodes head')) \<and>
    length (hash_nodes head') = Suc (length (hash_nodes head)) \<and>
    table head' ! unat p = Some \<lparr>nd_hash = calc key, nd_key = key, nd_data = d\<rparr> \<and>
    set (hash_nodes head') = insert \<lparr>nd_hash = calc key, nd_key = key, nd_data = d\<rparr> (set (hash_nodes head))"
proof -
  let ?nd = "\<lparr>nd_hash = calc key, nd_key = key, nd_data = d\<rparr>"
  obtain k n where k: "tsize head = 2 ^ k" "k \<le> 62" "n < 2 ^ k" "unat (ins_where hi) = slot k (calc key) n"
      "table head ! slot k (calc key) n = None" "\<forall>i < n. table head ! slot k (calc key) i \<noteq> None"
      "ins_hash hi = calc key"
    using hi unfolding insert_ok_def by blast
  have so: "slots_ok k (table head)" using ok k(1,2) two_pow_inject by (fastforce simp: hash_ok_def)
  have ld: "unat (load head) = length (hash_nodes head)" "unat (load head) \<le> 2 ^ k div 2"
    using ok k(1,2) unat_max_load [of k] by (auto simp: hash_ok_def word_le_nat_alt)
  have k61: "k \<le> 61"
  proof (rule ccontr)
    assume "\<not> k \<le> 61"
    then have "k = 62" using k(2) by simp
    with sz k(1) show False by (simp add: unat_two_pow)
  qed
  define t1 where "t1 = (table head)[slot k (calc key) n := Some ?nd]"
  have len: "length (table head) = 2 ^ k" "reach k (table head)" using so by (simp_all add: slots_ok_def)
  have t1: "slots_ok k t1" "mset (filled t1) = add_mset ?nd (mset (hash_nodes head))" "t1 ! slot k (calc key) n = Some ?nd"
    using reach_update [OF len(2,1), of n ?nd] filled_update [of _ "table head" ?nd] k so len
    by (simp_all add: t1_def slots_ok_def hash_nodes_def)
  have l1: "length (filled t1) = Suc (length (hash_nodes head))" using t1(2) by (metis size_add_mset size_mset)
  have "(2::nat) ^ k div 2 < 2 ^ k" by simp
  with ld have bl: "Suc (length (hash_nodes head)) \<le> 2 ^ k" by linarith
  have "(2::nat) ^ k \<le> 2 ^ 62" using k(2) by (intro power_increasing) auto
  then have ul: "unat (load head + 1) = Suc (length (hash_nodes head))"
    using ld by (simp add: unat_word_ariths)
  have nk: "nodes_ok calc norm (?nd # hash_nodes head)"
    using ok key by (intro nodes_ok_Cons) (auto simp: hash_ok_def hash_map_def)
  have nodes: "nodes_ok calc norm (filled t) \<and>
      map_of (map (\<lambda>nd. (norm (nd_key nd), nd_data nd)) (filled t)) = (hash_map norm head)(norm key \<mapsto> d) \<and>
      set (filled t) = insert ?nd (set (hash_nodes head))"
    if m: "mset (filled t) = add_mset ?nd (mset (hash_nodes head))" for t
  proof -
    have m': "mset (filled t) = mset (?nd # hash_nodes head)" using m by simp
    then have s: "set (filled t) = set (?nd # hash_nodes head)" by (rule mset_eq_setD)
    have o: "nodes_ok calc norm (filled t)" using nk nodes_ok_mset [OF m'] by simp
    have "map_of (map (\<lambda>nd. (norm (nd_key nd), nd_data nd)) (filled t))
        = map_of (map (\<lambda>nd. (norm (nd_key nd), nd_data nd)) (?nd # hash_nodes head))"
      using map_of_nodes_cong [OF o nk s] .
    with o s show ?thesis by (simp add: hash_map_def)
  qed
  define h1 where "h1 = head\<lparr>table := t1, load := load head + 1\<rparr>"
  have e: "hash_add head hi key d =
     (if max_load h1 < load h1
      then andthen (hash_rebalance (hash_mask (hash_expand (tsize h1))) 0 (slot k (calc key) n) t1
             (alloc_table (hash_expand (tsize h1))) (ins_where hi))
           (\<lambda>(newtbl, np). Inr (np, h1\<lparr>table := newtbl, tsize := hash_expand (tsize h1),
              max_load := hash_max_load (hash_expand (tsize h1))\<rparr>))
      else Inr (ins_where hi, h1))"
    using k(3,4,7) len(1) by (simp add: hash_add_def Let_def h1_def t1_def)
  show ?thesis
  proof (cases "max_load h1 < load h1")
    case False
    moreover have "hash_ok calc norm h1"
      using ok False ul l1 nodes [OF t1(2)] t1(1) k(1,2)
      unfolding hash_ok_def h1_def hash_nodes_def by (simp add: not_less) blast
    ultimately show ?thesis using nodes [OF t1(2)] e k(4) t1(3) l1
      by (auto simp: h1_def hash_map_def hash_nodes_def)
  next
    case True
    have ex: "hash_expand (tsize h1) = 2 ^ Suc k" by (simp add: hash_expand_def h1_def k(1))
    have f0: "filled (alloc_table (2 ^ Suc k)) = []" by (simp only: alloc_table_def filled_replicate)
    have sl: "slots_ok (Suc k) (alloc_table (2 ^ Suc k))"
      using k61 unat_two_pow [of "Suc k"] by (simp add: slots_ok_def alloc_table_def reach_def)
    have rm: "length (filled (alloc_table (2 ^ Suc k))) + length (filled t1) < 2 ^ Suc k"
      unfolding f0 l1 using bl by simp
    have tr: "0 \<le> slot k (calc key) n \<longrightarrow> slot k (calc key) n < 0 + length t1 \<and>
        t1 ! (slot k (calc key) n - 0) = Some ?nd"
      using t1(3) len(1) by (simp add: t1_def)
    obtain t2 p where t2:
      "hash_rebalance (2 ^ Suc k - 1) 0 (slot k (calc key) n) t1 (alloc_table (2 ^ Suc k)) (ins_where hi) = Inr (t2, p)"
      "slots_ok (Suc k) t2" "mset (filled t2) = mset (filled t1)" "t2 ! unat p = Some ?nd"
      using hash_rebalance_ok [OF sl rm tr, of "ins_where hi"] unfolding f0 by auto
    define h2 where "h2 = h1\<lparr>table := t2, tsize := 2 ^ Suc k, max_load := hash_max_load (2 ^ Suc k)\<rparr>"
    have m2: "mset (filled t2) = add_mset ?nd (mset (hash_nodes head))" using t2(3) t1(2) by simp
    have "length (filled t2) = length (filled t1)" using t2(3) by (metis size_mset)
    moreover have "load h2 \<le> max_load h2"
      using ul bl unat_max_load [of "Suc k"] k(2) by (simp add: h2_def h1_def word_le_nat_alt)
    ultimately have "hash_ok calc norm h2"
      using ul l1 nodes [OF m2] t2(2) k61 bigger [of k]
      unfolding hash_ok_def h2_def h1_def hash_nodes_def by simp
    moreover have "hash_add head hi key d = Inr (p, h2)"
      using True t2(1) by (simp add: e ex hash_mask_def h2_def)
    moreover have l2: "length (filled t2) = Suc (length (hash_nodes head))" using t2(3) l1 by (metis size_mset)
    moreover have "unat (tsize h2) \<le> 4 * length (filled t2)"
    proof -
      have "unat (max_load head) = 2 ^ k div 2"
        using ok k(1,2) unat_max_load [of k] by (simp add: hash_ok_def)
      then have "2 ^ k div 2 < Suc (length (hash_nodes head))"
        using True ul by (simp add: h1_def word_less_nat_alt)
      moreover have "unat (tsize h2) = 2 * 2 ^ k" using k61 unat_two_pow [of "Suc k"] by (simp add: h2_def)
      moreover have "m div 2 < Suc l \<Longrightarrow> 2 * m \<le> 4 * Suc l" for m l :: nat by presburger
      ultimately show ?thesis unfolding l2 by simp
    qed
    ultimately show ?thesis using nodes [OF m2] t2(4)
      by (auto simp: h2_def hash_map_def hash_nodes_def)
  qed
qed

text \<open>The two key disciplines: a comparison, and a hash that respects it.\<close>

locale hash_keys = string_order +
  fixes calc :: "bytes \<Rightarrow> u64"
  assumes calc_norm: "cstring s \<Longrightarrow> cstring t \<Longrightarrow> norm s = norm t \<Longrightarrow> calc s = calc t"
begin

lemma find_ok:
  assumes ok: "hash_ok calc norm head" and key: "cstring key"
  shows "case hash_map norm head (norm key) of
      Some d \<Rightarrow> hash_find_by calc cmp head key = Inr (Inl d)
    | None \<Rightarrow> \<exists>hi. hash_find_by calc cmp head key = Inr (Inr hi) \<and> insert_ok (calc key) head hi"
proof -
  obtain k where k: "k \<le> 62" "tsize head = 2 ^ k" "slots_ok k (table head)"
    using ok by (auto simp: hash_ok_def)
  have no: "nodes_ok calc norm (hash_nodes head)" using ok by (simp add: hash_ok_def)
  have len: "length (table head) = 2 ^ k" "k \<le> 64" using k by (simp_all add: slots_ok_def)
  have "length (hash_nodes head) \<le> 2 ^ k div 2"
    using ok unat_max_load [of k] k(1,2) by (auto simp: hash_ok_def word_le_nat_alt)
  moreover have "(2::nat) ^ k div 2 < 2 ^ k" by simp
  ultimately have "length (hash_nodes head) < 2 ^ k" by linarith
  then have room: "None \<in> set (table head)"
    using len by (intro room) (simp add: hash_nodes_def)
  let ?match = "\<lambda>np. calc key = nd_hash np \<and> cmp key (nd_key np) = 0"
  obtain n p where p: "hash_probe ?match (table head) (hash_inc (calc key) (2 ^ k - 1)) (2 ^ k - 1)
      (length (table head)) (hash_pos (calc key) (2 ^ k - 1)) = Inr (table head ! slot k (calc key) n, p)"
    "unat p = slot k (calc key) n" "n < 2 ^ k" "probe_stops ?match (table head) (slot k (calc key) n)"
    "\<And>i. i < n \<Longrightarrow> \<not> probe_stops ?match (table head) (slot k (calc key) i)"
    by (rule hash_probe_found [OF len room]) blast
  have e: "hash_find_by calc cmp head key =
      (case table head ! slot k (calc key) n of
         Some np \<Rightarrow> Inr (Inl (nd_data np)) | None \<Rightarrow> Inr (Inr \<lparr>ins_hash = calc key, ins_where = p\<rparr>))"
    using p(1) by (simp add: hash_find_by_def Let_def hash_mask_def k(2))
  have match: "?match nd \<longleftrightarrow> norm (nd_key nd) = norm key" if "nd \<in> set (hash_nodes head)" for nd
  proof -
    have nd: "nd_hash nd = calc (nd_key nd)" "cstring (nd_key nd)" using that no by (auto simp: nodes_ok_def)
    show ?thesis unfolding nd(1) cmp_eq [OF key nd(2)] using calc_norm [OF key nd(2)] by auto
  qed
  show ?thesis
  proof (cases "table head ! slot k (calc key) n")
    case (Some np)
    then have "?match np" using p(4) by (simp add: probe_stops_def)
    moreover have "np \<in> set (hash_nodes head)"
      unfolding hash_nodes_def set_filled using Some len(1) nth_mem [of "slot k (calc key) n" "table head"] by simp
    ultimately have "norm (nd_key np) = norm key \<and> np \<in> set (hash_nodes head)" using match by blast
    with match have "hash_map norm head (norm key) = Some (nd_data np)"
      using map_of_nodes [OF no] by (auto simp: hash_map_def)
    then show ?thesis using e Some by simp
  next
    case None
    have "nd \<notin> set (hash_nodes head)" if "norm (nd_key nd) = norm key" for nd
    proof
      assume nd: "nd \<in> set (hash_nodes head)"
      then obtain q where q: "q < 2 ^ k" "table head ! q = Some nd"
        using len(1) by (auto simp: hash_nodes_def set_filled in_set_conv_nth)
      have m: "?match nd" using match [OF nd] that by simp
      then obtain j where j: "q = slot k (calc key) j" "\<forall>i < j. table head ! slot k (calc key) i \<noteq> None"
        using k(3) q len(1) by (auto simp: slots_ok_def reach_def)
      have "\<not> n < j" using j(2) None by auto
      moreover have "\<not> j < n" using p(5) [of j] q(2) m by (auto simp: j(1) probe_stops_def)
      ultimately have "j = n" by simp
      with j q None show False by simp
    qed
    then have "hash_map norm head (norm key) = None"
      by (auto simp: hash_map_def map_of_eq_None_iff)
    moreover have some: "\<forall>i < n. table head ! slot k (calc key) i \<noteq> None" using p(5) probe_runs by blast
    moreover have "insert_ok (calc key) head \<lparr>ins_hash = calc key, ins_where = p\<rparr>"
      unfolding insert_ok_def hash_insert.simps using k p(2,3) None some
      by (intro conjI exI [of _ k] exI [of _ n]) simp_all
    ultimately show ?thesis using e None by simp
  qed
qed

end

interpretation hash_exact: hash_keys strcmp "\<lambda>s. s" hash_calc
  by unfold_locales simp

interpretation hash_nocase: hash_keys nasm_stricmp "map nasm_tolower" hash_calci
proof
  fix s t assume "cstring s" "cstring t" "map nasm_tolower s = map nasm_tolower t"
  then show "hash_calci s = hash_calci t"
    using crc64i_lower [of s CRC64_INIT] crc64i_lower [of t CRC64_INIT] by (simp add: hash_calci_def)
qed

section \<open>Clients\<close>

text \<open>How every client enters a key: look it up, and add it if it is new.\<close>

definition hash_intern ::
    "(bytes \<Rightarrow> u64) \<Rightarrow> (bytes \<Rightarrow> bytes \<Rightarrow> int) \<Rightarrow> 'v hash_table \<Rightarrow> bytes \<times> 'v \<Rightarrow> 'v hash_table result" where
  "hash_intern calc cmp head kv =
     andthen (hash_find_by calc cmp head (fst kv)) (\<lambda>r. case r of
         Inl d \<Rightarrow> Inr head
       | Inr hi \<Rightarrow> andthen (hash_add head hi (fst kv) (snd kv)) (\<lambda>r. Inr (snd r)))"

text \<open>The first binding of every key.\<close>

fun first_bindings :: "(bytes \<Rightarrow> bytes) \<Rightarrow> (bytes \<Rightarrow> 'v option) \<Rightarrow> (bytes \<times> 'v) list \<Rightarrow> bytes \<Rightarrow> 'v option" where
  "first_bindings norm m [] = m"
| "first_bindings norm m ((k, v) # kvs) =
     first_bindings norm (if m (norm k) = None then m(norm k \<mapsto> v) else m) kvs"

context hash_keys
begin

lemma intern_ok:
  assumes "hash_ok calc norm head" and "cstring (fst kv)" and "unat (tsize head) < 2 ^ 62"
  shows "\<exists>head'. hash_intern calc cmp head kv = Inr head' \<and> hash_ok calc norm head' \<and>
    hash_map norm head' = first_bindings norm (hash_map norm head) [kv] \<and>
    unat (tsize head') \<le> max (unat (tsize head)) (4 * length (hash_nodes head')) \<and>
    length (hash_nodes head') \<le> Suc (length (hash_nodes head))"
proof (cases "hash_map norm head (norm (fst kv))")
  case None
  with find_ok [OF assms(1,2)] obtain hi where
    "hash_find_by calc cmp head (fst kv) = Inr (Inr hi)" "insert_ok (calc (fst kv)) head hi" by auto
  with hash_add_ok [OF assms(1,3) this(2) assms(2) None, of "snd kv"] None show ?thesis
    by (cases kv) (auto simp: hash_intern_def)
next
  case (Some d)
  with find_ok [OF assms(1,2)] assms(1) show ?thesis by (cases kv) (auto simp: hash_intern_def)
qed

lemma interns_ok:
  "hash_ok calc norm head \<Longrightarrow> \<forall>kv \<in> set kvs. cstring (fst kv) \<Longrightarrow>
   max (unat (tsize head)) (4 * (length (hash_nodes head) + length kvs)) < 2 ^ 62 \<Longrightarrow>
   \<exists>head'. steps (hash_intern calc cmp) head kvs = Inr head' \<and> hash_ok calc norm head' \<and>
     hash_map norm head' = first_bindings norm (hash_map norm head) kvs"
proof (induction kvs arbitrary: head)
  case (Cons kv kvs)
  have "cstring (fst kv)" "unat (tsize head) < 2 ^ 62" using Cons.prems(2,3) by auto
  from intern_ok [OF Cons.prems(1) this] obtain h1 where
    h1: "hash_intern calc cmp head kv = Inr h1" "hash_ok calc norm h1"
    "hash_map norm h1 = first_bindings norm (hash_map norm head) [kv]"
    "unat (tsize h1) \<le> max (unat (tsize head)) (4 * length (hash_nodes h1))"
    "length (hash_nodes h1) \<le> Suc (length (hash_nodes head))" by blast
  have "max (unat (tsize h1)) (4 * (length (hash_nodes h1) + length kvs)) < 2 ^ 62"
    using h1(4,5) Cons.prems(3) by (auto simp: le_max_iff_disj)
  from Cons.IH [OF h1(2) _ this] Cons.prems(2) h1(1,3) show ?case by (cases kv) auto
qed auto

end

lemma hash_init_small: "\<exists>head. hash_init (2 ^ 2) = Inr head \<and> hash_ok calc norm head \<and>
    hash_nodes head = [] \<and> tsize head = 2 ^ 2"
  by (rule hash_init_ok) simp

lemma small_table:
  obtains head :: "'v hash_table" where "hash_init 4 = Inr head" "hash_ok hash_calc (\<lambda>s. s) head"
    "hash_ok hash_calci (map nasm_tolower) head" "hash_map norm head = (\<lambda>_. None)" "tsize head = 4"
proof -
  obtain head :: "'v hash_table" where h: "hash_init (2 ^ 2) = Inr head" "hash_ok hash_calc (\<lambda>s. s) head"
    "hash_nodes head = []" "tsize head = 2 ^ 2"
    using hash_init_small by blast
  obtain head' :: "'v hash_table" where "hash_init (2 ^ 2) = Inr head'" "hash_ok hash_calci (map nasm_tolower) head'"
    using hash_init_small by blast
  with h that [of head] show thesis by (simp add: hash_map_def)
qed

section \<open>Properties\<close>

text \<open>
  Look-up in a well-formed table always ends without leaving it, and finds the data exactly of the
  keys that compare equal (\<open>hash_find\<close>: byte for byte; \<open>hash_findi\<close>: up to case); otherwise it
  returns a place to insert.
\<close>

theorem hash_find_correct:
  assumes "hash_ok hash_calc (\<lambda>s. s) head" and "hash_ok hash_calci (map nasm_tolower) headi" and "cstring key"
  shows "(case hash_map (\<lambda>s. s) head key of
      Some d \<Rightarrow> hash_find head key = Inr (Inl d)
    | None \<Rightarrow> \<exists>hi. hash_find head key = Inr (Inr hi) \<and> insert_ok (hash_calc key) head hi) \<and>
    (case hash_map (map nasm_tolower) headi (map nasm_tolower key) of
      Some d \<Rightarrow> hash_findi headi key = Inr (Inl d)
    | None \<Rightarrow> \<exists>hi. hash_findi headi key = Inr (Inr hi) \<and> insert_ok (hash_calci key) headi hi)"
  using hash_exact.find_ok [OF assms(1,3)] hash_nocase.find_ok [OF assms(2,3)]
  unfolding hash_find_def hash_findi_def by (rule conjI)

theorem hash_find_correct_witness:
  "\<exists>head hi. hash_init 4 = Inr (head :: nat hash_table) \<and> hash_find head [0x61] = Inr (Inr hi)"
proof (rule small_table)
  fix head :: "nat hash_table"
  assume h: "hash_init 4 = Inr head" "hash_ok hash_calc (\<lambda>s. s) head"
    "hash_ok hash_calci (map nasm_tolower) head" "hash_map (\<lambda>s. s) head = (\<lambda>_. None)"
  with hash_find_correct [of head head "[0x61]"] show ?thesis by (auto simp: cstring_def)
qed

text \<open>
  Inserting at the place look-up returned, with the table doubled and every node moved when it gets
  half full, keeps the table well-formed and adds exactly the new binding.
\<close>

theorem hash_add_correct:
  assumes "hash_ok hash_calc (\<lambda>s. s) head" and "unat (tsize head) < 2 ^ 62" and "cstring key"
    and "hash_find head key = Inr (Inr hi)"
  shows "\<exists>p head'. hash_add head hi key d = Inr (p, head') \<and> hash_ok hash_calc (\<lambda>s. s) head' \<and>
    hash_map (\<lambda>s. s) head' = (hash_map (\<lambda>s. s) head)(key \<mapsto> d) \<and>
    map_option nd_data (table head' ! unat p) = Some d"
proof -
  have n: "hash_map (\<lambda>s. s) head key = None" "insert_ok (hash_calc key) head hi"
    using hash_exact.find_ok [OF assms(1,3)] assms(4)
    by (auto simp: hash_find_def split: option.splits)
  from hash_add_ok [OF assms(1,2) n(2) assms(3) n(1), of d] show ?thesis by auto
qed

theorem hash_add_correct_witness:
  "\<exists>head hi p head'. hash_init 4 = Inr (head :: nat hash_table) \<and> hash_find head [0x61] = Inr (Inr hi) \<and>
    hash_add head hi [0x61] 7 = Inr (p, head') \<and> hash_map (\<lambda>s. s) head' = [[0x61] \<mapsto> 7]"
proof (rule small_table)
  fix head :: "nat hash_table"
  assume h: "hash_init 4 = Inr head" "hash_ok hash_calc (\<lambda>s. s) head"
    "hash_map (\<lambda>s. s) head = (\<lambda>_. None)" "tsize head = 4"
  have c: "cstring [0x61]" by (simp add: cstring_def)
  with hash_exact.find_ok [OF h(2)] h(3) obtain hi where hi: "hash_find head [0x61] = Inr (Inr hi)"
    by (fastforce simp: hash_find_def)
  have "unat (tsize head) < 2 ^ 62" by (simp add: h(4))
  from hash_add_correct [OF h(2) this c hi, of 7] h(1,3) hi show ?thesis by auto
qed

text \<open>
  C11. From a fresh table of any power of two of slots, entering any sequence of keys the way the
  clients do binds every key to its first data, for either key discipline.
\<close>

theorem hash_intern_sequence:
  fixes kvs :: "(bytes \<times> 'v) list"
  assumes "k \<le> 61" and "length kvs < 2 ^ 59" and "\<forall>kv \<in> set kvs. cstring (fst kv)"
  shows "\<exists>h0 h hi. hash_init (2 ^ k) = Inr h0 \<and>
    steps (hash_intern hash_calc strcmp) h0 kvs = Inr h \<and>
    hash_map (\<lambda>s. s) h = first_bindings (\<lambda>s. s) (\<lambda>_. None) kvs \<and>
    steps (hash_intern hash_calci nasm_stricmp) h0 kvs = Inr hi \<and>
    hash_map (map nasm_tolower) hi = first_bindings (map nasm_tolower) (\<lambda>_. None) kvs"
proof -
  have k: "k \<le> 62" using assms(1) by simp
  obtain h0 :: "'v hash_table" where h0: "hash_init (2 ^ k) = Inr h0" "hash_nodes h0 = []" "tsize h0 = 2 ^ k"
    "hash_ok hash_calc (\<lambda>s. s) h0"
    using hash_init_ok [OF k] by blast
  obtain h1 :: "'v hash_table" where "hash_init (2 ^ k) = Inr h1" "hash_ok hash_calci (map nasm_tolower) h1"
    using hash_init_ok [OF k] by blast
  then have "hash_ok hash_calci (map nasm_tolower) h0" using h0(1) by simp
  moreover have "(2 :: nat) ^ k \<le> 2 ^ 61" using assms(1) by (intro power_increasing) auto
  then have "max (unat (tsize h0)) (4 * (length (hash_nodes h0) + length kvs)) < 2 ^ 62"
    using assms(1,2) by (simp add: h0(2,3) unat_two_pow)
  moreover have "hash_map norm h0 = (\<lambda>_. None)" for norm by (simp add: hash_map_def h0(2))
  ultimately show ?thesis
    using hash_exact.interns_ok [OF h0(4) assms(3)] hash_nocase.interns_ok [of h0 kvs] assms(3) h0(1) by auto
qed

theorem hash_intern_sequence_witness:
  "\<exists>h0 h hi. hash_init 4 = Inr (h0 :: nat hash_table) \<and>
    steps (hash_intern hash_calc strcmp) h0 [([0x61], 1), ([0x41], 2)] = Inr h \<and>
    hash_map (\<lambda>s. s) h [0x41] = Some 2 \<and>
    steps (hash_intern hash_calci nasm_stricmp) h0 [([0x61], 1), ([0x41], 2)] = Inr hi \<and>
    hash_map (map nasm_tolower) hi [0x61] = Some 1"
proof -
  have "\<forall>kv \<in> set [([0x61 :: u8], 1 :: nat), ([0x41], 2)]. cstring (fst kv)" by (simp add: cstring_def)
  from hash_intern_sequence [OF _ _ this, of 2] show ?thesis
    by (fastforce simp: nasm_tolower_eq tolower_def isupper_def)
qed

end
