(* ===== verification/StrTbl.thy ===== *)
theory StrTbl
  imports HashTbl
begin

text \<open>
  The string table of \<open>output/strtbl.c\<close>, which the ELF and Mach-O back ends write their symbol and
  section names with: strings are entered once, and have fixed offsets in the generated image.
\<close>

section \<open>Model\<close>

record strtbl_entry =
  se_index :: nat
  se_bytes :: nat
  se_str :: bytes

record nasm_strtbl =
  st_size :: nat
  st_hash :: "strtbl_entry hash_table"

definition STRTBL_NONE :: nat where "STRTBL_NONE = 2 ^ 64 - 1"

definition strtbl_add :: "nasm_strtbl \<Rightarrow> bytes \<Rightarrow> (nat \<times> nasm_strtbl) result" where
  "strtbl_add tbl str =
     andthen (hash_find (st_hash tbl) str) (\<lambda>sep. case sep of
         Inl se \<Rightarrow> Inr (se_index se, tbl)
       | Inr hi \<Rightarrow>
           let nbytes = length str + 1;
               se = \<lparr>se_index = st_size tbl, se_bytes = nbytes, se_str = str\<rparr>;
               tbl = tbl\<lparr>st_size := st_size tbl + nbytes\<rparr>
           in andthen (hash_add (st_hash tbl) hi (se_str se) se) (\<lambda>(slot, h).
                Inr (se_index se, tbl\<lparr>st_hash := h\<rparr>)))"

definition strtbl_init :: "nasm_strtbl result" where
  "strtbl_init =
     andthen (hash_init HASH_LARGE) (\<lambda>h.
     andthen (strtbl_add \<lparr>st_size = 0, st_hash = h\<rparr> []) (\<lambda>(i, tbl). Inr tbl))"

definition strtbl_find :: "nasm_strtbl \<Rightarrow> bytes \<Rightarrow> nat result" where
  "strtbl_find tbl str =
     andthen (hash_find (st_hash tbl) str) (\<lambda>sep. case sep of
         Inl se \<Rightarrow> Inr (se_index se)
       | Inr hi \<Rightarrow> Inr STRTBL_NONE)"

text \<open>\<open>memcpy\<close> of one entry, terminator included, into the image.\<close>

definition strtbl_copy :: "u8 option list \<Rightarrow> strtbl_entry \<Rightarrow> u8 option list result" where
  "strtbl_copy buf se =
     guard (se_index se + se_bytes se \<le> length buf \<and> se_bytes se \<le> length (se_str se) + 1) OutOfBounds
       (Inr (splice_at (se_index se) (map Some (take (se_bytes se) (se_str se @ [0]))) buf))"

definition strtbl_generate :: "nasm_strtbl \<Rightarrow> u8 option list result" where
  "strtbl_generate tbl =
     steps strtbl_copy (replicate (st_size tbl) None) (map snd (hash_members (st_hash tbl) None))"

definition strtbl_free :: "nasm_strtbl \<Rightarrow> nasm_strtbl" where
  "strtbl_free tbl = tbl\<lparr>st_hash := snd (hash_free_all (st_hash tbl))\<rparr>"

section \<open>The table as a list of strings\<close>

definition table_image :: "bytes list \<Rightarrow> bytes" where
  "table_image ss = concat (map (\<lambda>s. s @ [0]) ss)"

fun layout :: "nat \<Rightarrow> bytes list \<Rightarrow> (bytes \<times> strtbl_entry) list" where
  "layout off [] = []"
| "layout off (s # ss) =
     (s, \<lparr>se_index = off, se_bytes = length s + 1, se_str = s\<rparr>) # layout (off + length s + 1) ss"

definition strtbl_ok :: "nasm_strtbl \<Rightarrow> bytes list \<Rightarrow> bool" where
  "strtbl_ok tbl ss \<longleftrightarrow> distinct ss \<and> (\<forall>s \<in> set ss. cstring s) \<and> st_size tbl = length (table_image ss) \<and>
     hash_ok hash_calc (\<lambda>s. s) (st_hash tbl) \<and> hash_map (\<lambda>s. s) (st_hash tbl) = map_of (layout 0 ss) \<and>
     unat (tsize (st_hash tbl)) \<le> max 256 (4 * length ss) \<and> length (hash_nodes (st_hash tbl)) = length ss"

lemma table_image_snoc [simp]: "table_image (ss @ [s]) = table_image ss @ s @ [0]"
  by (simp add: table_image_def)

lemma layout_append: "layout off (xs @ ys) = layout off xs @ layout (off + length (table_image xs)) ys"
  by (induction xs arbitrary: off) (simp_all add: table_image_def ac_simps)

lemma dom_layout: "fst ` set (layout off ss) = set ss"
  by (induction ss arbitrary: off) auto

lemma distinct_layout: "map fst (layout off ss) = ss"
  by (induction ss arbitrary: off) auto

lemma layout_index: "(s, se) \<in> set (layout off ss) \<Longrightarrow> \<exists>xs ys. ss = xs @ s # ys \<and>
    se = \<lparr>se_index = off + length (table_image xs), se_bytes = length s + 1, se_str = s\<rparr>"
proof (induction ss arbitrary: off)
  case (Cons a ss)
  show ?case
  proof (cases "(s, se) \<in> set (layout (off + length a + 1) ss)")
    case True
    from Cons.IH [OF this] obtain xs ys where "ss = xs @ s # ys"
      "se = \<lparr>se_index = off + length a + 1 + length (table_image xs), se_bytes = length s + 1, se_str = s\<rparr>" by blast
    then show ?thesis by (intro exI [of _ "a # xs"] exI [of _ ys]) (simp add: table_image_def)
  next
    case False
    with Cons.prems show ?thesis by (intro exI [of _ "[]"] exI [of _ ss]) (auto simp: table_image_def)
  qed
qed simp

definition abs_add :: "bytes list \<Rightarrow> bytes \<Rightarrow> bytes list" where
  "abs_add ss s = (if s \<in> set ss then ss else ss @ [s])"

definition offset_of :: "bytes list \<Rightarrow> bytes \<Rightarrow> nat" where
  "offset_of ss s = length (table_image (takeWhile (\<lambda>x. x \<noteq> s) ss))"

lemma layout_lookup:
  "distinct ss \<Longrightarrow> map_of (layout 0 ss) s =
    (if s \<in> set ss then Some \<lparr>se_index = offset_of ss s, se_bytes = length s + 1, se_str = s\<rparr> else None)"
proof -
  assume d: "distinct ss"
  show ?thesis
  proof (cases "s \<in> set ss")
    case True
    then obtain se where se: "map_of (layout 0 ss) s = Some se"
      using dom_layout [of 0 ss] by (metis map_of_eq_None_iff not_Some_eq)
    then obtain xs ys where x: "ss = xs @ s # ys"
      "se = \<lparr>se_index = length (table_image xs), se_bytes = length s + 1, se_str = s\<rparr>"
      using layout_index [OF map_of_SomeD] by fastforce
    then have "takeWhile (\<lambda>x. x \<noteq> s) ss = xs" using d by (auto simp: takeWhile_append)
    with x se True show ?thesis by (simp add: offset_of_def)
  next
    case False
    then show ?thesis using dom_layout [of 0 ss] by (simp add: map_of_eq_None_iff)
  qed
qed

lemma offset_add: "s \<in> set ss \<Longrightarrow> offset_of (abs_add ss x) s = offset_of ss s"
  by (auto simp: offset_of_def abs_add_def takeWhile_append1)

lemma strtbl_find_cases:
  assumes "strtbl_ok tbl ss" and "cstring s"
  shows "if s \<in> set ss
     then hash_find (st_hash tbl) s = Inr (Inl \<lparr>se_index = offset_of ss s, se_bytes = length s + 1, se_str = s\<rparr>)
     else \<exists>hi. hash_find (st_hash tbl) s = Inr (Inr hi) \<and> insert_ok (hash_calc s) (st_hash tbl) hi"
  using assms hash_exact.find_ok [of "st_hash tbl" s] layout_lookup [of ss s]
  by (auto simp: strtbl_ok_def hash_find_def split: if_splits)

lemma strtbl_add_ok:
  assumes ok: "strtbl_ok tbl ss" and s: "cstring s" and small: "length ss < 2 ^ 59"
  shows "\<exists>tbl'. strtbl_add tbl s = Inr (offset_of (abs_add ss s) s, tbl') \<and> strtbl_ok tbl' (abs_add ss s)"
proof (cases "s \<in> set ss")
  case True
  with strtbl_find_cases [OF ok s] ok show ?thesis by (simp add: strtbl_add_def abs_add_def)
next
  case False
  let ?se = "\<lparr>se_index = st_size tbl, se_bytes = length s + 1, se_str = s\<rparr>"
  from False strtbl_find_cases [OF ok s] obtain hi where
    hi: "hash_find (st_hash tbl) s = Inr (Inr hi)" "insert_ok (hash_calc s) (st_hash tbl) hi" by auto
  have h: "hash_ok hash_calc (\<lambda>s. s) (st_hash tbl)" "unat (tsize (st_hash tbl)) < 2 ^ 62"
    "hash_map (\<lambda>s. s) (st_hash tbl) s = None"
    using ok small False layout_lookup [of ss s] by (auto simp: strtbl_ok_def)
  obtain p h' where a: "hash_add (st_hash tbl) hi s ?se = Inr (p, h')" "hash_ok hash_calc (\<lambda>s. s) h'"
    "hash_map (\<lambda>s. s) h' = (hash_map (\<lambda>s. s) (st_hash tbl))(s \<mapsto> ?se)"
    "unat (tsize h') \<le> max (unat (tsize (st_hash tbl))) (4 * length (hash_nodes h'))"
    "length (hash_nodes h') = Suc (length (hash_nodes (st_hash tbl)))"
    using hash_add_ok [OF h(1,2) hi(2) s, of ?se] h(3) by blast
  have "takeWhile (\<lambda>x. x \<noteq> s) (ss @ [s]) = ss @ takeWhile (\<lambda>x. x \<noteq> s) [s]"
    using False by (intro takeWhile_append2) auto
  then have e: "offset_of (ss @ [s]) s = st_size tbl"
    using ok by (simp add: offset_of_def strtbl_ok_def)
  define tbl' where "tbl' = tbl\<lparr>st_size := st_size tbl + (length s + 1), st_hash := h'\<rparr>"
  have d: "distinct (ss @ [s])" "distinct ss" using False ok by (simp_all add: strtbl_ok_def)
  have m: "map_of (layout 0 (ss @ [s])) = (map_of (layout 0 ss))(s \<mapsto> ?se)"
    using layout_lookup [OF d(1)] layout_lookup [OF d(2)] e offset_add [of _ ss s] False
    by (intro ext) (auto simp: abs_add_def)
  have "strtbl_ok tbl' (ss @ [s])"
    using ok s False a(2-5) d m by (auto simp: strtbl_ok_def tbl'_def)
  moreover have "strtbl_add tbl s = Inr (offset_of (ss @ [s]) s, tbl')"
    using hi(1) a(1) by (simp add: strtbl_add_def Let_def e tbl'_def)
  ultimately show ?thesis using False by (simp add: abs_add_def)
qed

lemma strtbl_init_ok: "\<exists>tbl. strtbl_init = Inr tbl \<and> strtbl_ok tbl [[]]"
proof -
  obtain h :: "strtbl_entry hash_table" where h: "hash_init (2 ^ 8) = Inr h" "hash_ok hash_calc (\<lambda>s. s) h"
    "hash_nodes h = []" "tsize h = 2 ^ 8"
    using hash_init_ok [of 8 hash_calc "\<lambda>s. s", where 'a = strtbl_entry] by auto
  then have "strtbl_ok \<lparr>st_size = 0, st_hash = h\<rparr> []"
    by (simp add: strtbl_ok_def table_image_def hash_map_def)
  from strtbl_add_ok [OF this, of "[]"] h(1) show ?thesis
    by (auto simp: strtbl_init_def HASH_LARGE_def abs_add_def cstring_def)
qed

section \<open>The image\<close>

lemma iterate_loop_next:
  "case filled slots of
     [] \<Rightarrow> iterate_loop slots np = None
   | nd # nds \<Rightarrow> \<exists>i. iterate_loop slots np = Some ((nd_key nd, nd_data nd), i) \<and> np < i \<and>
       filled (drop (i - np) slots) = nds"
proof (induction slots np rule: iterate_loop.induct)
  case (3 slots np)
  show ?case
  proof (cases "filled slots")
    case (Cons nd nds)
    with 3 obtain i where "iterate_loop slots (np + 1) = Some ((nd_key nd, nd_data nd), i)" "np + 1 < i"
      "filled (drop (i - (np + 1)) slots) = nds" by auto
    moreover from this have "i - np = Suc (i - (np + 1))" by simp
    ultimately show ?thesis using Cons by auto
  qed (use 3 in simp)
qed auto

lemma hash_members_filled:
  "hash_members head iter = map (\<lambda>nd. (nd_key nd, nd_data nd)) (filled (drop (case iter of None \<Rightarrow> 0 | Some i \<Rightarrow> i) (table head)))"
proof (induction head iter rule: hash_members.induct)
  case (1 head iter)
  let ?i = "case iter of None \<Rightarrow> 0 | Some i \<Rightarrow> i"
  have it: "hash_iterate head iter = iterate_loop (drop ?i (table head)) ?i" by (simp add: hash_iterate_def Let_def)
  show ?case
  proof (cases "filled (drop ?i (table head))")
    case Nil
    with iterate_loop_next [of "drop ?i (table head)" ?i] it have "hash_iterate head iter = None" by simp
    with Nil show ?thesis by (simp add: hash_members.simps)
  next
    case (Cons nd nds)
    with iterate_loop_next [of "drop ?i (table head)" ?i] it obtain j where
      j: "hash_iterate head iter = Some ((nd_key nd, nd_data nd), j)" "?i < j"
        "filled (drop (j - ?i) (drop ?i (table head))) = nds" by auto
    then have "filled (drop j (table head)) = nds" by (simp only: drop_drop) simp
    with 1 [OF j(1) refl] Cons j(1) show ?thesis by (subst hash_members.simps) simp
  qed
qed

lemma table_image_split: "table_image (xs @ s # ys) = table_image xs @ (s @ [0]) @ table_image ys"
  by (simp add: table_image_def)

lemma table_image_cover:
  "p < length (table_image ss) \<Longrightarrow> \<exists>xs s ys. ss = xs @ s # ys \<and> length (table_image xs) \<le> p \<and>
     p < length (table_image xs) + length s + 1"
proof (induction ss rule: rev_induct)
  case (snoc s ss)
  show ?case
  proof (cases "p < length (table_image ss)")
    case True
    from snoc.IH [OF True] obtain xs x ys where "ss = xs @ x # ys" "length (table_image xs) \<le> p"
      "p < length (table_image xs) + length x + 1" by blast
    then show ?thesis by (intro exI [of _ xs] exI [of _ x] exI [of _ "ys @ [s]"]) simp
  next
    case False
    with snoc.prems show ?thesis by (intro exI [of _ ss] exI [of _ s] exI [of _ "[]"]) simp
  qed
qed (simp add: table_image_def)

text \<open>A partly written image: every byte is right or not yet written.\<close>

definition part_of :: "bytes \<Rightarrow> u8 option list \<Rightarrow> bool" where
  "part_of img buf \<longleftrightarrow> length buf = length img \<and> (\<forall>p < length img. buf ! p = None \<or> buf ! p = Some (img ! p))"

lemma strtbl_copy_ok:
  assumes "part_of (table_image (xs @ s # ys)) buf"
  shows "\<exists>buf'. strtbl_copy buf \<lparr>se_index = length (table_image xs), se_bytes = length s + 1, se_str = s\<rparr> = Inr buf' \<and>
    part_of (table_image (xs @ s # ys)) buf' \<and> (\<forall>p < length buf. buf ! p \<noteq> None \<longrightarrow> buf' ! p \<noteq> None) \<and>
    (\<forall>p. length (table_image xs) \<le> p \<longrightarrow> p < length (table_image xs) + length s + 1 \<longrightarrow> buf' ! p \<noteq> None)"
proof -
  let ?i = "length (table_image xs)" and ?w = "map Some (s @ [0])"
  let ?b = "splice_at ?i ?w buf"
  have len: "length buf = ?i + length s + 1 + length (table_image ys)"
    using assms by (simp add: part_of_def table_image_split)
  have nth: "?b ! p = (if ?i \<le> p \<and> p < ?i + length s + 1 then ?w ! (p - ?i) else buf ! p)" if "p < length buf" for p
    using that len by (auto simp: splice_at_def nth_append min_def)
  have img: "table_image (xs @ s # ys) ! p = (s @ [0]) ! (p - ?i)" if "?i \<le> p" "p < ?i + length s + 1" for p
    using that by (simp add: table_image_split nth_append less_diff_conv2)
  have w: "?w ! (p - ?i) = Some ((s @ [0]) ! (p - ?i))" if "?i \<le> p" "p < ?i + length s + 1" for p
    using that by (intro nth_map) auto
  have "strtbl_copy buf \<lparr>se_index = ?i, se_bytes = length s + 1, se_str = s\<rparr> = Inr ?b"
    using len by (simp add: strtbl_copy_def)
  moreover have "part_of (table_image (xs @ s # ys)) ?b"
    unfolding part_of_def
  proof (intro conjI allI impI)
    show "length ?b = length (table_image (xs @ s # ys))" using len by (simp add: table_image_split)
    fix p assume "p < length (table_image (xs @ s # ys))"
    then have p: "p < length buf" using assms by (simp add: part_of_def)
    show "?b ! p = None \<or> ?b ! p = Some (table_image (xs @ s # ys) ! p)"
      unfolding nth [OF p] using img w assms p by (auto simp: part_of_def)
  qed
  moreover have "\<forall>p < length buf. buf ! p \<noteq> None \<longrightarrow> ?b ! p \<noteq> None"
    using nth w by (metis option.distinct(1))
  moreover have "\<forall>p. ?i \<le> p \<longrightarrow> p < ?i + length s + 1 \<longrightarrow> ?b ! p \<noteq> None"
  proof (intro allI impI)
    fix p assume p: "?i \<le> p" "p < ?i + length s + 1"
    then have "p < length buf" using len by linarith
    with nth w p show "?b ! p \<noteq> None" by simp
  qed
  ultimately show ?thesis by blast
qed

lemma strtbl_copies_ok:
  "part_of (table_image ss) buf \<Longrightarrow> \<forall>se \<in> set es. (se_str se, se) \<in> set (layout 0 ss) \<Longrightarrow>
   \<exists>buf'. steps strtbl_copy buf es = Inr buf' \<and> part_of (table_image ss) buf' \<and>
     (\<forall>p < length buf. buf ! p \<noteq> None \<longrightarrow> buf' ! p \<noteq> None) \<and>
     (\<forall>se \<in> set es. \<forall>p. se_index se \<le> p \<longrightarrow> p < se_index se + se_bytes se \<longrightarrow> buf' ! p \<noteq> None)"
proof (induction es arbitrary: buf)
  case (Cons e es)
  have "(se_str e, e) \<in> set (layout 0 ss)" using Cons.prems(2) by simp
  from layout_index [OF this] obtain xs s ys where
    e: "ss = xs @ s # ys" "e = \<lparr>se_index = length (table_image xs), se_bytes = length s + 1, se_str = s\<rparr>" by auto
  from strtbl_copy_ok [of xs s ys buf] Cons.prems(1) e obtain b1 where
    b1: "strtbl_copy buf e = Inr b1" "part_of (table_image ss) b1" "\<forall>p < length buf. buf ! p \<noteq> None \<longrightarrow> b1 ! p \<noteq> None"
      "\<forall>p. se_index e \<le> p \<longrightarrow> p < se_index e + se_bytes e \<longrightarrow> b1 ! p \<noteq> None" by auto
  from Cons.IH [OF b1(2)] Cons.prems(2) obtain b2 where
    b2: "steps strtbl_copy b1 es = Inr b2" "part_of (table_image ss) b2" "\<forall>p < length b1. b1 ! p \<noteq> None \<longrightarrow> b2 ! p \<noteq> None"
      "\<forall>se \<in> set es. \<forall>p. se_index se \<le> p \<longrightarrow> p < se_index se + se_bytes se \<longrightarrow> b2 ! p \<noteq> None" by auto
  have l: "length b1 = length buf" "se_index e + se_bytes e \<le> length b1"
    using b1(2) Cons.prems(1) e by (simp_all add: part_of_def table_image_split)
  with b1 b2 show ?case by (intro exI [of _ b2]) auto
qed simp

lemma strtbl_generate_ok:
  assumes "strtbl_ok tbl ss"
  shows "strtbl_generate tbl = Inr (map Some (table_image ss))"
proof -
  have h: "hash_ok hash_calc (\<lambda>s. s) (st_hash tbl)" "hash_map (\<lambda>s. s) (st_hash tbl) = map_of (layout 0 ss)"
    "st_size tbl = length (table_image ss)" "distinct ss" using assms by (auto simp: strtbl_ok_def)
  define es where "es = map snd (hash_members (st_hash tbl) None)"
  have es: "es = map nd_data (hash_nodes (st_hash tbl))"
    by (simp add: es_def hash_members_filled hash_nodes_def comp_def)
  have no: "nodes_ok hash_calc (\<lambda>s. s) (hash_nodes (st_hash tbl))" using h(1) by (simp add: hash_ok_def)
  have iff: "(k, se) \<in> set (layout 0 ss) \<longleftrightarrow> (\<exists>nd \<in> set (hash_nodes (st_hash tbl)). nd_key nd = k \<and> nd_data nd = se)" for k se
    using map_of_nodes [OF no, of k se] h(2) map_of_eq_Some_iff [of "layout 0 ss" k se] h(4) distinct_layout [of 0 ss]
    by (simp add: hash_map_def)
  have str: "(k, se) \<in> set (layout 0 ss) \<Longrightarrow> se_str se = k" for k se by (auto dest: layout_index)
  have "part_of (table_image ss) (replicate (st_size tbl) None)" by (simp add: part_of_def h(3))
  moreover have "\<forall>se \<in> set es. (se_str se, se) \<in> set (layout 0 ss)" using iff str unfolding es by fastforce
  ultimately obtain buf where buf: "steps strtbl_copy (replicate (st_size tbl) None) es = Inr buf"
    "part_of (table_image ss) buf"
    "\<forall>se \<in> set es. \<forall>p. se_index se \<le> p \<longrightarrow> p < se_index se + se_bytes se \<longrightarrow> buf ! p \<noteq> None"
    using strtbl_copies_ok by blast
  have "buf ! p = Some (table_image ss ! p)" if p: "p < length (table_image ss)" for p
  proof -
    from table_image_cover [OF p] obtain xs s ys where c: "ss = xs @ s # ys" "length (table_image xs) \<le> p"
      "p < length (table_image xs) + length s + 1" by blast
    have "(s, \<lparr>se_index = length (table_image xs), se_bytes = length s + 1, se_str = s\<rparr>) \<in> set (layout 0 ss)"
      by (simp add: c(1) layout_append)
    then obtain nd where "nd \<in> set (hash_nodes (st_hash tbl))"
      "nd_data nd = \<lparr>se_index = length (table_image xs), se_bytes = length s + 1, se_str = s\<rparr>"
      using iff by blast
    then have "\<lparr>se_index = length (table_image xs), se_bytes = length s + 1, se_str = s\<rparr> \<in> set es"
      unfolding es set_map by (metis imageI)
    with buf(3) c(2,3) have "buf ! p \<noteq> None" by fastforce
    with buf(2) p show ?thesis by (auto simp: part_of_def)
  qed
  then have "buf = map Some (table_image ss)" using buf(2) by (intro nth_equalityI) (simp_all add: part_of_def)
  with buf(1) show ?thesis by (simp add: strtbl_generate_def es_def)
qed

section \<open>Properties\<close>

fun strtbl_adds :: "nasm_strtbl \<Rightarrow> bytes list \<Rightarrow> nasm_strtbl result" where
  "strtbl_adds tbl [] = Inr tbl"
| "strtbl_adds tbl (s # ss) = andthen (strtbl_add tbl s) (\<lambda>(i, tbl). strtbl_adds tbl ss)"

lemma strtbl_adds_ok:
  "strtbl_ok tbl ss \<Longrightarrow> \<forall>s \<in> set ts. cstring s \<Longrightarrow> length ss + length ts < 2 ^ 59 \<Longrightarrow>
   \<exists>tbl'. strtbl_adds tbl ts = Inr tbl' \<and> strtbl_ok tbl' (foldl abs_add ss ts)"
proof (induction ts arbitrary: tbl ss)
  case (Cons t ts)
  from strtbl_add_ok [OF Cons.prems(1), of t] Cons.prems(2,3) obtain tbl1 where
    1: "strtbl_add tbl t = Inr (offset_of (abs_add ss t) t, tbl1)" "strtbl_ok tbl1 (abs_add ss t)" by auto
  have "length (abs_add ss t) + length ts < 2 ^ 59" using Cons.prems(3) by (simp add: abs_add_def)
  from Cons.IH [OF 1(2) _ this] Cons.prems(2) 1(1) show ?case by simp
qed auto

lemma set_abs_adds: "set (foldl abs_add ss ts) = set ss \<union> set ts"
  by (induction ts arbitrary: ss) (auto simp: abs_add_def)

text \<open>
  C12. After any sequence of additions the generated image is the concatenation of the distinct strings,
  each with its terminator, in the order of their first addition behind the empty string; it is
  written completely, no byte outside it; and look-up returns for every string added the offset
  where the image holds it, and \<open>STRTBL_NONE\<close> for any other.
\<close>

theorem strtbl_correct:
  assumes "\<forall>t \<in> set ts. cstring t" and "length ts < 2 ^ 58" and "cstring s"
  shows "\<exists>t0 tbl. strtbl_init = Inr t0 \<and> strtbl_adds t0 ts = Inr tbl \<and>
    (let ss = foldl abs_add [[]] ts; img = table_image ss in
      strtbl_generate tbl = Inr (map Some img) \<and>
      (if s = [] \<or> s \<in> set ts
       then strtbl_find tbl s = Inr (offset_of ss s) \<and> take (length s + 1) (drop (offset_of ss s) img) = s @ [0]
       else strtbl_find tbl s = Inr STRTBL_NONE))"
proof -
  obtain t0 where t0: "strtbl_init = Inr t0" "strtbl_ok t0 [[]]" using strtbl_init_ok by blast
  define ss where "ss = foldl abs_add [[]] ts"
  from strtbl_adds_ok [OF t0(2) assms(1)] assms(2) obtain tbl where
    tbl: "strtbl_adds t0 ts = Inr tbl" "strtbl_ok tbl ss" by (auto simp: ss_def)
  have set: "s \<in> set ss \<longleftrightarrow> s = [] \<or> s \<in> set ts" by (simp add: ss_def set_abs_adds)
  have img: "take (length s + 1) (drop (offset_of ss s) (table_image ss)) = s @ [0]" if "s \<in> set ss"
  proof -
    obtain xs ys where s: "ss = xs @ s # ys" "s \<notin> set xs" using \<open>s \<in> set ss\<close> split_list_first by fast
    have "takeWhile (\<lambda>x. x \<noteq> s) (xs @ s # ys) = xs @ takeWhile (\<lambda>x. x \<noteq> s) (s # ys)"
      by (rule takeWhile_append2) (use s(2) in auto)
    then have "takeWhile (\<lambda>x. x \<noteq> s) ss = xs" by (simp add: s(1))
    then show ?thesis by (simp add: offset_of_def s(1) table_image_split)
  qed
  have "strtbl_find tbl s = Inr (if s \<in> set ss then offset_of ss s else STRTBL_NONE)"
    using strtbl_find_cases [OF tbl(2) assms(3)] by (auto simp: strtbl_find_def split: if_splits)
  with t0(1) tbl strtbl_generate_ok [OF tbl(2)] img set show ?thesis
    by (auto simp: Let_def simp flip: ss_def)
qed

theorem strtbl_correct_witness:
  "\<exists>t0 tbl. strtbl_init = Inr t0 \<and> strtbl_adds t0 [[0x61], [0x62, 0x63], [0x61]] = Inr tbl \<and>
    strtbl_generate tbl = Inr (map Some [0, 0x61, 0, 0x62, 0x63, 0]) \<and> strtbl_find tbl [0x62, 0x63] = Inr 3"
  using strtbl_correct [of "[[0x61], [0x62, 0x63], [0x61]]" "[0x62, 0x63]"]
  by (simp add: cstring_def abs_add_def table_image_def offset_of_def Let_def flip: numeral_3_eq_3)

end
