(* ===== verification/Quote.thy ===== *)
theory Quote
  imports Prelude
begin

text \<open>
  Quoted strings, \<open>asm/quote.c\<close>: choosing quotes and escapes for a byte string, the in-place state
  machine that undoes them, UTF-8 emission for \<open>\u\<close> and \<open>\U\<close>, and finding the end of a string.
\<close>

section \<open>Quoting\<close>

text \<open>
  A \<open>char\<close> is signed: \<open>c < ' ' || c > '~'\<close> holds of the bytes from 128 on. \<open>c1\<close> is the byte
  that follows, or zero at the end.
\<close>

definition q_plain :: "u8 \<Rightarrow> bool" where
  "q_plain c \<longleftrightarrow> \<not> (sint c < 0x20 \<or> 0x7E < sint c)"

definition q_next :: "bytes \<Rightarrow> u8" where
  "q_next rest = (case rest of [] \<Rightarrow> 0 | c1 # _ \<Rightarrow> c1)"

definition q_short :: "u8 \<Rightarrow> u8 option" where
  "q_short c =
     (if c = 7 then Some 0x61 else if c = 8 then Some 0x62 else if c = 9 then Some 0x74
      else if c = 10 then Some 0x6E else if c = 11 then Some 0x76 else if c = 12 then Some 0x66
      else if c = 13 then Some 0x72 else if c = 27 then Some 0x65 else None)"

definition q_uc :: "u8 \<Rightarrow> bytes \<Rightarrow> u8" where
  "q_uc c rest = (if 0x30 \<le> sint (q_next rest) \<and> sint (q_next rest) \<le> 0x37 then 0xFF else c)"

text \<open>The first pass: whether either plain quote will do, and the length with escapes.\<close>

fun quote_scan :: "bytes \<Rightarrow> bool \<times> bool \<times> nat \<Rightarrow> bool \<times> bool \<times> nat" where
  "quote_scan [] acc = acc"
| "quote_scan (c # rest) (sq_ok, dq_ok, qlen) =
     quote_scan rest
       (if c = 0x27 then (False, dq_ok, qlen + 1)
        else if c = 0x22 then (sq_ok, False, qlen + 1)
        else if c = 0x60 \<or> c = 0x5C then (sq_ok, dq_ok, qlen + 2)
        else if \<not> q_plain c
        then (False, False,
          (if q_short c \<noteq> None then qlen + 2
           else let uc = q_uc c rest
                in qlen + (if 0x3F < uc then 1 else 0) + (if 7 < uc then 1 else 0) + 2))
        else (sq_ok, dq_ok, qlen + 1))"

text \<open>The second pass, in back quotes.\<close>

definition q_escape :: "u8 \<Rightarrow> bytes \<Rightarrow> bytes" where
  "q_escape c rest =
     (if c = 0x60 \<or> c = 0x5C then [0x5C, c]
      else case q_short c of
        Some e \<Rightarrow> [0x5C, e]
      | None \<Rightarrow>
          if \<not> q_plain c
          then let uc = q_uc c rest
               in 0x5C # (if 0x3F < uc then [drop_bit 6 c + 0x30] else []) @
                  (if 7 < uc then [(drop_bit 3 c AND 7) + 0x30] else []) @ [(c AND 7) + 0x30]
          else [c])"

fun quote_body :: "bytes \<Rightarrow> bytes" where
  "quote_body [] = []"
| "quote_body (c # rest) = q_escape c rest @ quote_body rest"

definition nasm_quote :: "bytes \<Rightarrow> bytes result" where
  "nasm_quote str =
     (case quote_scan str (True, True, 0) of
        (sq_ok, dq_ok, qlen) \<Rightarrow>
          if sq_ok \<or> dq_ok
          then (let qc = (if sq_ok then 0x27 else 0x22) in Inr (qc # str @ [qc]))
          else let nstr = 0x60 # quote_body str @ [0x60]
               in guard (length nstr + 1 = qlen + 3) AssertFailed (Inr nstr))"

section \<open>Unquoting\<close>

text \<open>\<open>numvalue\<close> of a hexadecimal digit, and the digit tests.\<close>

definition numvalue :: "u8 \<Rightarrow> int" where
  "numvalue c = (if 0x61 \<le> sint c then sint c - 0x61 + 10
     else if 0x41 \<le> sint c then sint c - 0x41 + 10 else sint c - 0x30)"

definition is_oct :: "u8 \<Rightarrow> bool" where "is_oct c \<longleftrightarrow> 0x30 \<le> sint c \<and> sint c \<le> 0x37"

definition is_hex :: "u8 \<Rightarrow> bool" where
  "is_hex c \<longleftrightarrow> 0x30 \<le> sint c \<and> sint c \<le> 0x39 \<or> 0x41 \<le> sint c \<and> sint c \<le> 0x46 \<or>
     0x61 \<le> sint c \<and> sint c \<le> 0x66"

definition utf8_tail :: "i32 \<Rightarrow> nat \<Rightarrow> u8" where
  "utf8_tail v n = ucast (0x80 OR (drop_bit n v AND 63))"

definition emit_utf8 :: "i32 \<Rightarrow> bytes" where
  "emit_utf8 v =
     (if sint v < 0 then []
      else if sint v \<le> 0x7f then [ucast v]
      else if sint v \<le> 0x7ff then [ucast (0xc0 OR drop_bit 6 v), utf8_tail v 0]
      else if sint v \<le> 0xffff then [ucast (0xe0 OR drop_bit 12 v), utf8_tail v 6, utf8_tail v 0]
      else if sint v \<le> 0x1fffff
        then [ucast (0xf0 OR drop_bit 18 v), utf8_tail v 12, utf8_tail v 6, utf8_tail v 0]
      else if sint v \<le> 0x3ffffff
        then [ucast (0xf8 OR drop_bit 24 v), utf8_tail v 18, utf8_tail v 12, utf8_tail v 6, utf8_tail v 0]
      else [ucast (0xfc OR drop_bit 30 v), utf8_tail v 24, utf8_tail v 18, utf8_tail v 12, utf8_tail v 6,
        utf8_tail v 0])"

text \<open>
  The state machine works in place: the string is read at \<open>p\<close> and overwritten at \<open>q\<close>. \<open>escp\<close> is
  the position behind the escape letter. The value is an \<open>int32_t\<close> that eight hexadecimal
  digits may wrap.
\<close>

datatype unq_state = st_start | st_backslash | st_hex | st_oct | st_ucs

record unq =
  ust :: unq_state
  ndig :: nat
  nval :: i32
  escp :: nat

text \<open>What an escape letter does: the byte it stands for, or the state it opens.\<close>

definition unq_escape :: "u8 \<Rightarrow> nat \<Rightarrow> unq \<times> bytes" where
  "unq_escape c p =
     (let u = \<lparr>ust = st_start, ndig = 0, nval = 0, escp = p\<rparr>
      in if c = 0x61 then (u, [7])
         else if c = 0x62 then (u, [8])
         else if c = 0x65 then (u, [27])
         else if c = 0x66 then (u, [12])
         else if c = 0x6E then (u, [10])
         else if c = 0x72 then (u, [13])
         else if c = 0x74 then (u, [9])
         else if c = 0x75 then (u\<lparr>ust := st_ucs, ndig := 4\<rparr>, [])
         else if c = 0x55 then (u\<lparr>ust := st_ucs, ndig := 8\<rparr>, [])
         else if c = 0x76 then (u, [11])
         else if c = 0x78 \<or> c = 0x58 then (u\<lparr>ust := st_hex, ndig := 2\<rparr>, [])
         else if is_oct c then (u\<lparr>ust := st_oct, ndig := 2, nval := ucast c - 0x30\<rparr>, [])
         else (u, [c]))"

text \<open>What a number stands for when it ends at \<open>p\<close>.\<close>

definition unq_number :: "bytes \<Rightarrow> unq \<Rightarrow> nat \<Rightarrow> bytes" where
  "unq_number str u p =
     (case ust u of
        st_oct \<Rightarrow> [ucast (nval u)]
      | st_hex \<Rightarrow> [if escp u < p then ucast (nval u) else cchar str (escp u - 1)]
      | st_ucs \<Rightarrow> if escp u < p then emit_utf8 (nval u) else [cchar str (escp u - 1)]
      | _ \<Rightarrow> [])"

text \<open>One more digit of it.\<close>

definition unq_digit :: "unq \<Rightarrow> u8 \<Rightarrow> unq option" where
  "unq_digit u c =
     (if ust u = st_oct
      then (if is_oct c then Some (u\<lparr>nval := push_bit 3 (nval u) + word_of_int (sint c - 0x30), ndig := ndig u - 1\<rparr>)
            else None)
      else (if is_hex c then Some (u\<lparr>nval := push_bit 4 (nval u) + word_of_int (numvalue c), ndig := ndig u - 1\<rparr>)
            else None))"

text \<open>One round of the loop: the next position, state and output, or the end at the back quote.\<close>

definition unq_step :: "bytes \<Rightarrow> nat \<Rightarrow> unq \<Rightarrow> (nat \<times> unq \<times> bytes) option" where
  "unq_step str p u =
     (let c = cchar str p
      in case ust u of
           st_start \<Rightarrow>
             if c = 0x5C then Some (p + 1, u\<lparr>ust := st_backslash\<rparr>, [])
             else if c = 0x60 then None
             else Some (p + 1, u, [c])
         | st_backslash \<Rightarrow> (case unq_escape c (p + 1) of (u, out) \<Rightarrow> Some (p + 1, u, out))
         | _ \<Rightarrow>
             (case unq_digit u c of
                Some u' \<Rightarrow>
                  if ndig u' = 0 then Some (p + 1, u'\<lparr>ust := st_start\<rparr>, unq_number str u' (p + 1))
                  else Some (p + 1, u', [])
              | None \<Rightarrow> Some (p, u\<lparr>ust := st_start\<rparr>, unq_number str u p)))"

lemma unq_step_progress:
  "unq_step str p u = Some (p', u', out) \<Longrightarrow>
   p' = p + 1 \<or> p' = p \<and> ust u \<noteq> st_start \<and> ust u' = st_start"
  by (auto simp: unq_step_def Let_def split: if_splits unq_state.splits option.splits prod.splits)

text \<open>
  The loop ends at the null byte or at the back quote, and returns where it read and wrote last.
  A write behind the string would be a fault.
\<close>

function unq_buffer :: "bytes \<Rightarrow> nat \<Rightarrow> nat \<Rightarrow> unq \<Rightarrow> (nat \<times> nat \<times> bytes) result" where
  "unq_buffer buf p q u =
     (if cchar buf p = 0
      then (let out = unq_number buf u p
            in guard (q + length out \<le> length buf) OutOfBounds
                 (Inr (p, q + length out, splice_at q out buf)))
      else case unq_step buf p u of
        None \<Rightarrow> Inr (p, q, buf)
      | Some (p', u', out) \<Rightarrow>
          guard (q + length out \<le> length buf) OutOfBounds
            (unq_buffer (splice_at q out buf) p' (q + length out) u'))"
  by pat_completeness auto
termination
proof (relation "measure (\<lambda>(buf, p, q, u). 2 * (length buf - p) + (if ust u = st_start then 0 else 1))", goal_cases)
  case (2 buf p q u x p' y u' out)
  then have "unq_step buf p u = Some (p', u', out)" "length (splice_at q out buf) = length buf" "p < length buf"
    by (auto simp: cchar_def max_def split: if_splits)
  then show ?case using unq_step_progress [of buf p u p' u' out] by auto
qed simp

text \<open>The same machine with the result collected apart.\<close>

function unq_loop :: "bytes \<Rightarrow> nat \<Rightarrow> unq \<Rightarrow> nat \<times> bytes" where
  "unq_loop str p u =
     (if cchar str p = 0 then (p, unq_number str u p)
      else case unq_step str p u of
        None \<Rightarrow> (p, [])
      | Some (p', u', out) \<Rightarrow> (case unq_loop str p' u' of (q, rest) \<Rightarrow> (q, out @ rest)))"
  by pat_completeness auto
termination
  by (relation "measure (\<lambda>(str, p, u). 2 * (length str - p) + (if ust u = st_start then 0 else 1))")
     (auto dest!: unq_step_progress simp: cchar_def split: if_splits)

declare unq_buffer.simps [simp del] unq_loop.simps [simp del]

text \<open>The plain quotes: the bytes up to the closing quote.\<close>

definition unq_plain :: "u8 \<Rightarrow> bytes \<Rightarrow> bytes" where
  "unq_plain bq s = takeWhile (\<lambda>c. c \<noteq> 0 \<and> c \<noteq> bq) s"

text \<open>The position stored in \<open>*ep\<close>, which an empty string leaves alone, and the bytes.\<close>

definition unq_init :: unq where
  "unq_init = \<lparr>ust = st_start, ndig = 0, nval = 0, escp = 0\<rparr>"

definition nasm_unquote :: "bytes \<Rightarrow> (nat option \<times> bytes) result" where
  "nasm_unquote str =
     (let bq = cchar str 0
      in if bq = 0 then Inr (None, [])
         else if bq = 0x27 \<or> bq = 0x22
         then (let s = unq_plain bq (tl str) in Inr (Some (length s + 1), s))
         else if bq = 0x60
         then andthen (unq_buffer str 1 0 unq_init) (\<lambda>(p, q, buf). Inr (Some p, take q buf))
         else Inr (Some (length str), str))"

section \<open>Skipping\<close>

text \<open>\<open>nasm_skip_string\<close> from position \<open>p\<close> in back quotes; the flag is \<open>st_backslash\<close>.\<close>

function skip_bq :: "bytes \<Rightarrow> nat \<Rightarrow> bool \<Rightarrow> nat" where
  "skip_bq str p backslash =
     (let c = cchar str p
      in if c = 0 then p
         else if backslash then skip_bq str (p + 1) False
         else if c = 0x5C then skip_bq str (p + 1) True
         else if c = 0x60 then p
         else skip_bq str (p + 1) False)"
  by pat_completeness auto
termination
  by (relation "measure (\<lambda>(str, p, b). length str - p)") (auto simp: cchar_def split: if_splits)

declare skip_bq.simps [simp del]

definition nasm_skip_string :: "bytes \<Rightarrow> nat" where
  "nasm_skip_string str =
     (let bq = cchar str 0
      in if bq = 0x27 \<or> bq = 0x22 then length (unq_plain bq (tl str)) + 1
         else if bq = 0x60 then skip_bq str 1 False
         else 0)"

section \<open>Bytes\<close>

lemma u8_less: "unat (c :: u8) < 256"
  using unsigned_less [of c, where 'a = nat] by simp

lemma sint_u8: "sint (c :: u8) = (if unat c < 128 then int (unat c) else int (unat c) - 256)"
proof (cases "0 \<le> sint c")
  case True
  then show ?thesis using sint_nonneg_iff [of c] sint_eq_unat [OF True] by simp
next
  case False
  then show ?thesis using sint_nonneg_iff [of c] by (cases c rule: sint_cases) simp_all
qed

lemma q_plain_iff: "q_plain c \<longleftrightarrow> 32 \<le> unat c \<and> unat c \<le> 126"
  using u8_less [of c] by (auto simp: q_plain_def sint_u8 simp del: of_nat_unat)

lemma is_oct_iff: "is_oct c \<longleftrightarrow> 48 \<le> unat c \<and> unat c \<le> 55"
  using u8_less [of c] by (auto simp: is_oct_def sint_u8 simp del: of_nat_unat)

lemma q_short_cases:
  assumes "q_short c = Some e"
  shows "\<not> q_plain c" "c \<noteq> 0x27" "c \<noteq> 0x22" "c \<noteq> 0x60" "c \<noteq> 0x5C" "e \<noteq> 0"
    "unq_escape e p = (\<lparr>ust = st_start, ndig = 0, nval = 0, escp = p\<rparr>, [c])"
  using assms by (auto simp: q_short_def q_plain_iff unq_escape_def split: if_splits)

lemma quote_scan_eq:
  "quote_scan str (s, d, n) =
     (s \<and> (\<forall>c \<in> set str. q_plain c \<and> c \<noteq> 0x27), d \<and> (\<forall>c \<in> set str. q_plain c \<and> c \<noteq> 0x22),
      n + length (quote_body str))"
proof (induction str arbitrary: s d n)
  case (Cons c rest)
  have "q_short 0x27 = None" "q_short 0x22 = None" "q_plain 0x27" "q_plain 0x22" "q_plain 0x60" "q_plain 0x5C"
    by (simp_all add: q_short_def q_plain_iff)
  moreover have "q_plain c \<Longrightarrow> q_short c = None" using q_short_cases(1) by (cases "q_short c") auto
  ultimately show ?case using Cons.IH by (auto simp: q_escape_def Let_def split: option.splits)
qed simp

section \<open>Undoing the quotes\<close>

lemma oct_digit:
  assumes "unat (x :: u8) < 8"
  shows "unat (x + 0x30) = unat x + 48" "is_oct (x + 0x30)" "x + 0x30 \<noteq> 0"
    "ucast (x + 0x30) - 0x30 = (ucast x :: i32)" "word_of_int (sint (x + 0x30) - 0x30) = (ucast x :: i32)"
proof -
  show u: "unat (x + 0x30) = unat x + 48" using assms by (simp add: unat_word_ariths)
  then show "is_oct (x + 0x30)" using assms by (simp add: is_oct_iff)
  show "x + 0x30 \<noteq> 0" using u by (metis add_is_0 unsigned_0 zero_neq_numeral)
  have "ucast (x + 0x30) = (word_of_nat (unat (x + 0x30)) :: i32)" by simp
  also have "\<dots> = ucast x + 0x30" by (simp only: u of_nat_add) simp
  finally show "ucast (x + 0x30) - 0x30 = (ucast x :: i32)" by simp
  have "sint (x + 0x30) = int (unat x) + 48" using assms by (simp add: sint_u8 u)
  then show "word_of_int (sint (x + 0x30) - 0x30) = (ucast x :: i32)" by simp
qed

lemma not_oct_next:
  assumes "\<not> (0x30 \<le> sint (q_next rest) \<and> sint (q_next rest) \<le> 0x37)"
  shows "\<exists>c' t. quote_body rest @ [0x60] = c' # t \<and> \<not> is_oct c' \<and> c' \<noteq> 0"
proof (cases rest)
  case (Cons c1 r)
  have "\<not> is_oct c1" using assms Cons by (simp add: q_next_def is_oct_def)
  moreover have "\<not> is_oct 0x5C" by (simp add: is_oct_iff)
  moreover have "q_plain c1 \<Longrightarrow> c1 \<noteq> 0" by (auto simp: q_plain_iff)
  ultimately show ?thesis using Cons by (auto simp: q_escape_def Let_def split: option.splits)
qed (simp add: is_oct_iff)

lemma cchar_at [simp]: "cchar (pre @ c # post) (length pre) = c"
  by (simp add: cchar_def nth_append)

text \<open>The loop on the text behind \<open>pre\<close>.\<close>

lemma unq_loop_step:
  assumes "unq_step (pre @ c # post) (length pre) u = Some (length pre + 1, u', out)" and "c \<noteq> 0"
  shows "unq_loop (pre @ c # post) (length pre) u =
    (case unq_loop ((pre @ [c]) @ post) (length (pre @ [c])) u' of (q, rest) \<Rightarrow> (q, out @ rest))"
  using assms by (subst unq_loop.simps) simp

lemma unq_loop_again:
  assumes "unq_step (pre @ c # post) (length pre) u = Some (length pre, u', out)" and "c \<noteq> 0"
  shows "unq_loop (pre @ c # post) (length pre) u =
    (case unq_loop (pre @ c # post) (length pre) u' of (q, rest) \<Rightarrow> (q, out @ rest))"
  using assms by (subst unq_loop.simps) simp

text \<open>The escapes, one by one.\<close>

lemma unq_plain_char:
  assumes "ust u = st_start" "c \<noteq> 0" "c \<noteq> 0x5C" "c \<noteq> 0x60"
  shows "unq_loop (pre @ c # post) (length pre) u =
    (case unq_loop ((pre @ [c]) @ post) (length (pre @ [c])) u of (q, rest) \<Rightarrow> (q, [c] @ rest))"
  using assms by (intro unq_loop_step) (simp_all add: unq_step_def)

lemma unq_backslash:
  assumes "ust u = st_start" "e \<noteq> 0" "unq_escape e (length pre + 2) = (u', out)"
  shows "unq_loop (pre @ 0x5C # e # post) (length pre) u =
    (case unq_loop ((pre @ [0x5C, e]) @ post) (length (pre @ [0x5C, e])) u' of (q, rest) \<Rightarrow> (q, out @ rest))"
proof -
  have "unq_loop (pre @ 0x5C # e # post) (length pre) u =
      unq_loop ((pre @ [0x5C]) @ e # post) (length (pre @ [0x5C])) (u\<lparr>ust := st_backslash\<rparr>)"
    using assms(1) by (subst unq_loop_step) (auto simp: unq_step_def split: prod.splits)
  also have "\<dots> = (case unq_loop (((pre @ [0x5C]) @ [e]) @ post) (length ((pre @ [0x5C]) @ [e])) u' of
      (q, rest) \<Rightarrow> (q, out @ rest))"
    using assms(2,3) cchar_at [of "pre @ [0x5C]" e post] by (intro unq_loop_step) (simp_all add: unq_step_def)
  finally show ?thesis by simp
qed

lemma unq_oct_more:
  assumes "ust u = st_oct" "unat (x :: u8) < 8" "ndig u = Suc n"
  shows "unq_loop (pre @ (x + 0x30) # post) (length pre) u =
    (case unq_loop ((pre @ [x + 0x30]) @ post) (length (pre @ [x + 0x30]))
        (u\<lparr>nval := push_bit 3 (nval u) + ucast x, ndig := n, ust := (if n = 0 then st_start else st_oct)\<rparr>) of
      (q, rest) \<Rightarrow> (q, (if n = 0 then [ucast (push_bit 3 (nval u) + ucast x :: i32)] else []) @ rest))"
  using assms oct_digit [OF assms(2)]
  by (intro unq_loop_step) (auto simp: unq_step_def Let_def unq_digit_def unq_number_def)

lemma unq_oct_end:
  assumes "ust u = st_oct" "\<not> is_oct c" "c \<noteq> 0"
  shows "unq_loop (pre @ c # post) (length pre) u =
    (case unq_loop (pre @ c # post) (length pre) (u\<lparr>ust := st_start\<rparr>) of
      (q, rest) \<Rightarrow> (q, [ucast (nval u)] @ rest))"
  using assms by (intro unq_loop_again) (simp_all add: unq_step_def unq_digit_def unq_number_def)

lemma unat_and_7: "unat (c AND 7 :: u8) = unat c mod 8"
  using unat_and_mask [of c 3] by (simp add: push_bit_eq_mult)

lemma ucast_unat: "(ucast (x :: u8) :: i32) = word_of_nat (unat x)"
  by simp

lemma ucast_nat: "ucast (word_of_nat n :: i32) = (word_of_nat n :: u8)"
  by (simp add: unsigned_of_nat word_of_nat_eq_iff take_bit_eq_mod mod_mod_cancel)

lemma oct_digits: "8 * (8 * (n div 2 ^ 6) + n div 2 ^ 3 mod 8) + n mod 8 = n" for n :: nat
proof -
  have "n div 2 ^ 6 = n div 8 div 8" by (simp add: div_mult2_eq [symmetric])
  then show ?thesis using mult_div_mod_eq [of 8 "n div 8"] mult_div_mod_eq [of 8 n] by simp
qed

lemma oct_value:
  fixes c :: u8
  shows "ucast (push_bit 3 (push_bit 3 (ucast (drop_bit 6 c)) + ucast (drop_bit 3 c AND 7)) + ucast (c AND 7) :: i32) = c"
    and "unat c < 64 \<Longrightarrow> ucast (push_bit 3 (ucast (drop_bit 3 c AND 7)) + ucast (c AND 7) :: i32) = c"
    and "unat c < 8 \<Longrightarrow> ucast (ucast (c AND 7) :: i32) = c"
    and "unat (drop_bit 6 c) < 8" "unat (drop_bit 3 c AND 7) < 8" "unat (c AND 7) < 8"
proof -
  let ?n = "unat c"
  have n: "?n < 256" by (rule u8_less)
  note d = unat_and_7 unat_drop_bit
  show "unat (drop_bit 6 c) < 8" "unat (drop_bit 3 c AND 7) < 8" "unat (c AND 7) < 8"
    using n by (simp_all add: d)
  have p: "push_bit 3 (word_of_nat a :: i32) = word_of_nat (8 * a)" for a
    by (simp add: push_bit_eq_mult)
  have c: "(word_of_nat ?n :: u8) = c" by simp
  have 1: "8 * (8 * (?n div 2 ^ 6) + ?n div 2 ^ 3 mod 8) + ?n mod 8 = ?n" by (rule oct_digits)
  have "ucast (push_bit 3 (push_bit 3 (ucast (drop_bit 6 c)) + ucast (drop_bit 3 c AND 7)) + ucast (c AND 7) :: i32)
      = (ucast (word_of_nat (8 * (8 * (?n div 2 ^ 6) + ?n div 2 ^ 3 mod 8) + ?n mod 8) :: i32) :: u8)"
    by (simp only: ucast_unat d p of_nat_add [symmetric])
  then show "ucast (push_bit 3 (push_bit 3 (ucast (drop_bit 6 c)) + ucast (drop_bit 3 c AND 7)) + ucast (c AND 7) :: i32) = c"
    by (simp only: 1 ucast_nat c)
  show "ucast (push_bit 3 (ucast (drop_bit 3 c AND 7)) + ucast (c AND 7) :: i32) = c" if "?n < 64"
  proof -
    have 2: "8 * (?n div 2 ^ 3 mod 8) + ?n mod 8 = ?n" using oct_digits [of ?n] that by simp
    have "ucast (push_bit 3 (ucast (drop_bit 3 c AND 7)) + ucast (c AND 7) :: i32)
        = (ucast (word_of_nat (8 * (?n div 2 ^ 3 mod 8) + ?n mod 8) :: i32) :: u8)"
      by (simp only: ucast_unat d p of_nat_add [symmetric])
    then show ?thesis by (simp only: 2 ucast_nat c)
  qed
  show "ucast (ucast (c AND 7) :: i32) = c" if "?n < 8"
  proof -
    have 3: "?n mod 8 = ?n" using that by simp
    have "ucast (ucast (c AND 7) :: i32) = (ucast (word_of_nat (?n mod 8) :: i32) :: u8)"
      by (simp only: ucast_unat d)
    then show ?thesis by (simp only: 3 ucast_nat c)
  qed
qed

lemma escape_oct:
  assumes "unat (x :: u8) < 8"
  shows "unq_escape (x + 0x30) p = (\<lparr>ust = st_oct, ndig = 2, nval = ucast x, escp = p\<rparr>, [])"
proof -
  have "unat (x + 0x30) = unat x + 48" using oct_digit [OF assms] by simp
  then have "x + 0x30 \<noteq> a" if "55 < unat a" for a using assms that by auto
  then show ?thesis using oct_digit [OF assms] by (simp add: unq_escape_def)
qed

text \<open>Numbers of three, two and one digits; the shorter ones end at the next character.\<close>

lemma unq_oct3:
  assumes "ust u = st_start" "unat x2 < 8" "unat x1 < 8" "unat x0 < 8"
    and "ucast (push_bit 3 (push_bit 3 (ucast x2) + ucast x1) + ucast x0 :: i32) = (c :: u8)"
  shows "\<exists>u'. ust u' = st_start \<and>
    unq_loop (pre @ 0x5C # (x2 + 0x30) # (x1 + 0x30) # (x0 + 0x30) # post) (length pre) u =
    (case unq_loop ((pre @ [0x5C, x2 + 0x30, x1 + 0x30, x0 + 0x30]) @ post) (length (pre @ [0x5C, x2 + 0x30, x1 + 0x30, x0 + 0x30])) u' of
       (q, rest) \<Rightarrow> (q, c # rest))"
proof -
  let ?u = "\<lparr>ust = st_oct, ndig = 2, nval = ucast x2, escp = length pre + 2\<rparr>"
  let ?p1 = "pre @ [0x5C, x2 + 0x30]" and ?p2 = "(pre @ [0x5C, x2 + 0x30]) @ [x1 + 0x30]"
  let ?u1 = "?u\<lparr>nval := push_bit 3 (nval ?u) + ucast x1, ndig := 1, ust := st_oct\<rparr>"
  have 1: "unq_loop (pre @ 0x5C # (x2 + 0x30) # (x1 + 0x30) # (x0 + 0x30) # post) (length pre) u =
      unq_loop (?p1 @ (x1 + 0x30) # (x0 + 0x30) # post) (length ?p1) ?u"
    using unq_backslash [OF assms(1) oct_digit(3) [OF assms(2)] escape_oct [OF assms(2)]] by simp
  have 2: "unq_loop (?p1 @ (x1 + 0x30) # (x0 + 0x30) # post) (length ?p1) ?u =
      unq_loop (?p2 @ (x0 + 0x30) # post) (length ?p2) ?u1"
    using unq_oct_more [of ?u x1 1 ?p1 "(x0 + 0x30) # post"] assms(3) by (simp split: prod.splits)
  show ?thesis
    unfolding 1 2 using unq_oct_more [of ?u1 x0 0 ?p2 post] assms(4,5)
    by (intro exI [of _ "?u1\<lparr>nval := push_bit 3 (nval ?u1) + ucast x0, ndig := 0, ust := st_start\<rparr>"])
      (simp add: numeral_eq_Suc)
qed

lemma unq_oct2:
  assumes "ust u = st_start" "unat x1 < 8" "unat x0 < 8" "\<not> is_oct n" "n \<noteq> 0"
    and "ucast (push_bit 3 (ucast x1) + ucast x0 :: i32) = (c :: u8)"
  shows "\<exists>u'. ust u' = st_start \<and>
    unq_loop (pre @ 0x5C # (x1 + 0x30) # (x0 + 0x30) # n # post) (length pre) u =
    (case unq_loop ((pre @ [0x5C, x1 + 0x30, x0 + 0x30]) @ n # post) (length (pre @ [0x5C, x1 + 0x30, x0 + 0x30])) u' of
       (q, rest) \<Rightarrow> (q, c # rest))"
proof -
  let ?u = "\<lparr>ust = st_oct, ndig = 2, nval = ucast x1, escp = length pre + 2\<rparr>"
  let ?p1 = "pre @ [0x5C, x1 + 0x30]" and ?p2 = "(pre @ [0x5C, x1 + 0x30]) @ [x0 + 0x30]"
  let ?u1 = "?u\<lparr>nval := push_bit 3 (nval ?u) + ucast x0, ndig := 1, ust := st_oct\<rparr>"
  have 1: "unq_loop (pre @ 0x5C # (x1 + 0x30) # (x0 + 0x30) # n # post) (length pre) u =
      unq_loop (?p1 @ (x0 + 0x30) # n # post) (length ?p1) ?u"
    using unq_backslash [OF assms(1) oct_digit(3) [OF assms(2)] escape_oct [OF assms(2)]] by simp
  have 2: "unq_loop (?p1 @ (x0 + 0x30) # n # post) (length ?p1) ?u =
      unq_loop (?p2 @ n # post) (length ?p2) ?u1"
    using unq_oct_more [of ?u x0 1 ?p1 "n # post"] assms(3) by (simp split: prod.splits)
  show ?thesis
    unfolding 1 2 using unq_oct_end [of ?u1 n ?p2 post] assms(4,5,6)
    by (intro exI [of _ "?u1\<lparr>ust := st_start\<rparr>"]) (simp add: numeral_eq_Suc)
qed

lemma unq_oct1:
  assumes "ust u = st_start" "unat x0 < 8" "\<not> is_oct n" "n \<noteq> 0" and "ucast (ucast x0 :: i32) = (c :: u8)"
  shows "\<exists>u'. ust u' = st_start \<and>
    unq_loop (pre @ 0x5C # (x0 + 0x30) # n # post) (length pre) u =
    (case unq_loop ((pre @ [0x5C, x0 + 0x30]) @ n # post) (length (pre @ [0x5C, x0 + 0x30])) u' of
       (q, rest) \<Rightarrow> (q, c # rest))"
proof -
  let ?u = "\<lparr>ust = st_oct, ndig = 2, nval = ucast x0, escp = length pre + 2\<rparr>"
  let ?p1 = "pre @ [0x5C, x0 + 0x30]"
  have 1: "unq_loop (pre @ 0x5C # (x0 + 0x30) # n # post) (length pre) u =
      unq_loop (?p1 @ n # post) (length ?p1) ?u"
    using unq_backslash [OF assms(1) oct_digit(3) [OF assms(2)] escape_oct [OF assms(2)]] by simp
  show ?thesis
    unfolding 1 using unq_oct_end [of ?u n ?p1 post] assms(3,4,5)
    by (intro exI [of _ "?u\<lparr>ust := st_start\<rparr>"]) simp
qed

lemma unq_loop_body:
  "ust u = st_start \<Longrightarrow> unq_loop (pre @ quote_body s @ [0x60]) (length pre) u = (length pre + length (quote_body s), s)"
proof (induction s arbitrary: pre u)
  case Nil
  then show ?case by (subst unq_loop.simps) (simp add: unq_step_def)
next
  case (Cons c rest)
  have ih: "unq_loop ((pre @ xs) @ quote_body rest @ [0x60]) (length (pre @ xs)) u'
      = (length pre + length xs + length (quote_body rest), rest)" if "ust u' = st_start" for xs u'
    using Cons.IH [OF that, of "pre @ xs"] by simp
  consider (self) "c = 0x60 \<or> c = 0x5C" | (short) e where "q_short c = Some e"
    | (plain) "c \<noteq> 0x60" "c \<noteq> 0x5C" "q_short c = None" "q_plain c"
    | (oct) "c \<noteq> 0x60" "c \<noteq> 0x5C" "q_short c = None" "\<not> q_plain c" by fastforce
  then show ?case
  proof cases
    case self
    then have e: "q_escape c rest = [0x5C, c]" "c \<noteq> 0"
      "unq_escape c (length pre + 2) = (\<lparr>ust = st_start, ndig = 0, nval = 0, escp = length pre + 2\<rparr>, [c])"
      by (auto simp: q_escape_def unq_escape_def is_oct_iff)
    show ?thesis
      using unq_backslash [OF Cons.prems e(2,3), where post = "quote_body rest @ [0x60]"] ih [of _ "[0x5C, c]"] e(1) by simp
  next
    case (short e)
    note sh = q_short_cases [OF short]
    have e: "q_escape c rest = [0x5C, e]" using sh short by (simp add: q_escape_def)
    show ?thesis
      using unq_backslash [OF Cons.prems sh(6) sh(7) [of "length pre + 2"], where post = "quote_body rest @ [0x60]"] ih [of _ "[0x5C, e]"] e by simp
  next
    case plain
    then have e: "q_escape c rest = [c]" "c \<noteq> 0" by (auto simp: q_escape_def q_plain_iff)
    show ?thesis
      using unq_plain_char [OF Cons.prems e(2) plain(2,1), where post = "quote_body rest @ [0x60]" and pre = pre] ih [of u "[c]"] Cons.prems e(1)
      by simp
  next
    case oct
    let ?x2 = "drop_bit 6 c" and ?x1 = "drop_bit 3 c AND 7" and ?x0 = "c AND 7"
    let ?uc = "q_uc c rest"
    note ov = oct_value [of c]
    have e: "q_escape c rest = 0x5C # (if 0x3F < ?uc then [?x2 + 0x30] else []) @
        (if 7 < ?uc then [?x1 + 0x30] else []) @ [?x0 + 0x30]"
      using oct by (simp add: q_escape_def Let_def)
    show ?thesis
    proof (cases "0x3F < ?uc")
      case True
      then have "7 < ?uc" by (rule less_trans [rotated]) simp
      with True have "q_escape c rest = [0x5C, ?x2 + 0x30, ?x1 + 0x30, ?x0 + 0x30]" by (simp add: e)
      with unq_oct3 [OF Cons.prems ov(4-6,1), where post = "quote_body rest @ [0x60]" and pre = pre]
        ih [of _ "[0x5C, ?x2 + 0x30, ?x1 + 0x30, ?x0 + 0x30]"] show ?thesis by auto
    next
      case False
      then have nx: "\<not> (0x30 \<le> sint (q_next rest) \<and> sint (q_next rest) \<le> 0x37)" and uc: "?uc = c"
        by (auto simp: q_uc_def split: if_splits)
      from not_oct_next [OF nx] obtain n t where n: "quote_body rest @ [0x60] = n # t" "\<not> is_oct n" "n \<noteq> 0"
        by blast
      have c64: "unat c < 64" using False uc by (simp add: word_less_nat_alt)
      show ?thesis
      proof (cases "7 < ?uc")
        case True
        with False have "q_escape c rest = [0x5C, ?x1 + 0x30, ?x0 + 0x30]" by (simp add: e)
        with unq_oct2 [OF Cons.prems oct_value(5,6) n(2,3) oct_value(2) [OF c64], where pre = pre and post = t]
          ih [of _ "[0x5C, ?x1 + 0x30, ?x0 + 0x30]"] n(1) show ?thesis by auto
      next
        case False
        then have c8: "unat c < 8" using uc by (simp add: word_less_nat_alt)
        have "q_escape c rest = [0x5C, ?x0 + 0x30]"
          using False \<open>\<not> 0x3F < ?uc\<close> by (simp add: e)
        with unq_oct1 [OF Cons.prems oct_value(6) n(2,3) oct_value(3) [OF c8], where pre = pre and post = t]
          ih [of _ "[0x5C, ?x0 + 0x30]"] n(1) show ?thesis by auto
      qed
    qed
  qed
qed

section \<open>In place\<close>

text \<open>
  What is written stays behind what was read: an open escape has its backslash and its letter, and
  a number its digits, as room.
\<close>

definition unq_inv :: "nat \<Rightarrow> nat \<Rightarrow> unq \<Rightarrow> bool" where
  "unq_inv p q u \<longleftrightarrow> q < p \<and>
     (case ust u of
        st_start \<Rightarrow> True
      | st_backslash \<Rightarrow> q + 1 < p
      | st_ucs \<Rightarrow> q + 2 < escp u \<and> escp u \<le> p \<and> (p - escp u < 4 \<longrightarrow> unat (nval u) < 16 ^ (p - escp u))
      | _ \<Rightarrow> q + 2 < escp u \<and> escp u \<le> p)"

lemma length_emit_utf8:
  "length (emit_utf8 v) \<le> 6" "unat v < 16 ^ 3 \<Longrightarrow> length (emit_utf8 v) \<le> 3"
proof -
  show "length (emit_utf8 v) \<le> 6" by (simp add: emit_utf8_def)
  assume "unat v < 16 ^ 3"
  then have "sint v < 16 ^ 3" using sint_eq_unat [of v] by (cases "0 \<le> sint v") (auto simp del: of_nat_unat)
  then show "length (emit_utf8 v) \<le> 3" by (simp add: emit_utf8_def)
qed

lemma unq_number_room:
  assumes "unq_inv p q u"
  shows "q + length (unq_number str u p) < p"
proof (cases "ust u = st_ucs \<and> escp u < p")
  case False
  with assms show ?thesis by (auto simp: unq_inv_def unq_number_def split: unq_state.splits)
next
  case True
  let ?d = "p - escp u"
  have e: "unq_number str u p = emit_utf8 (nval u)" using True by (simp add: unq_number_def)
  have q: "q + 2 < escp u" "escp u \<le> p" "?d < 4 \<Longrightarrow> unat (nval u) < 16 ^ ?d" using assms True by (auto simp: unq_inv_def)
  show ?thesis
  proof (cases "?d < 4")
    case False
    then show ?thesis using length_emit_utf8(1) [of "nval u"] q e by simp
  next
    case True
    then have "unat (nval u) < 16 ^ ?d" by (rule q(3))
    also have "(16 :: nat) ^ ?d \<le> 16 ^ 3" using True by (intro power_increasing) auto
    finally have "length (emit_utf8 (nval u)) \<le> 3" by (rule length_emit_utf8(2))
    then show ?thesis using q e \<open>ust u = st_ucs \<and> escp u < p\<close> by simp
  qed
qed

lemma unq_escape_inv:
  "unq_escape c p = (u', out) \<Longrightarrow> q + 2 < p \<Longrightarrow> unq_inv p (q + length out) u'"
  by (auto simp: unq_escape_def unq_inv_def Let_def split: if_splits)

lemma numvalue_hex: "is_hex c \<Longrightarrow> 0 \<le> numvalue c \<and> numvalue c < 16"
  by (auto simp: is_hex_def numvalue_def)

lemma unq_digit_value:
  assumes "unat (v :: i32) < 16 ^ d" "d < 3" "0 \<le> x" "x < 16"
  shows "unat (push_bit 4 v + word_of_int x) < 16 ^ Suc d"
proof -
  have "(16 :: nat) ^ d \<le> 16 ^ 2" using assms(2) by (intro power_increasing) auto
  with assms(1) have "unat v < 256" by simp
  moreover have "unat (word_of_int x :: i32) < 16"
  proof -
    obtain n where "x = int n" using assms(3) by (rule nonneg_int_cases)
    with assms(4) show ?thesis by (simp add: unsigned_of_nat take_bit_nat_eq_self)
  qed
  ultimately have "unat (push_bit 4 v + word_of_int x) = 16 * unat v + unat (word_of_int x :: i32)"
    by (simp add: push_bit_eq_mult unat_word_ariths)
  with \<open>unat (word_of_int x :: i32) < 16\<close> assms(1) show ?thesis by simp
qed

lemma unq_digit_inv:
  assumes "unq_inv p q u" and "ust u \<in> {st_hex, st_oct, st_ucs}" and "unq_digit u c = Some u'"
  shows "unq_inv (p + 1) q u'"
proof (cases "ust u = st_ucs")
  case True
  let ?d = "p - escp u"
  have u: "is_hex c" "u' = u\<lparr>nval := push_bit 4 (nval u) + word_of_int (numvalue c), ndig := ndig u - 1\<rparr>"
    using assms(3) True by (auto simp: unq_digit_def split: if_splits)
  have i: "q < p" "q + 2 < escp u" "escp u \<le> p" "?d < 4 \<Longrightarrow> unat (nval u) < 16 ^ ?d"
    using assms(1) True by (auto simp: unq_inv_def)
  have s: "p + 1 - escp u = Suc ?d" using i(3) by simp
  have "Suc ?d < 4 \<Longrightarrow> unat (push_bit 4 (nval u) + word_of_int (numvalue c)) < 16 ^ Suc ?d"
    using numvalue_hex [OF u(1)] i(4) by (intro unq_digit_value) auto
  with i s True u(2) show ?thesis by (simp add: unq_inv_def)
next
  case False
  then show ?thesis using assms by (auto simp: unq_inv_def unq_digit_def split: if_splits)
qed

lemma unq_step_inv:
  assumes "unq_inv p q u" and "unq_step str p u = Some (p', u', out)"
  shows "unq_inv p' (q + length out) u'"
proof (cases "ust u \<in> {st_hex, st_oct, st_ucs}")
  case True
  show ?thesis
  proof (cases "unq_digit u (cchar str p)")
    case None
    then have "p' = p" "u' = u\<lparr>ust := st_start\<rparr>" "out = unq_number str u p"
      using True assms(2) by (auto simp: unq_step_def)
    then show ?thesis using unq_number_room [OF assms(1), of str] by (simp add: unq_inv_def)
  next
    case (Some v)
    have i: "unq_inv (p + 1) q v" using unq_digit_inv [OF assms(1) True Some] .
    have "p' = p + 1 \<and> (u' = v\<lparr>ust := st_start\<rparr> \<and> out = unq_number str v (p + 1) \<or> u' = v \<and> out = [])"
      using True Some assms(2) by (auto simp: unq_step_def split: if_splits)
    then show ?thesis
    proof (elim conjE disjE)
      assume "p' = p + 1" "u' = v\<lparr>ust := st_start\<rparr>" "out = unq_number str v (p + 1)"
      then show ?thesis using unq_number_room [OF i, of str] by (simp add: unq_inv_def)
    qed (use i in simp)
  qed
next
  case False
  then consider "ust u = st_start" | "ust u = st_backslash" by (cases "ust u") auto
  then show ?thesis
  proof cases
    case 1
    with assms show ?thesis by (auto simp: unq_step_def unq_inv_def Let_def split: if_splits)
  next
    case 2
    then have "unq_escape (cchar str p) (p + 1) = (u', out)" "p' = p + 1"
      using assms(2) by (auto simp: unq_step_def split: prod.splits)
    then show ?thesis using unq_escape_inv [of _ "p + 1" u' out q] assms(1) 2 by (auto simp: unq_inv_def)
  qed
qed

lemma unq_number_agree:
  assumes "unq_inv p q u" and "\<And>i. q \<le> i \<Longrightarrow> cchar buf i = cchar str i"
  shows "unq_number buf u p' = unq_number str u p'"
  using assms by (auto simp: unq_inv_def unq_number_def split: unq_state.splits)

lemma unq_step_agree:
  assumes "unq_inv p q u" and "\<And>i. q \<le> i \<Longrightarrow> cchar buf i = cchar str i"
  shows "unq_step buf p u = unq_step str p u"
proof -
  have c: "cchar buf p = cchar str p" using assms by (auto simp: unq_inv_def)
  show ?thesis
  proof (cases "ust u \<in> {st_hex, st_oct, st_ucs}")
    case False
    then show ?thesis using c by (cases "ust u") (auto simp: unq_step_def)
  next
    case True
    show ?thesis
    proof (cases "unq_digit u (cchar str p)")
      case None
      then show ?thesis using True c unq_number_agree [OF assms, where p' = p] by (auto simp: unq_step_def)
    next
      case (Some v)
      from unq_digit_inv [OF assms(1) True Some]
      have "unq_number buf v (p + 1) = unq_number str v (p + 1)" using assms(2) by (rule unq_number_agree)
      then show ?thesis using True c Some by (auto simp: unq_step_def)
    qed
  qed
qed

lemma cchar_splice:
  "q + length out \<le> length buf \<Longrightarrow> q + length out \<le> i \<Longrightarrow> cchar (splice_at q out buf) i = cchar buf i"
  by (auto simp: cchar_def splice_at_def nth_append)

lemma unq_buffer_eq:
  "unq_inv p q u \<Longrightarrow> (\<And>i. q \<le> i \<Longrightarrow> cchar buf i = cchar str i) \<Longrightarrow> p \<le> length buf \<Longrightarrow>
   \<exists>p' rest buf'. unq_loop str p u = (p', rest) \<and> unq_buffer buf p q u = Inr (p', q + length rest, buf') \<and>
    take (q + length rest) buf' = take q buf @ rest"
proof (induction buf p q u rule: unq_buffer.induct)
  case (1 buf p q u)
  have c: "cchar buf p = cchar str p" using "1.prems"(1,2) by (auto simp: unq_inv_def)
  have q: "q \<le> length buf" using "1.prems"(1,3) by (simp add: unq_inv_def)
  have sp: "take (q + length out) (splice_at q out buf) = take q buf @ out" for out
    using q by (simp add: splice_at_def)
  show ?case
  proof (cases "cchar buf p = 0")
    case True
    let ?out = "unq_number str u p"
    have "unq_number buf u p = ?out" using "1.prems"(1,2) by (rule unq_number_agree)
    moreover have "q + length ?out \<le> length buf"
      using unq_number_room [OF "1.prems"(1), of str] "1.prems"(3) by simp
    ultimately show ?thesis using True c sp
      by (subst unq_loop.simps, subst unq_buffer.simps) (simp add: Let_def)
  next
    case nz: False
    then have p: "p < length buf" by (auto simp: cchar_def split: if_splits)
    have st: "unq_step buf p u = unq_step str p u" using "1.prems"(1,2) by (rule unq_step_agree)
    show ?thesis
    proof (cases "unq_step str p u")
      case None
      then show ?thesis using nz c st
        by (subst unq_loop.simps, subst unq_buffer.simps) simp
    next
      case (Some x)
      then obtain p1 u1 out where x: "unq_step str p u = Some (p1, u1, out)" by (cases x) auto
      have i1: "unq_inv p1 (q + length out) u1" using unq_step_inv [OF "1.prems"(1) x] .
      have p1: "p1 \<le> length buf" using unq_step_progress [OF x] p by auto
      then have l: "q + length out \<le> length buf" using i1 by (simp add: unq_inv_def)
      then have ls: "length (splice_at q out buf) = length buf" using q by simp
      have agree: "cchar (splice_at q out buf) i = cchar str i" if "q + length out \<le> i" for i
        using that cchar_splice [OF l that] "1.prems"(2) [of i] by simp
      have "unq_step buf p u = Some (p1, u1, out)" using st x by simp
      from "1.IH" [OF nz this refl refl l i1 agree] p1 ls obtain p2 rest buf' where
        r: "unq_loop str p1 u1 = (p2, rest)"
          "unq_buffer (splice_at q out buf) p1 (q + length out) u1 = Inr (p2, q + length out + length rest, buf')"
          "take (q + length out + length rest) buf' = take (q + length out) (splice_at q out buf) @ rest"
        by auto
      show ?thesis using nz c st x r l sp
        by (subst unq_loop.simps, subst unq_buffer.simps) (simp add: add.assoc)
    qed
  qed
qed

section \<open>The end of a string\<close>

lemma skip_bq_run:
  "\<forall>x \<in> set xs. x \<noteq> 0 \<and> x \<noteq> 0x5C \<and> x \<noteq> 0x60 \<Longrightarrow>
   skip_bq (pre @ xs @ post) (length pre) False = skip_bq (pre @ xs @ post) (length pre + length xs) False"
proof (induction xs arbitrary: pre)
  case (Cons x xs)
  from Cons.IH [of "pre @ [x]"] Cons.prems show ?case
    by (subst skip_bq.simps) (simp add: Let_def)
qed simp

lemma escape_shape:
  "(\<exists>c'. q_escape c rest = [c'] \<and> c' \<noteq> 0 \<and> c' \<noteq> 0x5C \<and> c' \<noteq> 0x60) \<or>
   (\<exists>x ds. q_escape c rest = 0x5C # x # ds \<and> x \<noteq> 0 \<and> (\<forall>d \<in> set ds. d \<noteq> 0 \<and> d \<noteq> 0x5C \<and> d \<noteq> 0x60))"
proof -
  have d: "x + 0x30 \<noteq> 0 \<and> x + 0x30 \<noteq> 0x5C \<and> x + 0x30 \<noteq> 0x60" if "unat (x :: u8) < 8" for x
  proof -
    have u: "unat (x + 0x30) = unat x + 48" using oct_digit [OF that] by simp
    have "x + 0x30 \<noteq> a" if "55 < unat a" for a using u that \<open>unat x < 8\<close> by auto
    then show ?thesis using oct_digit(3) [OF that] by simp
  qed
  note ds = d [OF oct_value(4) [of c]] d [OF oct_value(5) [of c]] d [OF oct_value(6) [of c]]
  consider "c = 0x60 \<or> c = 0x5C" | e where "c \<noteq> 0x60" "c \<noteq> 0x5C" "q_short c = Some e"
    | "c \<noteq> 0x60" "c \<noteq> 0x5C" "q_short c = None" "q_plain c"
    | "c \<noteq> 0x60" "c \<noteq> 0x5C" "q_short c = None" "\<not> q_plain c" by (cases "q_short c") auto
  then show ?thesis
  proof cases
    case 1
    then show ?thesis by (auto simp: q_escape_def)
  next
    case 2
    then show ?thesis using q_short_cases(6) by (auto simp: q_escape_def)
  next
    case 3
    then show ?thesis by (auto simp: q_escape_def q_plain_iff)
  next
    case 4
    have "\<exists>x ds. q_escape c rest = 0x5C # x # ds \<and> set (x # ds) \<subseteq>
        {drop_bit 6 c + 0x30, (drop_bit 3 c AND 7) + 0x30, (c AND 7) + 0x30}"
      using 4 by (simp add: q_escape_def Let_def)
    then show ?thesis using ds by fastforce
  qed
qed

lemma skip_bq_body:
  "skip_bq (pre @ quote_body s @ [0x60]) (length pre) False = length pre + length (quote_body s)"
proof (induction s arbitrary: pre)
  case Nil
  then show ?case by (subst skip_bq.simps) (simp add: Let_def)
next
  case (Cons c rest)
  let ?post = "quote_body rest @ [0x60]"
  have ih: "skip_bq (pre @ xs @ ?post) (length pre + length xs) False = length pre + length xs + length (quote_body rest)" for xs
    using Cons.IH [of "pre @ xs"] by simp
  from escape_shape [of c rest] show ?case
  proof (elim disjE exE conjE)
    fix c' assume "q_escape c rest = [c']" "c' \<noteq> 0" "c' \<noteq> 0x5C" "c' \<noteq> 0x60"
    then show ?thesis using skip_bq_run [of "[c']" pre ?post] ih [of "[c']"] by simp
  next
    fix x ds assume e: "q_escape c rest = 0x5C # x # ds" "x \<noteq> 0" "\<forall>d \<in> set ds. d \<noteq> 0 \<and> d \<noteq> 0x5C \<and> d \<noteq> 0x60"
    have "skip_bq (pre @ 0x5C # x # ds @ ?post) (length pre) False =
        skip_bq (pre @ 0x5C # x # ds @ ?post) (length pre + 1) True"
      by (subst skip_bq.simps) (simp add: Let_def)
    also have "\<dots> = skip_bq ((pre @ [0x5C, x]) @ ds @ ?post) (length (pre @ [0x5C, x])) False"
      using e(2) cchar_at [of "pre @ [0x5C]" x "ds @ ?post"] by (subst skip_bq.simps) (simp add: Let_def)
    also have "\<dots> = skip_bq ((pre @ [0x5C, x]) @ ds @ ?post) (length (pre @ [0x5C, x]) + length ds) False"
      using e(3) by (rule skip_bq_run)
    finally show ?thesis using ih [of "0x5C # x # ds"] e(1) by simp
  qed
qed

section \<open>Properties\<close>

lemma unq_init_inv: "unq_inv 1 0 unq_init"
  by (simp add: unq_inv_def unq_init_def)

lemma nasm_unquote_bq:
  assumes "cchar str 0 = 0x60"
  shows "nasm_unquote str = Inr (case unq_loop str 1 unq_init of (p, s) \<Rightarrow> (Some p, s))"
proof -
  have "1 \<le> length str" using assms by (cases str) (auto simp: cchar_def)
  from unq_buffer_eq [OF unq_init_inv refl this] obtain p' rest buf' where
    "unq_loop str 1 unq_init = (p', rest)" "unq_buffer str 1 0 unq_init = Inr (p', length rest, buf')"
    "take (length rest) buf' = rest" by auto
  with assms show ?thesis by (simp add: nasm_unquote_def)
qed

text \<open>
  C37. Dequoting in place is sound for every string, however its escapes are mixed, cut short or
  unterminated: no byte is written behind one that is still to be read, so the result is that of
  the same machine writing elsewhere.
\<close>

theorem nasm_unquote_in_place:
  "nasm_unquote str = Inr
    (if str = [] \<or> hd str = 0 then (None, [])
     else if hd str = 0x27 \<or> hd str = 0x22
     then (Some (length (unq_plain (hd str) (tl str)) + 1), unq_plain (hd str) (tl str))
     else if hd str = 0x60 then (case unq_loop str 1 unq_init of (p, s) \<Rightarrow> (Some p, s))
     else (Some (length str), str))"
proof (cases str)
  case Nil
  then show ?thesis by (simp add: nasm_unquote_def cchar_def)
next
  case (Cons c s)
  then have "cchar str 0 = c" by (simp add: cchar_def)
  with Cons nasm_unquote_bq [of str] show ?thesis by (auto simp: nasm_unquote_def Let_def)
qed

text \<open>
  C22. Quoting and dequoting are inverse: for every byte string, null bytes, quotes and bytes outside
  ASCII included, \<open>nasm_quote\<close> succeeds (the length it computed first is the length it writes),
  \<open>nasm_unquote\<close> gives the bytes back and stops at the closing quote, and \<open>nasm_skip_string\<close>
  finds the same closing quote.
\<close>

theorem nasm_quote_roundtrip:
  "\<exists>qs. nasm_quote s = Inr qs \<and> nasm_unquote qs = Inr (Some (length qs - 1), s) \<and>
    nasm_skip_string qs = length qs - 1"
proof (cases "(\<forall>c \<in> set s. q_plain c \<and> c \<noteq> 0x27) \<or> (\<forall>c \<in> set s. q_plain c \<and> c \<noteq> 0x22)")
  case True
  define q :: u8 where "q = (if \<forall>c \<in> set s. q_plain c \<and> c \<noteq> 0x27 then 0x27 else 0x22)"
  have q: "q = 0x27 \<or> q = 0x22" "\<forall>c \<in> set s. q_plain c \<and> c \<noteq> q" "nasm_quote s = Inr (q # s @ [q])"
    using True by (auto simp: q_def nasm_quote_def quote_scan_eq Let_def)
  have nz: "\<forall>c \<in> set s. c \<noteq> 0" using q(2) by (auto simp: q_plain_iff)
  have "unq_plain q (s @ [q]) = s @ takeWhile (\<lambda>c. c \<noteq> 0 \<and> c \<noteq> q) [q]"
    unfolding unq_plain_def by (rule takeWhile_append2) (use q(2) nz in auto)
  then have "unq_plain q (s @ [q]) = s" by simp
  then show ?thesis using q(1,3) by (auto simp: nasm_unquote_def nasm_skip_string_def cchar_def)
next
  case False
  let ?qs = "0x60 # quote_body s @ [0x60]"
  have q: "nasm_quote s = Inr ?qs" using False by (auto simp: nasm_quote_def quote_scan_eq Let_def)
  have "unq_loop ([0x60] @ quote_body s @ [0x60]) (length [0x60 :: u8]) unq_init =
      (length [0x60 :: u8] + length (quote_body s), s)"
    by (rule unq_loop_body) (simp add: unq_init_def)
  then have "nasm_unquote ?qs = Inr (Some (length ?qs - 1), s)"
    by (subst nasm_unquote_bq) (simp_all add: cchar_def)
  moreover have "nasm_skip_string ?qs = length ?qs - 1"
    using skip_bq_body [of "[0x60]" s] by (simp add: nasm_skip_string_def cchar_def)
  ultimately show ?thesis using q by blast
qed

end
