(* ===== verification/StrFunc.thy ===== *)
theory StrFunc
  imports Quote
begin

text \<open>
  The string transformations of \<open>asm/strfunc.c\<close>: UTF-8 to UTF-16 and UTF-32, in two passes over
  the same code, the first of which only counts.
\<close>

section \<open>Reading UTF-8\<close>

record utf8_state =
  expect :: nat
  uval :: u32
  vmin :: u32

text \<open>The lead byte of a sequence of two to six bytes; \<open>None\<close> is a byte that cannot lead.\<close>

definition utf8_lead :: "u8 \<Rightarrow> utf8_state option" where
  "utf8_lead c =
     (if c < 0xc0 \<or> c \<ge> 0xfe then None
      else if c < 0xe0 then Some \<lparr>expect = 1, uval = ucast (c AND 0x1f), vmin = 0x80\<rparr>
      else if c < 0xf0 then Some \<lparr>expect = 2, uval = ucast (c AND 0x0f), vmin = 0x800\<rparr>
      else if c < 0xf8 then Some \<lparr>expect = 3, uval = ucast (c AND 0x07), vmin = 0x10000\<rparr>
      else if c < 0xfc then Some \<lparr>expect = 4, uval = ucast (c AND 0x03), vmin = 0x200000\<rparr>
      else Some \<lparr>expect = 5, uval = ucast (c AND 0x01), vmin = 0x4000000\<rparr>)"

text \<open>What the end of a sequence emits: the arguments of \<open>EMIT\<close> in their order, or an error.\<close>

definition utf16_check :: "u32 \<Rightarrow> u32 \<Rightarrow> bool" where
  "utf16_check v vm \<longleftrightarrow> \<not> (v < vm \<or> v > 0x10ffff \<or> v \<ge> 0xd800 \<and> v \<le> 0xdfff)"

definition finish_16le :: "u32 \<Rightarrow> u32 \<Rightarrow> u32 list option" where
  "finish_16le v vm =
     (if \<not> utf16_check v vm then None
      else if v > 0xffff
      then (let v = v - 0x10000 in Some [0xd800 OR drop_bit 10 v, 0xdc00 OR (v AND 0x3ff)])
      else Some [v])"

definition finish_16be :: "u32 \<Rightarrow> u32 \<Rightarrow> u32 list option" where
  "finish_16be v vm =
     (if \<not> utf16_check v vm then None
      else if v > 0xffff
      then (let v = v - 0x10000 in Some [0xdc00 OR (v AND 0x3ff), 0xd800 OR drop_bit 10 v])
      else Some [v])"

definition finish_32 :: "u32 \<Rightarrow> u32 \<Rightarrow> u32 list option" where
  "finish_32 v vm = (if v < vm \<or> v \<ge> 0xd800 \<and> v \<le> 0xdfff then None else Some [v])"

section \<open>Writing\<close>

text \<open>The output pointer, null in the counting pass, as a buffer and a position in it.\<close>

record sink =
  op :: "(bytes \<times> nat) option"
  outlen :: nat

definition emit :: "(u32 \<Rightarrow> bytes) \<Rightarrow> sink \<Rightarrow> u32 \<Rightarrow> sink result" where
  "emit wr s x =
     (case op s of
        None \<Rightarrow> Inr (s\<lparr>outlen := outlen s + 1\<rparr>)
      | Some (buf, q) \<Rightarrow>
          guard (q + length (wr x) \<le> length buf) OutOfBounds
            (Inr \<lparr>op = Some (splice_at q (wr x) buf, q + length (wr x)), outlen = outlen s + 1\<rparr>))"

definition write_16le :: "u32 \<Rightarrow> bytes" where "write_16le x = le_bytes 2 x"
definition write_32le :: "u32 \<Rightarrow> bytes" where "write_32le x = le_bytes 4 x"
definition write_16be :: "u32 \<Rightarrow> bytes" where
  "write_16be x = (let y = ucast x :: u16 in [ucast (drop_bit 8 y), ucast y])"
definition write_32be :: "u32 \<Rightarrow> bytes" where
  "write_32be y = [ucast (drop_bit 24 y), ucast (drop_bit 16 y), ucast (drop_bit 8 y), ucast y]"

section \<open>The loop\<close>

text \<open>\<open>Inr None\<close> is the return of \<open>(size_t)-1\<close>. The value left in \<open>v\<close> is set anew by a lead byte.\<close>

fun utf8_loop :: "(u32 \<Rightarrow> u32 \<Rightarrow> u32 list option) \<Rightarrow> (u32 \<Rightarrow> bytes) \<Rightarrow> bytes \<Rightarrow> utf8_state \<Rightarrow> sink \<Rightarrow>
    (nat \<times> sink) option result" where
  "utf8_loop fin wr [] st s = Inr (Some (expect st, s))"
| "utf8_loop fin wr (c # str) st s =
     (if expect st \<noteq> 0
      then if c AND 0xc0 \<noteq> 0x80 then Inr None
        else (let v = push_bit 6 (uval st) OR ucast (c AND 0x3f);
                  st = st\<lparr>expect := expect st - 1, uval := v\<rparr>
              in if expect st = 0
                 then (case fin v (vmin st) of
                         None \<Rightarrow> Inr None
                       | Some us \<Rightarrow> andthen (steps (emit wr) s us) (utf8_loop fin wr str st))
                 else utf8_loop fin wr str st s)
      else if c < 0x80 then andthen (emit wr s (ucast c)) (utf8_loop fin wr str st)
      else case utf8_lead c of
             None \<Rightarrow> Inr None
           | Some st \<Rightarrow> utf8_loop fin wr str st s)"

definition utf8_idle :: utf8_state where
  "utf8_idle = \<lparr>expect = 0, uval = 0, vmin = 0\<rparr>"

definition utf8_result :: "nat \<Rightarrow> (nat \<times> sink) option \<Rightarrow> (nat \<times> (bytes \<times> nat) option) option" where
  "utf8_result k r =
     (case r of None \<Rightarrow> None
      | Some (e, s) \<Rightarrow> if e \<noteq> 0 then None else Some (outlen s * 2 ^ k, op s))"

type_synonym transform_func =
  "bytes \<Rightarrow> (bytes \<times> nat) option \<Rightarrow> (nat \<times> (bytes \<times> nat) option) option result"

definition utf8_to_16le :: transform_func where
  "utf8_to_16le str out =
     andthen (utf8_loop finish_16le write_16le str utf8_idle \<lparr>op = out, outlen = 0\<rparr>)
       (\<lambda>r. Inr (utf8_result 1 r))"

definition utf8_to_16be :: transform_func where
  "utf8_to_16be str out =
     andthen (utf8_loop finish_16be write_16be str utf8_idle \<lparr>op = out, outlen = 0\<rparr>)
       (\<lambda>r. Inr (utf8_result 1 r))"

definition utf8_to_32le :: transform_func where
  "utf8_to_32le str out =
     andthen (utf8_loop finish_32 write_32le str utf8_idle \<lparr>op = out, outlen = 0\<rparr>)
       (\<lambda>r. Inr (utf8_result 2 r))"

definition utf8_to_32be :: transform_func where
  "utf8_to_32be str out =
     andthen (utf8_loop finish_32 write_32be str utf8_idle \<lparr>op = out, outlen = 0\<rparr>)
       (\<lambda>r. Inr (utf8_result 2 r))"

datatype strfunc =
  STRFUNC_UTF16 | STRFUNC_UTF16LE | STRFUNC_UTF16BE | STRFUNC_UTF32 | STRFUNC_UTF32LE | STRFUNC_UTF32BE

fun str_transforms :: "strfunc \<Rightarrow> transform_func" where
  "str_transforms STRFUNC_UTF16 = utf8_to_16le"
| "str_transforms STRFUNC_UTF16LE = utf8_to_16le"
| "str_transforms STRFUNC_UTF16BE = utf8_to_16be"
| "str_transforms STRFUNC_UTF32 = utf8_to_32le"
| "str_transforms STRFUNC_UTF32LE = utf8_to_32le"
| "str_transforms STRFUNC_UTF32BE = utf8_to_32be"

text \<open>The allocated buffer holds any bytes, \<open>junk\<close>, but for the null byte at its end.\<close>

definition string_transform :: "(nat \<Rightarrow> u8) \<Rightarrow> bytes \<Rightarrow> strfunc \<Rightarrow> (nat \<times> bytes) option result" where
  "string_transform junk str func =
     (let transform = str_transforms func
      in andthen (transform str None) (\<lambda>r.
           case r of
             None \<Rightarrow> Inr None
           | Some (len, _) \<Rightarrow>
               (let buf = (map junk [0..<len + 1])[len := 0]
                in andthen (transform str (Some (buf, 0))) (\<lambda>r.
                     Inr (case r of
                            None \<Rightarrow> None
                          | Some (n, out) \<Rightarrow> Some (n, case out of None \<Rightarrow> [] | Some (buf, q) \<Rightarrow> buf))))))"

section \<open>The two passes\<close>

text \<open>The units of a string, apart from where they go.\<close>

fun utf8_units :: "(u32 \<Rightarrow> u32 \<Rightarrow> u32 list option) \<Rightarrow> bytes \<Rightarrow> utf8_state \<Rightarrow> u32 list option" where
  "utf8_units fin [] st = (if expect st = 0 then Some [] else None)"
| "utf8_units fin (c # str) st =
     (if expect st \<noteq> 0
      then if c AND 0xc0 \<noteq> 0x80 then None
        else (let v = push_bit 6 (uval st) OR ucast (c AND 0x3f);
                  st = st\<lparr>expect := expect st - 1, uval := v\<rparr>
              in if expect st = 0
                 then (case fin v (vmin st) of
                         None \<Rightarrow> None
                       | Some us \<Rightarrow> map_option ((@) us) (utf8_units fin str st))
                 else utf8_units fin str st)
      else if c < 0x80 then map_option ((#) (ucast c)) (utf8_units fin str st)
      else case utf8_lead c of
             None \<Rightarrow> None
           | Some st \<Rightarrow> utf8_units fin str st)"

lemma steps_emit_count:
  "op s = None \<Longrightarrow> steps (emit wr) s us = Inr (s\<lparr>outlen := outlen s + length us\<rparr>)"
  by (induction us arbitrary: s) (simp_all add: emit_def)

lemma steps_emit_buffer:
  assumes "\<And>x. length (wr x) = n"
  shows "q + n * length us \<le> length buf \<Longrightarrow>
    steps (emit wr) \<lparr>op = Some (buf, q), outlen = l\<rparr> us =
      Inr \<lparr>op = Some (splice_at q (concat (map wr us)) buf, q + n * length us), outlen = l + length us\<rparr>"
proof (induction us arbitrary: buf q l)
  case (Cons u us)
  then have "q + length (wr u) \<le> length buf" by (simp add: assms)
  then show ?case
    using Cons.prems Cons.IH [of "q + n" "splice_at q (wr u) buf" "l + 1"] splice_at_append [of q buf "wr u"]
    by (simp add: emit_def assms max_def add.assoc)
qed simp

lemma utf8_count:
  "op s = None \<Longrightarrow> andthen (utf8_loop fin wr str st s) (\<lambda>r. Inr (utf8_result k r)) =
     Inr (map_option (\<lambda>us. ((outlen s + length us) * 2 ^ k, None)) (utf8_units fin str st))"
proof (induction str arbitrary: st s)
  case Nil
  then show ?case by (simp add: utf8_result_def)
next
  case (Cons c str)
  have e: "emit wr s x = Inr (s\<lparr>outlen := outlen s + 1\<rparr>)" for x using Cons.prems by (simp add: emit_def)
  show ?case
    using Cons.prems Cons.IH
    by (simp add: e steps_emit_count [OF Cons.prems] Let_def utf8_result_def option.map_comp comp_def ac_simps
        split: option.splits)
qed

lemma utf8_fill:
  assumes n: "\<And>x. length (wr x) = n"
  shows "utf8_units fin str st = Some us \<Longrightarrow> q + n * length us \<le> length buf \<Longrightarrow>
    utf8_loop fin wr str st \<lparr>op = Some (buf, q), outlen = l\<rparr> =
      Inr (Some (0, \<lparr>op = Some (splice_at q (concat (map wr us)) buf, q + n * length us), outlen = l + length us\<rparr>))"
proof (induction str arbitrary: st us q buf l)
  case Nil
  then show ?case by (simp split: if_splits)
next
  case (Cons c str)
  have step: "utf8_loop fin wr str st' \<lparr>op = Some (splice_at q (concat (map wr vs)) buf, q + n * length vs), outlen = l + length vs\<rparr> =
      Inr (Some (0, \<lparr>op = Some (splice_at q (concat (map wr us)) buf, q + n * length us), outlen = l + length us\<rparr>))"
    if "utf8_units fin str st' = Some ws" "us = vs @ ws" for st' vs ws
  proof -
    have l: "length (concat (map wr vs)) = n * length vs" by (induction vs) (simp_all add: n)
    then have "length (splice_at q (concat (map wr vs)) buf) = length buf"
      using Cons.prems(2) that(2) by (simp add: distrib_left max_def)
    then show ?thesis
      using Cons.IH [OF that(1), of "q + n * length vs" "splice_at q (concat (map wr vs)) buf" "l + length vs"]
        Cons.prems(2) that(2) splice_at_append [of q buf "concat (map wr vs)" "concat (map wr ws)"] l
      by (simp add: distrib_left add.assoc)
  qed
  have em: "steps (emit wr) \<lparr>op = Some (buf, q), outlen = l\<rparr> vs =
      Inr \<lparr>op = Some (splice_at q (concat (map wr vs)) buf, q + n * length vs), outlen = l + length vs\<rparr>"
    if "length vs \<le> length us" for vs
    by (rule steps_emit_buffer [OF n]) (use mult_le_mono2 [OF that, of n] Cons.prems(2) in linarith)
  consider (cont) "expect st \<noteq> 0" | (ascii) "expect st = 0" "c < 0x80" | (lead) "expect st = 0" "\<not> c < 0x80" by blast
  then show ?case
  proof cases
    case cont
    then show ?thesis using Cons.prems(1) step [of _ _ "[]"] em step
      by (auto simp: Let_def split: if_splits option.splits)
  next
    case ascii
    then obtain ws where w: "utf8_units fin str st = Some ws" "us = [ucast c] @ ws" using Cons.prems(1) by auto
    have "emit wr \<lparr>op = Some (buf, q), outlen = l\<rparr> (ucast c) =
        Inr \<lparr>op = Some (splice_at q (wr (ucast c)) buf, q + n), outlen = l + 1\<rparr>"
      using em [of "[ucast c]"] w(2) by (simp add: andthen_eq_Inr)
    then show ?thesis using ascii step [OF w] by simp
  next
    case lead
    then show ?thesis using Cons.prems(1) step [of _ _ "[]"] by (auto split: option.splits)
  qed
qed

section \<open>Encodings as numbers\<close>

definition trail :: "nat \<Rightarrow> u8" where
  "trail d = word_of_nat (0x80 + d)"

fun digits64 :: "nat \<Rightarrow> nat \<Rightarrow> nat list" where
  "digits64 0 m = []"
| "digits64 (Suc k) m = (m div 64 ^ k) mod 64 # digits64 k m"

definition lead_base :: "nat \<Rightarrow> nat" where
  "lead_base k = [0, 0xC0, 0xE0, 0xF0, 0xF8, 0xFC] ! k"

definition lead_room :: "nat \<Rightarrow> nat" where
  "lead_room k = [128, 32, 16, 8, 4, 2] ! k"

definition seq_min :: "nat \<Rightarrow> nat" where
  "seq_min k = [0, 0x80, 0x800, 0x10000, 0x200000, 0x4000000, 0x80000000] ! k"

definition utf8_seq :: "nat \<Rightarrow> nat \<Rightarrow> bytes" where
  "utf8_seq k m = word_of_nat (lead_base k + m div 64 ^ k) # map trail (digits64 k m)"

lemma length_digits64 [simp]: "length (digits64 k m) = k"
  by (induction k) simp_all

lemma digits64_less: "d \<in> set (digits64 k m) \<Longrightarrow> d < 64"
  by (induction k) auto

lemma digits64_2: "digits64 2 m = [m div 64 mod 64, m mod 64]"
  by (simp only: numeral_2_eq_2 digits64.simps) simp

lemma digits64_3: "digits64 3 m = [m div 4096 mod 64, m div 64 mod 64, m mod 64]"
proof -
  have "digits64 (Suc 2) m = [m div 4096 mod 64, m div 64 mod 64, m mod 64]"
    by (simp only: digits64.simps(2) digits64_2) simp
  then show ?thesis by simp
qed

lemma digits64_4: "digits64 4 m = [m div 262144 mod 64, m div 4096 mod 64, m div 64 mod 64, m mod 64]"
proof -
  have "digits64 (Suc 3) m = [m div 262144 mod 64, m div 4096 mod 64, m div 64 mod 64, m mod 64]"
    by (simp only: digits64.simps(2) digits64_3) simp
  then show ?thesis by simp
qed

lemma digits64_5: "digits64 5 m =
  [m div 16777216 mod 64, m div 262144 mod 64, m div 4096 mod 64, m div 64 mod 64, m mod 64]"
proof -
  have "digits64 (Suc 4) m = 
    [m div 16777216 mod 64, m div 262144 mod 64, m div 4096 mod 64, m div 64 mod 64, m mod 64]"
    by (simp only: digits64.simps(2) digits64_4) simp
  then show ?thesis by simp
qed

lemma foldl_digits64: "foldl (\<lambda>a d. 64 * a + d) (m div 64 ^ k) (digits64 k m) = m"
proof (induction k)
  case (Suc k)
  have "64 * (m div 64 ^ Suc k) + m div 64 ^ k mod 64 = m div 64 ^ k"
    by (simp add: div_mult2_eq mult.commute [of 64])
  then show ?case using Suc by simp
qed simp

lemma foldl_64:
  "\<forall>d \<in> set ds. d < 64 \<Longrightarrow>
   digits64 (length ds) (foldl (\<lambda>a d. 64 * a + d) a ds) = ds \<and>
   foldl (\<lambda>a d. 64 * a + d) a ds div 64 ^ length ds = a"
proof (induction ds arbitrary: a)
  case (Cons d ds)
  let ?f = "foldl (\<lambda>a d. 64 * a + d)"
  from Cons have i: "digits64 (length ds) (?f (64 * a + d) ds) = ds" "?f (64 * a + d) ds div 64 ^ length ds = 64 * a + d"
    by auto
  have "?f (64 * a + d) ds div 64 ^ Suc (length ds) = ?f (64 * a + d) ds div 64 ^ length ds div 64"
    by (simp add: div_mult2_eq mult.commute [of 64])
  then show ?case using i Cons.prems by simp
qed simp

lemma cont_iff: "c AND 0xc0 = 0x80 \<longleftrightarrow> unat (c :: u8) div 64 = 2"
proof -
  have m: "(0xc0 :: u8) = NOT (mask 6)" by (simp add: mask_eq_exp_minus_1)
  have "c AND 0xc0 = push_bit 6 (drop_bit 6 c)"
    unfolding m by (rule bit_word_eqI) (auto simp: bit_simps)
  moreover have "unat (push_bit 6 (drop_bit 6 c)) = 64 * (unat c div 64)"
    using unsigned_less [of c, where 'a = nat] by (simp add: push_bit_eq_mult unat_word_ariths unat_drop_bit)
  ultimately have "unat (c AND 0xc0) = 64 * (unat c div 64)" by simp
  moreover have "c AND 0xc0 = 0x80 \<longleftrightarrow> unat (c AND 0xc0) = 0x80" by (simp add: word_unat_eq_iff)
  ultimately show ?thesis by auto
qed

lemma trail_props:
  assumes "d < 64"
  shows "unat (trail d) = 0x80 + d" "trail d AND 0xc0 = 0x80" "unat (trail d AND 0x3f) = d"
proof -
  show u: "unat (trail d) = 0x80 + d"
    using assms unfolding trail_def unsigned_of_nat by (simp add: take_bit_nat_eq_self)
  show "trail d AND 0xc0 = 0x80" using assms u by (simp add: cont_iff)
  show "unat (trail d AND 0x3f) = d"
  proof -
    have "unat (trail d AND 0x3f) = (0x80 + d) mod 64"
      using unat_and_low [of "trail d" 6] u by (simp add: mask_eq_exp_minus_1)
    also have "0x80 + d = d + 2 * 64" by simp
    also have "(d + 2 * 64) mod 64 = d" using assms by (subst mod_mult_self1) simp
    finally show ?thesis .
  qed
qed

lemma cont_trail:
  assumes "c AND 0xc0 = (0x80 :: u8)"
  obtains d where "d < 64" "c = trail d"
proof
  show "unat c mod 64 < 64" by simp
  have "unat c = 0x80 + unat c mod 64"
    using assms mult_div_mod_eq [of 64 "unat c"] by (simp add: cont_iff)
  then show "c = trail (unat c mod 64)" by (simp add: word_unat_eq_iff trail_props(1))
qed

lemma cont_value:
  assumes "d < 64" and "a < 2 ^ 26"
  shows "push_bit 6 (word_of_nat a) OR ucast (trail d AND 0x3f) = (word_of_nat (64 * a + d) :: u32)"
proof -
  have "unat (push_bit 6 (word_of_nat a :: u32)) = 64 * a"
    using assms(2) by (simp add: push_bit_eq_mult unat_word_ariths unsigned_of_nat take_bit_nat_eq_self)
  moreover have "unat (ucast (trail d AND 0x3f) :: u32) = d"
    using trail_props(3) [OF assms(1)] assms(1) by (simp add: unsigned_ucast_eq take_bit_nat_eq_self)
  ultimately have "unat (push_bit 6 (word_of_nat a) OR ucast (trail d AND 0x3f) :: u32) = 64 * a + d"
    using assms(1) by (subst unat_or_disjoint [where k = 6]) auto
  moreover have "unat (word_of_nat (64 * a + d) :: u32) = 64 * a + d"
    using assms unfolding unsigned_of_nat by (simp add: take_bit_nat_eq_self)
  ultimately show ?thesis by (simp add: word_unat_eq_iff)
qed

text \<open>Continuation bytes are read as the digits of a number in base 64.\<close>

lemma units_conts:
  assumes "\<forall>d \<in> set ds. d < 64" and "ds \<noteq> []" and "expect st = length ds" and "uval st = word_of_nat a"
    and "(a + 1) * 64 ^ length ds \<le> 2 ^ 32"
  shows "\<exists>st'. expect st' = 0 \<and>
    utf8_units fin (map trail ds @ rest) st =
      (case fin (word_of_nat (foldl (\<lambda>a d. 64 * a + d) a ds)) (vmin st) of
         None \<Rightarrow> None
       | Some us \<Rightarrow> map_option ((@) us) (utf8_units fin rest st'))"
  using assms
proof (induction ds arbitrary: st a)
  case (Cons d ds)
  have d: "d < 64" using Cons.prems(1) by simp
  have "(a + 1) * 64 \<le> (a + 1) * 64 ^ length (d # ds)" by (rule mult_le_mono2) simp
  with Cons.prems(5) have a: "a < 2 ^ 26" by simp
  have v: "push_bit 6 (uval st) OR ucast (trail d AND 0x3f) = word_of_nat (64 * a + d)"
    using cont_value [OF d a] Cons.prems(4) by simp
  let ?st = "st\<lparr>expect := length ds, uval := word_of_nat (64 * a + d)\<rparr>"
  show ?case
  proof (cases "ds = []")
    case True
    then show ?thesis using Cons.prems(3) v trail_props(2) [OF d]
      by (intro exI [of _ "st\<lparr>expect := 0, uval := word_of_nat (64 * a + d)\<rparr>"]) (simp add: Let_def del: of_nat_add of_nat_mult)
  next
    case False
    have "(64 * a + d + 1) * 64 ^ length ds \<le> (64 * (a + 1)) * 64 ^ length ds"
      using d by (intro mult_le_mono1) simp
    also have "\<dots> \<le> 2 ^ 32" using Cons.prems(5) by (simp add: algebra_simps)
    finally have "\<exists>st'. expect st' = 0 \<and>
      utf8_units fin (map trail ds @ rest) ?st =
        (case fin (word_of_nat (foldl (\<lambda>a d. 64 * a + d) (64 * a + d) ds)) (vmin ?st) of
           None \<Rightarrow> None | Some us \<Rightarrow> map_option ((@) us) (utf8_units fin rest st'))"
      using Cons.prems(1) False by (intro Cons.IH) auto
    then show ?thesis using Cons.prems(3) v trail_props(2) [OF d] False by (simp add: Let_def)
  qed
qed simp

lemma units_conts_only:
  "utf8_units fin str st = Some us \<Longrightarrow> expect st = Suc n \<Longrightarrow>
   \<exists>ds rest. str = map trail ds @ rest \<and> length ds = Suc n \<and> (\<forall>d \<in> set ds. d < 64)"
proof (induction str arbitrary: st us n)
  case (Cons c str)
  then have "c AND 0xc0 = 0x80" by (auto split: if_splits)
  then obtain d where d: "d < 64" "c = trail d" by (rule cont_trail)
  show ?case
  proof (cases n)
    case 0
    then show ?thesis using d by (intro exI [of _ "[d]"] exI [of _ str]) simp
  next
    case (Suc k)
    then have "utf8_units fin str (st\<lparr>expect := Suc k, uval := push_bit 6 (uval st) OR ucast (c AND 0x3f)\<rparr>) = Some us"
      using Cons.prems \<open>c AND 0xc0 = 0x80\<close> by (simp add: Let_def)
    from Cons.IH [OF this, of k] Suc obtain ds rest where
      "str = map trail ds @ rest" "length ds = n" "\<forall>d \<in> set ds. d < 64" by auto
    then show ?thesis using d by (intro exI [of _ "d # ds"] exI [of _ rest]) simp
  qed
qed simp

section \<open>Sequences\<close>

lemma emit_utf8_seq:
  assumes "k \<le> 5" and "seq_min k \<le> m" and "m < seq_min (Suc k)"
  shows "emit_utf8 (word_of_nat m) = utf8_seq k m"
proof -
  have m31: "m < 2 ^ 31"
  proof -
    have "seq_min (Suc k) \<le> 2 ^ 31" using assms(1) by (auto simp: seq_min_def nth_Cons split: nat.split)
    then show ?thesis using assms(3) by simp
  qed
  have u: "unat (word_of_nat m :: i32) = m"
    using m31 unfolding unsigned_of_nat by (simp add: take_bit_nat_eq_self)
  have s: "sint (word_of_nat m :: i32) = int m"
    using m31 sint_nonneg_iff [of "word_of_nat m :: i32"] sint_eq_unat [of "word_of_nat m :: i32"] u
    by (simp del: of_nat_unat)
  have t: "utf8_tail (word_of_nat m) (6 * i) = trail (m div 64 ^ i mod 64)" for i
  proof -
    have "unat (drop_bit (6 * i) (word_of_nat m) AND 63 :: i32) = m div 64 ^ i mod 64"
      using unat_and_low [of "drop_bit (6 * i) (word_of_nat m :: i32)" 6]
      by (simp add: unat_drop_bit u power_mult mask_eq_exp_minus_1)
    then have "unat (0x80 OR (drop_bit (6 * i) (word_of_nat m) AND 63) :: i32) = 0x80 + m div 64 ^ i mod 64"
      by (subst unat_or_disjoint [where k = 6]) auto
    then have "(word_of_nat (unat (0x80 OR (drop_bit (6 * i) (word_of_nat m) AND 63) :: i32)) :: u8) = trail (m div 64 ^ i mod 64)"
      by (simp only: trail_def)
    then show ?thesis by (simp only: utf8_tail_def of_nat_unat)
  qed
  have l: "ucast (w OR drop_bit (6 * i) (word_of_nat m) :: i32) = (word_of_nat (b + m div 64 ^ i) :: u8)"
    if "unat w = b" "m div 64 ^ i < 2 ^ j" "2 ^ j dvd b" for w b i j
  proof -
    have "unat (drop_bit (6 * i) (word_of_nat m) :: i32) = m div 64 ^ i"
      by (simp add: unat_drop_bit u power_mult)
    then have "unat (w OR drop_bit (6 * i) (word_of_nat m) :: i32) = b + m div 64 ^ i"
      using that by (subst unat_or_disjoint [where k = j]) auto
    then have "(word_of_nat (unat (w OR drop_bit (6 * i) (word_of_nat m) :: i32)) :: u8) = word_of_nat (b + m div 64 ^ i)"
      by (simp only:)
    then show ?thesis by (simp only: of_nat_unat)
  qed
  define x :: i32 where "x = word_of_nat m"
  note s' = s [folded x_def] and t' = t [folded x_def] and l' = l [folded x_def]
  have m0: "(word_of_nat m :: u8) = ucast x" by (simp only: x_def ucast_nat)
  have T: "utf8_tail x 0 = trail (m mod 64)" "utf8_tail x 6 = trail (m div 64 mod 64)"
    "utf8_tail x 12 = trail (m div 4096 mod 64)" "utf8_tail x 18 = trail (m div 262144 mod 64)"
    "utf8_tail x 24 = trail (m div 16777216 mod 64)"
    using t' [of 0] t' [of 1] t' [of 2] t' [of 3] t' [of 4] by simp_all
  consider "k = 0" | "k = 1" | "k = 2" | "k = 3" | "k = 4" | "k = 5" using assms(1) by linarith
  then have "emit_utf8 x = utf8_seq k m"
  proof cases
    case 1
    then have "m < 0x80" using assms by (simp add: seq_min_def)
    then show ?thesis using 1 by (simp add: emit_utf8_def s' utf8_seq_def lead_base_def m0)
  next
    case 2
    then have b: "0x80 \<le> m" "m < 0x800" using assms by (simp_all add: seq_min_def)
    then have "ucast (0xc0 OR drop_bit 6 x) = (word_of_nat (0xc0 + m div 64) :: u8)"
      using l' [where w = "0xc0" and b = "0xc0" and i = 1 and j = 5] by (simp del: of_nat_add)
    then show ?thesis using 2 b by (simp add: emit_utf8_def s' utf8_seq_def lead_base_def T del: of_nat_add)
  next
    case 3
    then have b: "0x800 \<le> m" "m < 0x10000" using assms by (simp_all add: seq_min_def)
    then have "ucast (0xe0 OR drop_bit 12 x) = (word_of_nat (0xe0 + m div 4096) :: u8)"
      using l' [where w = "0xe0" and b = "0xe0" and i = 2 and j = 4] by (simp del: of_nat_add)
    then show ?thesis using 3 b by (simp add: emit_utf8_def s' utf8_seq_def lead_base_def T digits64_2 del: of_nat_add)
  next
    case 4
    then have b: "0x10000 \<le> m" "m < 0x200000" using assms by (simp_all add: seq_min_def)
    then have "ucast (0xf0 OR drop_bit 18 x) = (word_of_nat (0xf0 + m div 262144) :: u8)"
      using l' [where w = "0xf0" and b = "0xf0" and i = 3 and j = 3] by (simp del: of_nat_add)
    then show ?thesis using 4 b by (simp add: emit_utf8_def s' utf8_seq_def lead_base_def T digits64_3 del: of_nat_add)
  next
    case 5
    then have b: "0x200000 \<le> m" "m < 0x4000000" using assms by (simp_all add: seq_min_def)
    then have "ucast (0xf8 OR drop_bit 24 x) = (word_of_nat (0xf8 + m div 16777216) :: u8)"
      using l' [where w = "0xf8" and b = "0xf8" and i = 4 and j = 2] by (simp del: of_nat_add)
    then show ?thesis using 5 b by (simp add: emit_utf8_def s' utf8_seq_def lead_base_def T digits64_4 del: of_nat_add)
  next
    case 6
    then have b: "0x4000000 \<le> m" "m < 0x80000000" using assms by (simp_all add: seq_min_def)
    then have "ucast (0xfc OR drop_bit 30 x) = (word_of_nat (0xfc + m div 1073741824) :: u8)"
      using l' [where w = "0xfc" and b = "0xfc" and i = 5 and j = 1] by (simp del: of_nat_add)
    then show ?thesis using 6 b by (simp add: emit_utf8_def s' utf8_seq_def lead_base_def T digits64_5 del: of_nat_add)
  qed
  then show ?thesis by (simp only: x_def)
qed

lemma seq_min_room:
  assumes "k \<le> 5"
  shows "seq_min (Suc k) = lead_room k * 64 ^ k" "lead_base k + lead_room k \<le> 0xFE"
    "a < lead_room k \<Longrightarrow> (lead_base k + a) mod lead_room k = a"
proof -
  have ks: "k = 0 \<or> k = 1 \<or> k = 2 \<or> k = 3 \<or> k = 4 \<or> k = 5" using assms by linarith
  then show "seq_min (Suc k) = lead_room k * 64 ^ k" "lead_base k + lead_room k \<le> 0xFE"
    by (auto simp: seq_min_def lead_room_def lead_base_def)
  assume a: "a < lead_room k"
  have "lead_room k dvd lead_base k"
    using ks by (elim disjE) (simp_all add: lead_room_def lead_base_def)
  then obtain b where "lead_base k = lead_room k * b" by (elim dvdE)
  then show "(lead_base k + a) mod lead_room k = a" using a by simp
qed

lemma seq_min_bound:
  assumes "k \<le> 5"
  shows "seq_min (Suc k) \<le> 2 ^ 31 \<and> seq_min k < 2 ^ 31"
proof -
  have "k = 0 \<or> k = 1 \<or> k = 2 \<or> k = 3 \<or> k = 4 \<or> k = 5" using assms by linarith
  then show ?thesis by (auto simp: seq_min_def)
qed

lemma lead_value:
  assumes "k \<in> {1..5}" and "a < lead_room k"
  shows "utf8_lead (word_of_nat (lead_base k + a)) =
    Some \<lparr>expect = k, uval = word_of_nat a, vmin = word_of_nat (seq_min k)\<rparr>"
proof -
  define c :: u8 where "c = word_of_nat (lead_base k + a)"
  have k: "k \<le> 5" using assms(1) by simp
  have u: "unat c = lead_base k + a"
    using seq_min_room(2) [OF k] assms(2) unfolding c_def unsigned_of_nat by (simp add: take_bit_nat_eq_self)
  have m: "ucast (c AND mask j) = (word_of_nat a :: u32)" if "lead_room k = 2 ^ j" for j
  proof -
    have "unat (c AND mask j) = a"
      using unat_and_low [of c j] seq_min_room(3) [OF k assms(2)] that by (simp add: u)
    then show ?thesis by (metis of_nat_unat)
  qed
  consider "k = 1" | "k = 2" | "k = 3" | "k = 4" | "k = 5" using assms(1) by fastforce
  then have "utf8_lead c = Some \<lparr>expect = k, uval = word_of_nat a, vmin = word_of_nat (seq_min k)\<rparr>"
    using assms(2) u m [of 5] m [of 4] m [of 3] m [of 2] m [of 1]
    by cases (simp_all add: utf8_lead_def word_less_nat_alt word_le_nat_alt lead_base_def lead_room_def seq_min_def
        mask_eq_exp_minus_1)
  then show ?thesis by (simp only: c_def)
qed

lemma lead_cases:
  assumes "utf8_lead c = Some st"
  obtains k a where "k \<in> {1..5}" "a < lead_room k" "c = word_of_nat (lead_base k + a)"
proof -
  have n: "c < d \<longleftrightarrow> unat c < unat d" for c d :: u8 by (simp add: word_less_nat_alt)
  let ?n = "unat c"
  have b: "0xC0 \<le> ?n" "?n < 0xFE" using assms by (auto simp: utf8_lead_def n not_le split: if_splits)
  have c: "c = word_of_nat (lead_base k + (?n - lead_base k))" if "lead_base k \<le> ?n" for k using that by simp
  have r: thesis if "k \<in> {1..5}" "lead_base k \<le> ?n" "?n - lead_base k < lead_room k" for k
    using that(1,3) c [OF that(2)] by (rule \<open>\<And>k a. \<lbrakk>k \<in> {1..5}; a < lead_room k; c = word_of_nat (lead_base k + a)\<rbrakk> \<Longrightarrow> thesis\<close>)
  consider "?n < 0xE0" | "0xE0 \<le> ?n" "?n < 0xF0" | "0xF0 \<le> ?n" "?n < 0xF8" | "0xF8 \<le> ?n" "?n < 0xFC" | "0xFC \<le> ?n" by linarith
  then show thesis
    by cases (use b r [of 1] r [of 2] r [of 3] r [of 4] r [of 5] in \<open>auto simp: lead_base_def lead_room_def\<close>)
qed

section \<open>Scalar values\<close>

lemma units_sequence:
  assumes "k \<le> 5" and "m < seq_min (Suc k)"
  shows "\<exists>st'. expect st' = 0 \<and>
    utf8_units fin (utf8_seq k m @ rest) utf8_idle =
      (if k = 0 then map_option ((#) (word_of_nat m)) (utf8_units fin rest st')
       else case fin (word_of_nat m) (word_of_nat (seq_min k)) of
         None \<Rightarrow> None
       | Some us \<Rightarrow> map_option ((@) us) (utf8_units fin rest st'))"
proof (cases "k = 0")
  case True
  then have m: "m < 0x80" using assms by (simp add: seq_min_def)
  define c :: u8 where "c = word_of_nat m"
  have "unat c = m" using m unfolding c_def unsigned_of_nat by (simp add: take_bit_nat_eq_self)
  then have "c < 0x80" "ucast c = (word_of_nat m :: u32)" using m by (auto simp: word_less_nat_alt)
  moreover have "utf8_seq k m = [c]" using True by (simp add: utf8_seq_def lead_base_def c_def)
  ultimately show ?thesis using True by (intro exI [of _ utf8_idle]) (simp add: utf8_idle_def)
next
  case False
  let ?a = "m div 64 ^ k"
  have a: "?a < lead_room k" using assms seq_min_room(1) by (simp add: less_mult_imp_div_less)
  have "(?a + 1) * 64 ^ k \<le> lead_room k * 64 ^ k" using a by (intro mult_le_mono1) simp
  also have "\<dots> \<le> 2 ^ 32"
    using assms(1) seq_min_room(1) [OF assms(1)] by (auto simp: seq_min_def nth_Cons split: nat.splits)
  finally have b: "(?a + 1) * 64 ^ k \<le> 2 ^ 32" .
  let ?st = "\<lparr>expect = k, uval = word_of_nat ?a, vmin = word_of_nat (seq_min k)\<rparr>"
  have "utf8_lead (word_of_nat (lead_base k + ?a)) = Some ?st"
    using False assms(1) a by (intro lead_value) auto
  moreover from this have "\<not> (word_of_nat (lead_base k + ?a) :: u8) < 0x80"
    by (auto simp: utf8_lead_def word_less_nat_alt split: if_splits)
  ultimately have "utf8_units fin (utf8_seq k m @ rest) utf8_idle = utf8_units fin (map trail (digits64 k m) @ rest) ?st"
    by (simp add: utf8_seq_def utf8_idle_def del: of_nat_add)
  moreover have "\<exists>st'. expect st' = 0 \<and> utf8_units fin (map trail (digits64 k m) @ rest) ?st =
      (case fin (word_of_nat (foldl (\<lambda>a d. 64 * a + d) ?a (digits64 k m))) (vmin ?st) of
         None \<Rightarrow> None | Some us \<Rightarrow> map_option ((@) us) (utf8_units fin rest st'))"
  proof (rule units_conts)
    show "digits64 k m \<noteq> []" using False by (cases k) auto
  qed (use b digits64_less in auto)
  ultimately show ?thesis using False by (simp add: foldl_digits64)
qed

lemma units_idle: "expect st = 0 \<Longrightarrow> utf8_units fin str st = utf8_units fin str utf8_idle"
proof (induction str)
  case (Cons c str)
  moreover have "expect utf8_idle = 0" by (simp add: utf8_idle_def)
  ultimately show ?case by simp
qed (simp add: utf8_idle_def)

text \<open>The bytes of a value, as \<open>asm/quote.c\<close> writes them.\<close>

definition utf8_bytes :: "nat \<Rightarrow> bytes" where
  "utf8_bytes m = emit_utf8 (word_of_nat m)"

lemma utf8_bytes_seq:
  assumes "m < 2 ^ 31"
  obtains k where "k \<le> 5" "m < seq_min (Suc k)" "seq_min k \<le> m" "utf8_bytes m = utf8_seq k m" "k = 0 \<longleftrightarrow> m < 0x80"
proof -
  have r: thesis if "k \<le> 5" "seq_min k \<le> m" "m < seq_min (Suc k)" "k = 0 \<longleftrightarrow> m < 0x80" for k
    using that emit_utf8_seq [OF that(1-3)] \<open>\<And>k. \<lbrakk>k \<le> 5; m < seq_min (Suc k); seq_min k \<le> m; utf8_bytes m = utf8_seq k m; (k = 0) = (m < 0x80)\<rbrakk> \<Longrightarrow> thesis\<close>
    by (simp add: utf8_bytes_def)
  consider "m < 0x80" | "0x80 \<le> m" "m < 0x800" | "0x800 \<le> m" "m < 0x10000" | "0x10000 \<le> m" "m < 0x200000"
    | "0x200000 \<le> m" "m < 0x4000000" | "0x4000000 \<le> m" by linarith
  then show thesis
    by cases (use assms r [of 0] r [of 1] r [of 2] r [of 3] r [of 4] r [of 5] in \<open>simp_all add: seq_min_def\<close>)
qed

locale utf8_finish =
  fixes fin :: "u32 \<Rightarrow> u32 \<Rightarrow> u32 list option" and valid :: "nat \<Rightarrow> bool" and units :: "nat \<Rightarrow> u32 list"
  assumes finish: "m < 2 ^ 31 \<Longrightarrow> vm < 2 ^ 31 \<Longrightarrow>
      fin (word_of_nat m) (word_of_nat vm) = (if vm \<le> m \<and> valid m then Some (units m) else None)"
    and ascii: "m < 0x80 \<Longrightarrow> valid m \<and> units m = [word_of_nat m]"
begin

lemma units_value:
  assumes "m < 2 ^ 31" and "valid m"
  shows "utf8_units fin (utf8_bytes m @ rest) utf8_idle = map_option ((@) (units m)) (utf8_units fin rest utf8_idle)"
proof -
  from assms(1) obtain k where k: "k \<le> 5" "m < seq_min (Suc k)" "seq_min k \<le> m" "utf8_bytes m = utf8_seq k m"
    "k = 0 \<longleftrightarrow> m < 0x80" by (rule utf8_bytes_seq)
  from units_sequence [OF k(1,2), of fin rest] obtain st' where st: "expect st' = 0"
    "utf8_units fin (utf8_seq k m @ rest) utf8_idle =
      (if k = 0 then map_option ((#) (word_of_nat m)) (utf8_units fin rest st')
       else case fin (word_of_nat m) (word_of_nat (seq_min k)) of
         None \<Rightarrow> None | Some us \<Rightarrow> map_option ((@) us) (utf8_units fin rest st'))" by blast
  have "seq_min k < 2 ^ 31" using k(3) assms(1) by simp
  then show ?thesis
    using st units_idle [OF st(1), of fin rest] k assms ascii [of m]
    by (auto simp: finish fun_eq_iff intro!: option.map_cong)
qed

lemma units_values:
  "\<forall>m \<in> set ms. m < 2 ^ 31 \<and> valid m \<Longrightarrow>
   utf8_units fin (concat (map utf8_bytes ms)) utf8_idle = Some (concat (map units ms))"
proof (induction ms)
  case Nil
  then show ?case by (simp add: utf8_idle_def)
qed (simp add: units_value)

lemma units_first:
  assumes "utf8_units fin (c # str) utf8_idle = Some us"
  obtains m rest us' where "m < 2 ^ 31" "valid m" "c # str = utf8_bytes m @ rest" "utf8_units fin rest utf8_idle = Some us'"
proof -
  obtain k m rest where k: "k \<le> 5" "m < seq_min (Suc k)" "c # str = utf8_seq k m @ rest"
  proof (cases "c < 0x80")
    case True
    then have "unat c < 0x80" by (simp add: word_less_nat_alt)
    then have "unat c < seq_min (Suc 0)" "c # str = utf8_seq 0 (unat c) @ str"
      by (simp_all add: seq_min_def utf8_seq_def lead_base_def)
    then show ?thesis by (intro that [of 0 "unat c" str]) auto
  next
    case False
    then obtain st where st: "utf8_lead c = Some st" "utf8_units fin str st = Some us"
      using assms by (auto simp: utf8_idle_def split: option.splits)
    from st(1) obtain k a where ka: "k \<in> {1..5}" "a < lead_room k" "c = word_of_nat (lead_base k + a)" by (rule lead_cases)
    then have e: "expect st = Suc (k - 1)" using st(1) lead_value [OF ka(1,2)] by auto
    from units_conts_only [OF st(2) e] ka(1) obtain ds rest where
      ds: "str = map trail ds @ rest" "length ds = k" "\<forall>d \<in> set ds. d < 64" by auto
    let ?m = "foldl (\<lambda>a d. 64 * a + d) a ds"
    have m: "digits64 k ?m = ds" "?m div 64 ^ k = a" using foldl_64 [OF ds(3), of a] ds(2) by auto
    then have "?m < (a + 1) * 64 ^ k" by (metis Suc_eq_plus1 dividend_less_div_times mult.commute mult_Suc_right zero_less_numeral zero_less_power add.commute)
    also have "\<dots> \<le> lead_room k * 64 ^ k" using ka(2) by (intro mult_le_mono1) simp
    finally have "?m < seq_min (Suc k)" using ka(1) seq_min_room(1) [of k] by simp
    moreover have "c # str = utf8_seq k ?m @ rest" using m ds(1) ka(3) by (simp add: utf8_seq_def)
    ultimately show ?thesis using ka(1) by (intro that) auto
  qed
  have m31: "m < 2 ^ 31" "seq_min k < 2 ^ 31" using k(2) seq_min_bound [OF k(1)] by auto
  from units_sequence [OF k(1,2), of fin rest] obtain st' where st: "expect st' = 0"
    "utf8_units fin (utf8_seq k m @ rest) utf8_idle =
      (if k = 0 then map_option ((#) (word_of_nat m)) (utf8_units fin rest st')
       else case fin (word_of_nat m) (word_of_nat (seq_min k)) of
         None \<Rightarrow> None | Some us \<Rightarrow> map_option ((@) us) (utf8_units fin rest st'))" by blast
  have v: "seq_min k \<le> m \<and> valid m"
  proof (cases "k = 0")
    case True
    then show ?thesis using k(2) ascii [of m] by (simp add: seq_min_def)
  next
    case False
    then show ?thesis using st(2) assms k(3) finish [OF m31] by (auto split: if_splits)
  qed
  moreover obtain us' where "utf8_units fin rest utf8_idle = Some us'"
    using st assms k(3) units_idle [OF st(1), of fin rest] by (auto split: if_splits option.splits)
  moreover have "utf8_bytes m = utf8_seq k m" using k v by (simp add: utf8_bytes_def emit_utf8_seq)
  ultimately show thesis using m31(1) k(3) by (intro that) auto
qed

lemma units_only:
  "utf8_units fin str utf8_idle = Some us \<Longrightarrow>
   \<exists>ms. (\<forall>m \<in> set ms. m < 2 ^ 31 \<and> valid m) \<and> str = concat (map utf8_bytes ms)"
proof (induction "length str" arbitrary: str us rule: less_induct)
  case less
  show ?case
  proof (cases str)
    case Nil
    then show ?thesis by (intro exI [of _ "[]"]) simp
  next
    case (Cons c rest)
    from less.prems [unfolded Cons] obtain m rest' us' where
      m: "m < 2 ^ 31" "valid m" "c # rest = utf8_bytes m @ rest'" "utf8_units fin rest' utf8_idle = Some us'"
      by (rule units_first)
    obtain k where "utf8_bytes m = utf8_seq k m" using m(1) by (rule utf8_bytes_seq)
    then have "length rest' < length str" using m(3) Cons by (simp add: utf8_seq_def)
    from less.hyps [OF this m(4)] obtain ms where
      "\<forall>m \<in> set ms. m < 2 ^ 31 \<and> valid m" "rest' = concat (map utf8_bytes ms)" by blast
    then show ?thesis using m Cons by (intro exI [of _ "m # ms"]) simp
  qed
qed

end

section \<open>The four transformations\<close>

text \<open>The code units of a value and their bytes.\<close>

definition surrogate :: "nat \<Rightarrow> bool" where
  "surrogate m \<longleftrightarrow> 0xd800 \<le> m \<and> m \<le> 0xdfff"

definition utf16 :: "nat \<Rightarrow> nat list" where
  "utf16 m = (if m < 0x10000 then [m] else [0xd800 + (m - 0x10000) div 0x400, 0xdc00 + (m - 0x10000) mod 0x400])"

definition bytes_le :: "nat \<Rightarrow> nat \<Rightarrow> bytes" where
  "bytes_le n x = map (\<lambda>i. word_of_nat (x div 256 ^ i)) [0..<n]"

fun scalar :: "strfunc \<Rightarrow> nat \<Rightarrow> bool" where
  "scalar STRFUNC_UTF32 m \<longleftrightarrow> m < 2 ^ 31 \<and> \<not> surrogate m"
| "scalar STRFUNC_UTF32LE m \<longleftrightarrow> m < 2 ^ 31 \<and> \<not> surrogate m"
| "scalar STRFUNC_UTF32BE m \<longleftrightarrow> m < 2 ^ 31 \<and> \<not> surrogate m"
| "scalar _ m \<longleftrightarrow> m \<le> 0x10ffff \<and> \<not> surrogate m"

fun encode :: "strfunc \<Rightarrow> nat \<Rightarrow> bytes" where
  "encode STRFUNC_UTF16BE m = concat (map (\<lambda>x. rev (bytes_le 2 x)) (rev (utf16 m)))"
| "encode STRFUNC_UTF32 m = bytes_le 4 m"
| "encode STRFUNC_UTF32LE m = bytes_le 4 m"
| "encode STRFUNC_UTF32BE m = rev (bytes_le 4 m)"
| "encode _ m = concat (map (bytes_le 2) (utf16 m))"

lemma word_cmp:
  assumes "m < 2 ^ 31" and "n < 2 ^ 31"
  shows "(word_of_nat m < (word_of_nat n :: u32)) \<longleftrightarrow> m < n" "(word_of_nat m \<le> (word_of_nat n :: u32)) \<longleftrightarrow> m \<le> n"
proof -
  have "unat (word_of_nat x :: u32) = x" if "x < 2 ^ 31" for x
    using that unfolding unsigned_of_nat by (simp add: take_bit_nat_eq_self)
  then show "(word_of_nat m < (word_of_nat n :: u32)) \<longleftrightarrow> m < n" "(word_of_nat m \<le> (word_of_nat n :: u32)) \<longleftrightarrow> m \<le> n"
    using assms by (simp_all only: word_less_nat_alt word_le_nat_alt)
qed

lemma utf16_check_nat:
  assumes "m < 2 ^ 31" and "vm < 2 ^ 31"
  shows "utf16_check (word_of_nat m) (word_of_nat vm) \<longleftrightarrow> vm \<le> m \<and> m \<le> 0x10ffff \<and> \<not> surrogate m"
  using word_cmp [OF assms] word_cmp(1) [of "0x10ffff" m] word_cmp(2) [of "0xd800" m] word_cmp(2) [of m "0xdfff"] assms
  by (auto simp: utf16_check_def surrogate_def)

lemma high_low:
  assumes "0x10000 \<le> m" and "m \<le> 0x10ffff"
  shows "0xd800 OR drop_bit 10 (word_of_nat m - 0x10000 :: u32) = word_of_nat (0xd800 + (m - 0x10000) div 0x400)" (is ?h)
    and "0xdc00 OR (word_of_nat m - 0x10000 AND 0x3ff :: u32) = word_of_nat (0xdc00 + (m - 0x10000) mod 0x400)" (is ?l)
proof -
  have v: "word_of_nat m - 0x10000 = (word_of_nat (m - 0x10000) :: u32)" using assms(1) by (simp add: of_nat_diff)
  have u: "unat (word_of_nat (m - 0x10000) :: u32) = m - 0x10000"
    using assms(2) unfolding unsigned_of_nat by (simp add: take_bit_nat_eq_self)
  have d: "(m - 0x10000) div 0x400 < 2 ^ 10" using assms(2) by simp
  have "unat (drop_bit 10 (word_of_nat (m - 0x10000) :: u32)) = (m - 0x10000) div 0x400" by (simp add: unat_drop_bit u)
  then have "unat (0xd800 OR drop_bit 10 (word_of_nat (m - 0x10000)) :: u32) = 0xd800 + (m - 0x10000) div 0x400"
    using d by (subst unat_or_disjoint [where k = 10]) auto
  then show ?h unfolding v by (metis of_nat_unat ucast_id)
  have "unat (word_of_nat (m - 0x10000) AND 0x3ff :: u32) = (m - 0x10000) mod 0x400"
    using unat_and_low [of "word_of_nat (m - 0x10000) :: u32" 10] by (simp add: u mask_eq_exp_minus_1)
  then have "unat (0xdc00 OR (word_of_nat (m - 0x10000) AND 0x3ff) :: u32) = 0xdc00 + (m - 0x10000) mod 0x400"
    by (subst unat_or_disjoint [where k = 10]) auto
  then show ?l unfolding v by (metis of_nat_unat ucast_id)
qed

lemma finish_nat:
  assumes "m < 2 ^ 31" and "vm < 2 ^ 31"
  shows "finish_16le (word_of_nat m) (word_of_nat vm) =
      (if vm \<le> m \<and> m \<le> 0x10ffff \<and> \<not> surrogate m then Some (map word_of_nat (utf16 m)) else None)"
    and "finish_16be (word_of_nat m) (word_of_nat vm) =
      (if vm \<le> m \<and> m \<le> 0x10ffff \<and> \<not> surrogate m then Some (map word_of_nat (rev (utf16 m))) else None)"
    and "finish_32 (word_of_nat m) (word_of_nat vm) =
      (if vm \<le> m \<and> \<not> surrogate m then Some [word_of_nat m] else None)"
proof -
  have s: "0xffff < (word_of_nat m :: u32) \<longleftrightarrow> \<not> m < 0x10000" using word_cmp(1) [of "0xffff" m] assms by auto
  have h: "\<not> m < 0x10000 \<Longrightarrow> m \<le> 0x10ffff \<Longrightarrow> 
    0xd800 OR drop_bit 10 (word_of_nat m - 0x10000 :: u32) = word_of_nat (0xd800 + (m - 0x10000) div 0x400) \<and>
    0xdc00 OR (word_of_nat m - 0x10000 AND 0x3ff :: u32) = word_of_nat (0xdc00 + (m - 0x10000) mod 0x400)"
    using high_low [of m] by simp
  show "finish_16le (word_of_nat m) (word_of_nat vm) =
      (if vm \<le> m \<and> m \<le> 0x10ffff \<and> \<not> surrogate m then Some (map word_of_nat (utf16 m)) else None)"
    using h by (simp add: finish_16le_def utf16_check_nat [OF assms] s Let_def utf16_def del: of_nat_add)
  show "finish_16be (word_of_nat m) (word_of_nat vm) =
      (if vm \<le> m \<and> m \<le> 0x10ffff \<and> \<not> surrogate m then Some (map word_of_nat (rev (utf16 m))) else None)"
    using h by (simp add: finish_16be_def utf16_check_nat [OF assms] s Let_def utf16_def del: of_nat_add)
  show "finish_32 (word_of_nat m) (word_of_nat vm) =
      (if vm \<le> m \<and> \<not> surrogate m then Some [word_of_nat m] else None)"
    using word_cmp [OF assms] word_cmp(2) [of "0xd800" m] word_cmp(2) [of m "0xdfff"] assms
    by (auto simp: finish_32_def surrogate_def)
qed

interpretation u16le: utf8_finish finish_16le "\<lambda>m. m \<le> 0x10ffff \<and> \<not> surrogate m" "\<lambda>m. map word_of_nat (utf16 m)"
  by unfold_locales (auto simp: finish_nat surrogate_def utf16_def)

interpretation u16be: utf8_finish finish_16be "\<lambda>m. m \<le> 0x10ffff \<and> \<not> surrogate m" "\<lambda>m. map word_of_nat (rev (utf16 m))"
  by unfold_locales (auto simp: finish_nat surrogate_def utf16_def)

interpretation u32: utf8_finish finish_32 "\<lambda>m. \<not> surrogate m" "\<lambda>m. [word_of_nat m]"
  by unfold_locales (auto simp: finish_nat surrogate_def)

lemma drop_byte:
  assumes "x < 2 ^ 32"
  shows "ucast (drop_bit j (word_of_nat x :: u32)) = (word_of_nat (x div 2 ^ j) :: u8)"
proof -
  have "unat (drop_bit j (word_of_nat x :: u32)) = x div 2 ^ j"
    using assms unfolding unat_drop_bit unsigned_of_nat by (simp add: take_bit_nat_eq_self)
  then show ?thesis by (metis of_nat_unat)
qed

lemma write_bytes:
  assumes "x < 2 ^ 32"
  shows "write_16le (word_of_nat x) = bytes_le 2 x" "write_32le (word_of_nat x) = bytes_le 4 x"
    "write_32be (word_of_nat x) = rev (bytes_le 4 x)"
  using drop_byte [OF assms] drop_byte [OF assms, of 0]
  by (auto simp: write_16le_def write_32le_def write_32be_def le_bytes_def bytes_le_def power_mult upt_rec [of _ 2] upt_rec [of _ 4])

lemma write_16be_bytes:
  assumes "x < 2 ^ 16"
  shows "write_16be (word_of_nat x) = rev (bytes_le 2 x)"
proof -
  have "unat (ucast (word_of_nat x :: u32) :: u16) = x"
    using assms unfolding unsigned_ucast_eq unsigned_of_nat by (simp add: take_bit_nat_eq_self)
  moreover from this have "unat (drop_bit 8 (ucast (word_of_nat x :: u32) :: u16)) = x div 256"
    by (simp add: unat_drop_bit)
  ultimately show ?thesis
    by (simp add: write_16be_def bytes_le_def Let_def upt_rec [of _ 2]) (metis of_nat_unat)
qed

lemma utf16_less: "m \<le> 0x10ffff \<Longrightarrow> x \<in> set (utf16 m) \<Longrightarrow> x < 0x10000"
  by (auto simp: utf16_def split: if_splits)

lemma string_transform_units:
  assumes t: "\<And>str out. str_transforms func str out =
      andthen (utf8_loop fin wr str utf8_idle \<lparr>op = out, outlen = 0\<rparr>) (\<lambda>r. Inr (utf8_result k r))"
    and n: "\<And>x. length (wr x) = 2 ^ k"
  shows "string_transform junk str func =
    Inr (map_option (\<lambda>us. (length us * 2 ^ k, concat (map wr us) @ [0])) (utf8_units fin str utf8_idle))"
proof -
  have count: "str_transforms func str None =
      Inr (map_option (\<lambda>us. (length us * 2 ^ k, None)) (utf8_units fin str utf8_idle))"
    using utf8_count [of "\<lparr>op = None, outlen = 0\<rparr>" fin wr str utf8_idle k] by (simp add: t)
  show ?thesis
  proof (cases "utf8_units fin str utf8_idle")
    case None
    then show ?thesis by (simp add: string_transform_def count)
  next
    case (Some us)
    let ?n = "length us * 2 ^ k" and ?out = "concat (map wr us)"
    let ?buf = "(map junk [0..<?n + 1])[?n := 0]"
    have l: "length ?out = ?n" by (induction us) (simp_all add: n)
    have "str_transforms func str (Some (?buf, 0)) =
        Inr (Some (?n, Some (splice_at 0 ?out ?buf, 2 ^ k * length us)))"
      using utf8_fill [OF n Some, where q = 0 and buf = "?buf" and l = 0] by (simp add: t utf8_result_def mult.commute)
    moreover have "splice_at 0 ?out ?buf = ?out @ [0]"
      by (simp add: splice_at_def l drop_update_swap list_update_append)
    ultimately show ?thesis by (simp add: string_transform_def count Some Let_def)
  qed
qed

lemmas transform_units =
  string_transform_units [of _ finish_16le write_16le 1] string_transform_units [of _ finish_16be write_16be 1]
  string_transform_units [of _ finish_32 write_32le 2] string_transform_units [of _ finish_32 write_32be 2]

lemma transforms:
  "string_transform junk str STRFUNC_UTF16 =
    Inr (map_option (\<lambda>us. (length us * 2, concat (map write_16le us) @ [0])) (utf8_units finish_16le str utf8_idle))"
  "string_transform junk str STRFUNC_UTF16LE =
    Inr (map_option (\<lambda>us. (length us * 2, concat (map write_16le us) @ [0])) (utf8_units finish_16le str utf8_idle))"
  "string_transform junk str STRFUNC_UTF16BE =
    Inr (map_option (\<lambda>us. (length us * 2, concat (map write_16be us) @ [0])) (utf8_units finish_16be str utf8_idle))"
  "string_transform junk str STRFUNC_UTF32 =
    Inr (map_option (\<lambda>us. (length us * 4, concat (map write_32le us) @ [0])) (utf8_units finish_32 str utf8_idle))"
  "string_transform junk str STRFUNC_UTF32LE =
    Inr (map_option (\<lambda>us. (length us * 4, concat (map write_32le us) @ [0])) (utf8_units finish_32 str utf8_idle))"
  "string_transform junk str STRFUNC_UTF32BE =
    Inr (map_option (\<lambda>us. (length us * 4, concat (map write_32be us) @ [0])) (utf8_units finish_32 str utf8_idle))"
  by (subst transform_units, simp_all add: utf8_to_16le_def utf8_to_16be_def utf8_to_32le_def utf8_to_32be_def
      write_16le_def write_16be_def write_32le_def write_32be_def Let_def)+

lemma scalar_less: "scalar func m \<Longrightarrow> m < 2 ^ 31 \<and> \<not> surrogate m"
  by (cases func) auto

lemma length_bytes_le [simp]: "length (bytes_le n x) = n"
  by (simp add: bytes_le_def)

lemma write_values:
  "\<forall>m \<in> set ms. m \<le> 0x10ffff \<Longrightarrow>
    concat (map write_16le (concat (map (\<lambda>m. map word_of_nat (utf16 m)) ms))) =
      concat (map (\<lambda>m. concat (map (bytes_le 2) (utf16 m))) ms)"
  "\<forall>m \<in> set ms. m \<le> 0x10ffff \<Longrightarrow>
    concat (map write_16be (concat (map (\<lambda>m. map word_of_nat (rev (utf16 m))) ms))) =
      concat (map (\<lambda>m. concat (map (\<lambda>x. rev (bytes_le 2 x)) (rev (utf16 m)))) ms)"
  "\<forall>m \<in> set ms. m < 2 ^ 31 \<Longrightarrow>
    concat (map write_32le (concat (map (\<lambda>m. [word_of_nat m]) ms))) = concat (map (bytes_le 4) ms)"
  "\<forall>m \<in> set ms. m < 2 ^ 31 \<Longrightarrow>
    concat (map write_32be (concat (map (\<lambda>m. [word_of_nat m]) ms))) = concat (map (\<lambda>m. rev (bytes_le 4 m)) ms)"
proof (induction ms)
  case (Cons m ms)
  {
    case 1
    then have "concat (map (write_16le \<circ> word_of_nat) (utf16 m)) = concat (map (bytes_le 2) (utf16 m))"
      using utf16_less [of m] by (intro arg_cong [where f = concat] map_cong) (fastforce simp: write_bytes)+
    then show ?case using 1 Cons.IH(1) by simp
  next
    case 2
    then have "concat (map (write_16be \<circ> word_of_nat) (rev (utf16 m))) = concat (map (\<lambda>x. rev (bytes_le 2 x)) (rev (utf16 m)))"
      using utf16_less [of m] by (intro arg_cong [where f = concat] map_cong) (fastforce simp: write_16be_bytes)+
    then show ?case using 2 Cons.IH(2) by simp
  next
    case 3
    then show ?case using Cons.IH(3) by (simp add: write_bytes)
  next
    case 4
    then show ?case using Cons.IH(4) by (simp add: write_bytes)
  }
qed simp_all

lemma length_values:
  "length (concat (map (\<lambda>m. concat (map (bytes_le 2) (utf16 m))) ms)) = 2 * length (concat (map (\<lambda>m. map word_of_nat (utf16 m) :: u32 list) ms))"
  "length (concat (map (\<lambda>m. concat (map (\<lambda>x. rev (bytes_le 2 x)) (rev (utf16 m)))) ms)) =
    2 * length (concat (map (\<lambda>m. map word_of_nat (rev (utf16 m)) :: u32 list) ms))"
  "length (concat (map (bytes_le 4) ms)) = 4 * length ms"
  "length (concat (map (\<lambda>m. rev (bytes_le 4 m)) ms)) = 4 * length ms"
  by (induction ms) (auto simp: utf16_def)

lemma encode_eq:
  "encode STRFUNC_UTF16 = (\<lambda>m. concat (map (bytes_le 2) (utf16 m)))"
  "encode STRFUNC_UTF16LE = (\<lambda>m. concat (map (bytes_le 2) (utf16 m)))"
  "encode STRFUNC_UTF16BE = (\<lambda>m. concat (map (\<lambda>x. rev (bytes_le 2 x)) (rev (utf16 m))))"
  "encode STRFUNC_UTF32 = bytes_le 4" "encode STRFUNC_UTF32LE = bytes_le 4"
  "encode STRFUNC_UTF32BE = (\<lambda>m. rev (bytes_le 4 m))"
  by (simp_all add: fun_eq_iff)



end
