(* ===== verification/Numbers.thy ===== *)
theory Numbers
  imports NasmString Quote
begin

text \<open>
  Numbers: the integer logarithm of \<open>include/ilog2.h\<close>, the range tests of \<open>include/nasmlib.h\<close>,
  reading a numeric constant (\<open>nasmlib/readnum.c\<close>) and a character constant
  (\<open>asm/rdstrnum.c\<close>).
\<close>

section \<open>Integer logarithms\<close>

text \<open>The portable branch of the header. \<open>ROUND\<close> halves the range that holds the top bit.\<close>

definition ROUND :: "nat \<Rightarrow> u32 \<times> int \<Rightarrow> u32 \<times> int" where
  "ROUND w = (\<lambda>(v, a).
     if v AND push_bit w (push_bit w 1 - 1) \<noteq> 0 then (drop_bit w v, a + int w) else (v, a))"

definition ilog2_32 :: "u32 \<Rightarrow> int" where
  "ilog2_32 v = snd (ROUND 1 (ROUND 2 (ROUND 4 (ROUND 8 (ROUND 16 (v, 0))))))"

definition ilog2_64 :: "u64 \<Rightarrow> int" where
  "ilog2_64 vv =
     (let v = ucast (drop_bit 32 vv);
          (v, p) = (if v \<noteq> 0 then (v, 32) else (ucast vv, 0))
      in snd (ROUND 1 (ROUND 2 (ROUND 4 (ROUND 8 (ROUND 16 (v, p)))))))"

definition alignlog2_32 :: "u32 \<Rightarrow> int" where
  "alignlog2_32 v = (if v AND (v - 1) \<noteq> 0 then - 1 else ilog2_32 v)"

definition alignlog2_64 :: "u64 \<Rightarrow> int" where
  "alignlog2_64 v = (if v AND (v - 1) \<noteq> 0 then - 1 else ilog2_64 v)"

section \<open>Range tests\<close>

definition overflow_general :: "i64 \<Rightarrow> int \<Rightarrow> bool result" where
  "overflow_general val n =
     (if n \<ge> 8 then Inr False
      else let sbit = n * 8 - 1
           in guard (0 \<le> sbit) UndefinedShift
                (let vmax = push_bit (nat sbit) 2 - 1; vmin = - push_bit (nat sbit) 2
                 in Inr (sint val < sint (vmin :: i64) \<or> sint val > sint (vmax :: i64))))"

definition overflow_signed :: "i64 \<Rightarrow> int \<Rightarrow> bool result" where
  "overflow_signed val n =
     (if n \<ge> 8 then Inr False
      else let sbit = n * 8 - 1
           in guard (0 \<le> sbit) UndefinedShift
                (let vmax = push_bit (nat sbit) 1 - 1; vmin = - push_bit (nat sbit) 1
                 in Inr (sint val < sint (vmin :: i64) \<or> sint val > sint (vmax :: i64))))"

definition overflow_unsigned :: "i64 \<Rightarrow> int \<Rightarrow> bool result" where
  "overflow_unsigned val n =
     (if n \<ge> 8 then Inr False
      else let sbit = n * 8 - 1
           in guard (0 \<le> sbit) UndefinedShift
                (let vmax = push_bit (nat sbit) 2 - 1; vmin = 0
                 in Inr (sint val < sint (vmin :: i64) \<or> sint val > sint (vmax :: i64))))"

definition signed_bits :: "i64 \<Rightarrow> int \<Rightarrow> i64 result" where
  "signed_bits val n =
     (if n < 64
      then guard (1 \<le> n) UndefinedShift
             (let val = val AND (push_bit (nat n) 1 - 1)
              in Inr (if val AND push_bit (nat n - 1) 1 \<noteq> 0 then val OR push_bit (nat n) (- 1) else val))
      else Inr val)"

section \<open>Numeric constants\<close>

definition lib_isnumchar :: "u8 \<Rightarrow> bool" where
  "lib_isnumchar c \<longleftrightarrow> isalnum c \<or> c = 0x24 \<or> c = 0x5F"

definition radix_letter :: "u8 \<Rightarrow> int" where
  "radix_letter c =
     (if c \<in> {0x62, 0x42, 0x79, 0x59} then 2
      else if c \<in> {0x6F, 0x4F, 0x71, 0x51} then 8
      else if c \<in> {0x68, 0x48, 0x78, 0x58} then 16
      else if c \<in> {0x64, 0x44, 0x74, 0x54} then 10
      else 0)"

text \<open>
  The first half of \<open>readnum\<close>: the sign and the characters of the number, and then its radix and
  digits. A null byte ends every scan, as it is no number character.
\<close>

definition number_chars :: "bytes \<Rightarrow> int \<times> bytes" where
  "number_chars str =
     (let r = dropWhile isspace str;
          (r, sign) = (case r of c # r' \<Rightarrow> if c = 0x2D then (r', - 1) else (r, 1) | [] \<Rightarrow> (r, 1))
      in (sign, takeWhile lib_isnumchar r))"

definition number_radix :: "bytes \<Rightarrow> int \<times> bytes" where
  "number_radix num =
     (let len = length num;
          (pradix, plen) =
            (if len > 2 \<and> num ! 0 = 0x30 \<and> radix_letter (num ! 1) \<noteq> 0 then (radix_letter (num ! 1), 2)
             else if len > 1 \<and> num ! 0 = 0x24 then (16, 1) else (0, 0));
          (sradix, slen) =
            (if len > 1 \<and> radix_letter (num ! (len - 1)) \<noteq> 0 then (radix_letter (num ! (len - 1)), 1)
             else (0, 0))
      in if pradix > sradix then (pradix, drop plen num)
         else if sradix > pradix then (sradix, take (len - slen) num)
         else (10, num))"

text \<open>The second half: the digits, the value modulo \<open>2 ^ 64\<close>, and whether it did not fit.\<close>

fun read_digits :: "int \<Rightarrow> u64 \<Rightarrow> int \<Rightarrow> bytes \<Rightarrow> u64 \<times> bool \<Rightarrow> (u64 \<times> bool) option" where
  "read_digits radix checklimit lastd [] acc = Some acc"
| "read_digits radix checklimit lastd (c # r) (res, warn) =
     (if c = 0x5F then read_digits radix checklimit lastd r (res, warn)
      else if sint c < 0x30 \<or> sint c > 0x39 \<and> sint c < 0x41 \<or> numvalue c \<ge> radix then None
      else let digit = numvalue c;
               warn = (warn \<or> res > checklimit \<or> res = checklimit \<and> digit \<ge> lastd)
           in read_digits radix checklimit lastd r (word_of_int radix * res + word_of_int digit, warn))"

text \<open>\<open>None\<close> is the error flag; otherwise the number and whether the warning was given.\<close>

definition readnum :: "bytes \<Rightarrow> (i64 \<times> bool) option" where
  "readnum str =
     (let (sign, num) = number_chars str
      in if num = [] then None
         else let (radix, ds) = number_radix num;
                  checklimit = 0x8000000000000000 div word_of_int (radix div 2);
                  lastd = (if radix = 10 then 6 else 0)
              in map_option (\<lambda>(res, warn). (res * word_of_int sign, warn))
                   (read_digits radix checklimit lastd ds (0, False)))"

section \<open>Character constants\<close>

definition charconst_step :: "i64 \<Rightarrow> u8 \<Rightarrow> i64 \<times> bool \<Rightarrow> i64 \<times> bool" where
  "charconst_step hi c = (\<lambda>(charconst, warn).
     (push_bit 8 (charconst AND (if hi = 0xFF00000000000000 then NOT hi else 0x00FFFFFF)) + ucast c,
      warn \<or> charconst AND hi \<noteq> 0))"

definition readstrnum :: "int \<Rightarrow> bytes \<Rightarrow> i64 \<times> bool" where
  "readstrnum globalbits str =
     foldr (charconst_step (if globalbits = 64 then 0xFF00000000000000 else 0xFF000000)) str (0, False)"

section \<open>The logarithm\<close>

lemma and_high_mask:
  "w AND push_bit k (push_bit n 1 - 1) = 0 \<longleftrightarrow> unat (w :: 'a::len word) div 2 ^ k mod 2 ^ n = 0"
  if "k + n \<le> LENGTH('a)" and "0 < n"
proof -
  have m: "push_bit n 1 - 1 = (mask n :: 'a word)" by (simp add: mask_eq_exp_minus_1 push_bit_eq_mult)
  have "w AND push_bit k (mask n) = push_bit k (take_bit n (drop_bit k w))"
    by (rule bit_word_eqI) (auto simp: bit_simps)
  moreover have "unat (push_bit k (take_bit n (drop_bit k w))) = 2 ^ k * (unat w div 2 ^ k mod 2 ^ n)"
  proof -
    have "2 ^ k * (unat w div 2 ^ k mod 2 ^ n) < 2 ^ k * 2 ^ n" by simp
    also have "\<dots> \<le> 2 ^ LENGTH('a)" using that by (simp flip: power_add)
    finally have "2 ^ k * (unat w div 2 ^ k mod 2 ^ n) mod 2 ^ LENGTH('a) = 2 ^ k * (unat w div 2 ^ k mod 2 ^ n)"
      by simp
    then show ?thesis
      using that by (simp add: push_bit_eq_mult unat_word_ariths unat_take_bit unat_drop_bit unat_two_power mult.commute)
  qed
  ultimately have "unat (w AND push_bit k (push_bit n 1 - 1)) = 2 ^ k * (unat w div 2 ^ k mod 2 ^ n)"
    by (simp only: m)
  moreover have "x = 0 \<longleftrightarrow> unat x = 0" for x :: "'a word" by (simp add: word_unat_eq_iff)
  ultimately show ?thesis by auto
qed

definition logs :: "nat \<Rightarrow> int \<Rightarrow> nat \<Rightarrow> u32 \<times> int \<Rightarrow> bool" where
  "logs v0 a0 b x \<longleftrightarrow> (case x of (v, a) \<Rightarrow> unat v < 2 ^ b \<and>
     (\<exists>k. a = a0 + int k \<and> unat v = v0 div 2 ^ k) \<and> (v0 \<noteq> 0 \<longrightarrow> v \<noteq> 0))"

lemma ROUND_logs:
  assumes "logs v0 a0 (w + w) x" and "w \<le> 16"
  shows "logs v0 a0 w (ROUND w x)"
proof -
  obtain v a where x: "x = (v, a)" by (cases x)
  from assms(1) obtain k where k: "a = a0 + int k" "unat v = v0 div 2 ^ k" "unat v < 2 ^ (w + w)" "v0 \<noteq> 0 \<Longrightarrow> v \<noteq> 0"
    by (auto simp: logs_def x)
  have "unat v div 2 ^ w < 2 ^ w" using k(3) by (simp add: power_add less_mult_imp_div_less)
  then have z: "v AND push_bit w (push_bit w 1 - 1) = 0 \<longleftrightarrow> unat v div 2 ^ w = 0"
    using and_high_mask [of w w v] assms(2) \<open>unat v div 2 ^ w < 2 ^ w\<close> by (cases "w = 0") simp_all
  show ?thesis
  proof (cases "unat v div 2 ^ w = 0")
    case True
    then have "unat v < 2 ^ w" by (simp add: div_eq_0_iff)
    then show ?thesis using True z k by (auto simp: ROUND_def x logs_def)
  next
    case False
    have "unat (drop_bit w v) = v0 div 2 ^ (k + w)" by (simp add: unat_drop_bit k(2) power_add div_mult2_eq)
    moreover have "unat (drop_bit w v) \<noteq> 0" using False by (simp add: unat_drop_bit)
    then have "drop_bit w v \<noteq> 0" by auto
    moreover have "unat (drop_bit w v) < 2 ^ w" using \<open>unat v div 2 ^ w < 2 ^ w\<close> by (simp only: unat_drop_bit)
    moreover have "a + int w = a0 + int (k + w)" using k(1) by simp
    ultimately have "logs v0 a0 w (drop_bit w v, a + int w)" unfolding logs_def by blast
    then show ?thesis using False z by (simp add: ROUND_def x)
  qed
qed

lemma logs_32: "logs (unat v) a 32 (v, a)"
  using unsigned_less [of v, where 'a = nat] by (auto simp: logs_def intro: exI [of _ 0])

lemma logs_result:
  assumes "logs v0 a0 32 x"
  shows "\<exists>k. snd (ROUND 1 (ROUND 2 (ROUND 4 (ROUND 8 (ROUND 16 x))))) = a0 + int k \<and>
    (v0 = 0 \<longrightarrow> True) \<and> (v0 \<noteq> 0 \<longrightarrow> 2 ^ k \<le> v0 \<and> v0 < 2 ^ Suc k)"
proof -
  have "logs v0 a0 1 (ROUND 1 (ROUND 2 (ROUND 4 (ROUND 8 (ROUND 16 x)))))"
  proof -
    have 1: "logs v0 a0 16 (ROUND 16 x)" by (rule ROUND_logs) (use assms in simp_all)
    have 2: "logs v0 a0 8 (ROUND 8 (ROUND 16 x))" by (rule ROUND_logs) (use 1 in simp_all)
    have 3: "logs v0 a0 4 (ROUND 4 (ROUND 8 (ROUND 16 x)))" by (rule ROUND_logs) (use 2 in simp_all)
    have 4: "logs v0 a0 2 (ROUND 2 (ROUND 4 (ROUND 8 (ROUND 16 x))))" by (rule ROUND_logs) (use 3 in simp_all)
    show ?thesis by (rule ROUND_logs) (use 4 in \<open>simp_all del: One_nat_def\<close>)
  qed
  then obtain v a k where r: "ROUND 1 (ROUND 2 (ROUND 4 (ROUND 8 (ROUND 16 x)))) = (v, a)"
    "a = a0 + int k" "unat v = v0 div 2 ^ k" "unat v < 2" "v0 \<noteq> 0 \<Longrightarrow> v \<noteq> 0"
    by (cases "ROUND 1 (ROUND 2 (ROUND 4 (ROUND 8 (ROUND 16 x))))") (auto simp: logs_def)
  have "2 ^ k \<le> v0 \<and> v0 < 2 ^ Suc k" if "v0 \<noteq> 0"
  proof -
    have "unat v \<noteq> 0" using r(5) [OF that] by (simp add: unat_eq_0)
    then have "v0 div 2 ^ k = 1" using r(3,4) by simp
    moreover have "v0 mod 2 ^ k < 2 ^ k" by simp
    moreover have "2 ^ k + v0 mod 2 ^ k = v0" using div_mult_mod_eq [of v0 "2 ^ k"] calculation(1) by simp
    ultimately show ?thesis unfolding power_Suc by linarith
  qed
  then show ?thesis using r by auto
qed

lemma logs_zero: "logs 0 0 w (0, 0) \<Longrightarrow> ROUND w (0, 0) = (0, 0)"
  by (simp add: ROUND_def)

lemma ilog2_32_bounds:
  "ilog2_32 0 = 0" "v \<noteq> 0 \<Longrightarrow> \<exists>k. ilog2_32 v = int k \<and> 2 ^ k \<le> unat v \<and> unat v < 2 ^ Suc k"
proof -
  show "ilog2_32 0 = 0" by (simp add: ilog2_32_def ROUND_def)
  assume "v \<noteq> 0"
  then have "unat v \<noteq> 0" by (simp add: unat_eq_0)
  then show "\<exists>k. ilog2_32 v = int k \<and> 2 ^ k \<le> unat v \<and> unat v < 2 ^ Suc k"
    using logs_result [OF logs_32 [of v 0]] by (auto simp: ilog2_32_def)
qed

lemma ilog2_64_bounds:
  "ilog2_64 0 = 0" "v \<noteq> 0 \<Longrightarrow> \<exists>k. ilog2_64 v = int k \<and> 2 ^ k \<le> unat v \<and> unat v < 2 ^ Suc k"
proof -
  show "ilog2_64 0 = 0" by (simp add: ilog2_64_def ROUND_def)
  assume v: "v \<noteq> 0"
  let ?h = "ucast (drop_bit 32 v) :: u32"
  have n: "unat v < 2 ^ 64" using unsigned_less [of v, where 'a = nat] by simp
  have h: "unat ?h = unat v div 2 ^ 32"
    using n by (simp add: unsigned_ucast_eq unat_drop_bit take_bit_nat_eq_self less_mult_imp_div_less)
  show "\<exists>k. ilog2_64 v = int k \<and> 2 ^ k \<le> unat v \<and> unat v < 2 ^ Suc k"
  proof (cases "?h = 0")
    case True
    then have "unat v div 2 ^ 32 = 0" using h by simp
    then have l: "unat (ucast v :: u32) = unat v"
      by (simp add: unsigned_ucast_eq take_bit_nat_eq_self div_eq_0_iff)
    moreover have "unat v \<noteq> 0" using v by (simp add: unat_eq_0)
    ultimately show ?thesis using True logs_result [OF logs_32 [of "ucast v" 0]] by (auto simp: ilog2_64_def)
  next
    case False
    then have nz: "unat ?h \<noteq> 0" by (simp add: unat_eq_0)
    obtain k where k: "ilog2_64 v = 32 + int k" "2 ^ k \<le> unat ?h" "unat ?h < 2 ^ Suc k"
      using False logs_result [OF logs_32 [of ?h 32]] nz by (auto simp: ilog2_64_def)
    have "2 ^ k * 2 ^ 32 \<le> unat v" using k(2) h by (simp add: less_eq_div_iff_mult_less_eq)
    moreover have "unat v < 2 ^ Suc k * 2 ^ 32" using k(3) h by (simp add: div_less_iff_less_mult)
    ultimately have "2 ^ (32 + k) \<le> unat v" "unat v < 2 ^ Suc (32 + k)" by (simp_all add: power_add mult.commute)
    then show ?thesis using k(1) by (intro exI [of _ "32 + k"]) simp
  qed
qed

lemma single_bit_iff:
  assumes "2 ^ k \<le> unat v" and "unat v < 2 ^ Suc k"
  shows "v AND (v - 1) = 0 \<longleftrightarrow> unat (v :: 'a::len word) = 2 ^ k"
proof -
  define n r where "n = unat v" and "r = unat v - 2 ^ k"
  have n: "n = 2 ^ k + r" "r < 2 ^ k" using assms by (simp_all add: n_def r_def)
  have "v \<noteq> 0" using assms(1) by auto
  then have v1: "unat (v - 1) = n - 1" by (simp add: unat_minus_one n_def)
  have z: "v AND (v - 1) = 0 \<longleftrightarrow> n AND (n - 1) = 0"
    unfolding word_unat_eq_iff unsigned_and_eq v1 by (simp add: n_def)
  have "n AND (n - 1) = 0 \<longleftrightarrow> r = 0"
  proof
    assume "r = 0"
    then have "n - 1 = mask k" "n = 2 ^ k" by (simp_all add: n(1) mask_eq_exp_minus_1)
    then have "n AND (n - 1) = take_bit k (2 ^ k)" by (simp only: take_bit_eq_mask)
    then show "n AND (n - 1) = 0" by simp
  next
    assume "n AND (n - 1) = 0"
    show "r = 0"
    proof (rule ccontr)
      assume "r \<noteq> 0"
      then have n1: "n - 1 = 2 ^ k + (r - 1)" "r - 1 < 2 ^ k" using n by simp_all
      have d: "(2 ^ k + x) div 2 ^ k = 1" if "x < 2 ^ k" for x :: nat using that by (simp add: div_add_self1)
      have "(n - 1) div 2 ^ k = 1" unfolding n1(1) using n1(2) by (rule d)
      moreover have "n div 2 ^ k = 1" unfolding n(1) using n(2) by (rule d)
      ultimately
      have "bit n k" "bit (n - 1) k" by (simp_all add: bit_iff_odd)
      then have "bit (n AND (n - 1)) k" by (simp add: bit_and_iff)
      then show False using \<open>n AND (n - 1) = 0\<close> by simp
    qed
  qed
  then show ?thesis using z n by (simp add: n_def)
qed

lemma Greatest_power:
  fixes n :: nat
  assumes "2 ^ k \<le> n" and "n < 2 ^ Suc k"
  shows "(GREATEST j. 2 ^ j \<le> n) = (k :: nat)"
proof (rule Greatest_equality)
  fix j assume "2 ^ j \<le> n"
  then have "(2 :: nat) ^ j < 2 ^ Suc k" using assms(2) by (rule le_less_trans)
  then have "j < Suc k" by (rule power_less_imp_less_exp [rotated]) simp
  then show "j \<le> k" by simp
qed (rule assms(1))

lemma log_and_align:
  fixes v :: "'a::len word" and lg :: int
  assumes "lg = int k" and "2 ^ k \<le> unat v" and "unat v < 2 ^ Suc k"
  shows "lg = int (GREATEST k. 2 ^ k \<le> unat v)"
    and "v AND (v - 1) = 0 \<longleftrightarrow> (\<exists>k<LENGTH('a). unat v = 2 ^ k)"
proof -
  show "lg = int (GREATEST k. 2 ^ k \<le> unat v)" using assms Greatest_power [OF assms(2,3)] by simp
  have "(2 :: nat) ^ k < 2 ^ LENGTH('a)" using assms(2) unsigned_less [of v, where 'a = nat] by (rule le_less_trans)
  then have k: "k < LENGTH('a)" by (rule power_less_imp_less_exp [rotated]) simp
  have "j = k" if "unat v = 2 ^ j" for j
    using Greatest_power [OF assms(2,3)] Greatest_power [of j "unat v"] that by simp
  then show "v AND (v - 1) = 0 \<longleftrightarrow> (\<exists>k<LENGTH('a). unat v = 2 ^ k)"
    using single_bit_iff [OF assms(2,3)] k by auto
qed

text \<open>
  C39. The logarithms are the exponent of the largest power of two that is not above the argument (and
  zero for zero), and the alignment logarithms reject what is neither zero nor a power of two.
\<close>

theorem ilog2_correct:
  "ilog2_64 v = (if v = 0 then 0 else int (GREATEST k. 2 ^ k \<le> unat v)) \<and>
   alignlog2_64 v = (if v = 0 then 0 else if \<exists>k<64. unat v = 2 ^ k then ilog2_64 v else - 1) \<and>
   ilog2_32 w = (if w = 0 then 0 else int (GREATEST k. 2 ^ k \<le> unat w)) \<and>
   alignlog2_32 w = (if w = 0 then 0 else if \<exists>k<32. unat w = 2 ^ k then ilog2_32 w else - 1)"
proof -
  have v: "v \<noteq> 0 \<Longrightarrow> ilog2_64 v = int (GREATEST k. 2 ^ k \<le> unat v) \<and> (v AND (v - 1) = 0 \<longleftrightarrow> (\<exists>k<64. unat v = 2 ^ k))"
    using ilog2_64_bounds(2) [of v] log_and_align [of "ilog2_64 v" _ v] by auto
  have w: "w \<noteq> 0 \<Longrightarrow> ilog2_32 w = int (GREATEST k. 2 ^ k \<le> unat w) \<and> (w AND (w - 1) = 0 \<longleftrightarrow> (\<exists>k<32. unat w = 2 ^ k))"
    using ilog2_32_bounds(2) [of w] log_and_align [of "ilog2_32 w" _ w] by auto
  show ?thesis
    using v w by (cases "v = 0"; cases "w = 0")
      (simp_all add: alignlog2_64_def alignlog2_32_def ilog2_64_bounds(1) ilog2_32_bounds(1))
qed

section \<open>Ranges\<close>

text \<open>
  For an operand of one to seven bytes the tests are exactly the ranges of two's complement, of
  unsigned and of either; eight bytes always fit, and no bytes at all are an undefined shift.
  \<open>signed_bits\<close> is sign extension from its lowest bits.
\<close>

theorem overflow_correct:
  "overflow_signed val n = (if 8 \<le> n then Inr False else if n \<le> 0 then Inl UndefinedShift
     else Inr (\<not> (- (2 ^ (8 * nat n - 1)) \<le> sint val \<and> sint val < 2 ^ (8 * nat n - 1)))) \<and>
   overflow_unsigned val n = (if 8 \<le> n then Inr False else if n \<le> 0 then Inl UndefinedShift
     else Inr (\<not> (0 \<le> sint val \<and> sint val < 2 ^ (8 * nat n)))) \<and>
   overflow_general val n = (if 8 \<le> n then Inr False else if n \<le> 0 then Inl UndefinedShift
     else Inr (\<not> (- (2 ^ (8 * nat n)) \<le> sint val \<and> sint val < 2 ^ (8 * nat n)))) \<and>
   signed_bits val b = (if 64 \<le> b then Inr val else if b \<le> 0 then Inl UndefinedShift
     else Inr (signed_take_bit (nat b - 1) val))"
proof -
  consider "8 \<le> n" | "n \<le> 0" | "n = 1" | "n = 2" | "n = 3" | "n = 4" | "n = 5" | "n = 6" | "n = 7" by linarith
  then have o: "overflow_signed val n = (if 8 \<le> n then Inr False else if n \<le> 0 then Inl UndefinedShift
     else Inr (\<not> (- (2 ^ (8 * nat n - 1)) \<le> sint val \<and> sint val < 2 ^ (8 * nat n - 1)))) \<and>
    overflow_unsigned val n = (if 8 \<le> n then Inr False else if n \<le> 0 then Inl UndefinedShift
     else Inr (\<not> (0 \<le> sint val \<and> sint val < 2 ^ (8 * nat n)))) \<and>
    overflow_general val n = (if 8 \<le> n then Inr False else if n \<le> 0 then Inl UndefinedShift
     else Inr (\<not> (- (2 ^ (8 * nat n)) \<le> sint val \<and> sint val < 2 ^ (8 * nat n))))"
    by cases (auto simp: overflow_signed_def overflow_unsigned_def overflow_general_def guard_def Let_def push_bit_eq_mult)
  have "signed_bits val b = Inr (signed_take_bit (nat b - 1) val)" if b: "1 \<le> b" "b < 64"
  proof -
    define k where "k = nat b - 1"
    have k: "nat b = Suc k" "k < 63" using b by (simp_all add: k_def)
    let ?v = "val AND (push_bit (Suc k) 1 - 1)"
    have m: "push_bit (Suc k) 1 - 1 = (mask (Suc k) :: i64)"
      by (simp add: mask_eq_exp_minus_1 push_bit_eq_mult del: push_bit_Suc)
    have z: "?v AND push_bit k 1 \<noteq> 0 \<longleftrightarrow> bit val k"
      unfolding m using k(2) by (subst bit_iff_and_push_bit_not_eq_0 [symmetric]) (simp_all add: bit_simps)
    have r: "(if bit val k then ?v OR push_bit (Suc k) (- 1) else ?v) = signed_take_bit k val"
      unfolding m by (rule bit_word_eqI) (auto simp: bit_simps min_def less_Suc_eq simp del: push_bit_Suc)
    show ?thesis
      by (simp only: signed_bits_def Let_def b k(1) diff_Suc_1 z r if_True guard_True)
  qed
  then have "signed_bits val b = (if 64 \<le> b then Inr val else if b \<le> 0 then Inl UndefinedShift
     else Inr (signed_take_bit (nat b - 1) val))" by (auto simp: signed_bits_def guard_def)
  with o show ?thesis by blast
qed


section \<open>Reading digits\<close>

definition valid_digit :: "int \<Rightarrow> u8 \<Rightarrow> bool" where
  "valid_digit radix c \<longleftrightarrow> \<not> (sint c < 0x30 \<or> sint c > 0x39 \<and> sint c < 0x41 \<or> numvalue c \<ge> radix)"

definition digits_value :: "int \<Rightarrow> bytes \<Rightarrow> int" where
  "digits_value radix ds = foldl (\<lambda>a c. radix * a + numvalue c) 0 (filter (\<lambda>c. c \<noteq> 0x5F) ds)"

lemma numvalue_nonneg: "valid_digit radix c \<Longrightarrow> 0 \<le> numvalue c"
  by (auto simp: valid_digit_def numvalue_def)

text \<open>The test for the last digit is exact.\<close>

lemma limit_exact:
  assumes "radix \<in> {2, 8, 10, 16}" and "0 \<le> V" and "V < 2 ^ 64" and "0 \<le> d" and "d < radix"
  shows "(0x8000000000000000 div word_of_int (radix div 2) < (word_of_int V :: u64) \<or>
      word_of_int V = (0x8000000000000000 div word_of_int (radix div 2) :: u64) \<and> (if radix = 10 then 6 else 0) \<le> d)
    \<longleftrightarrow> 2 ^ 64 \<le> radix * V + d"
proof -
  have V: "uint (word_of_int V :: u64) = V" using assms(2,3) by (simp add: uint_word_of_int)
  have l: "uint (0x8000000000000000 div word_of_int (radix div 2) :: u64) = 2 ^ 63 div (radix div 2)"
    using assms(1) by (auto simp: uint_div)
  have "2 ^ 63 div (radix div 2) < V \<or> V = 2 ^ 63 div (radix div 2) \<and> (if radix = 10 then 6 else 0) \<le> d
    \<longleftrightarrow> 2 ^ 64 \<le> radix * V + d"
    using assms by auto
  then show ?thesis by (simp add: word_less_def word_uint_eq_iff V l)
qed

lemma read_digits_value:
  assumes "radix \<in> {2, 8, 10, 16}"
  shows "0 \<le> V \<Longrightarrow>
    read_digits radix (0x8000000000000000 div word_of_int (radix div 2)) (if radix = 10 then 6 else 0) ds
      (word_of_int V, 2 ^ 64 \<le> V) =
    (if \<forall>c \<in> set ds. c = 0x5F \<or> valid_digit radix c
     then let V' = foldl (\<lambda>a c. radix * a + numvalue c) V (filter (\<lambda>c. c \<noteq> 0x5F) ds)
          in Some (word_of_int V', 2 ^ 64 \<le> V')
     else None)"
proof (induction ds arbitrary: V)
  case (Cons c ds)
  show ?case
  proof (cases "c = 0x5F \<or> \<not> valid_digit radix c")
    case True
    then show ?thesis using Cons by (auto simp: valid_digit_def)
  next
    case False
    then have v: "valid_digit radix c" "c \<noteq> 0x5F" by auto
    let ?V = "radix * V + numvalue c"
    have d: "0 \<le> numvalue c" "numvalue c < radix" using v numvalue_nonneg by (auto simp: valid_digit_def)
    have r: "1 \<le> radix" using assms by auto
    have nn: "0 \<le> ?V" using Cons.prems d(1) r by simp
    have warn: "(2 ^ 64 \<le> V \<or> 0x8000000000000000 div word_of_int (radix div 2) < (word_of_int V :: u64) \<or>
        word_of_int V = (0x8000000000000000 div word_of_int (radix div 2) :: u64) \<and>
          (if radix = 10 then 6 else 0) \<le> numvalue c) \<longleftrightarrow> 2 ^ 64 \<le> ?V"
    proof (cases "2 ^ 64 \<le> V")
      case True
      have "V \<le> radix * V" using r Cons.prems by (simp add: mult_le_cancel_right1)
      then have "2 ^ 64 \<le> ?V" using True d(1) by linarith
      with True show ?thesis by blast
    next
      case False
      then show ?thesis using limit_exact [OF assms Cons.prems _ d] by simp
    qed
    have w: "word_of_int radix * word_of_int V + word_of_int (numvalue c) = (word_of_int ?V :: u64)" by simp
    have step: "read_digits radix L la (c # ds) (word_of_int V, 2 ^ 64 \<le> V) =
        read_digits radix L la ds (word_of_int ?V, 2 ^ 64 \<le> V \<or> L < word_of_int V \<or> word_of_int V = L \<and> la \<le> numvalue c)" for L la
      using v unfolding w [symmetric] valid_digit_def by (auto simp: Let_def simp del: of_int_add of_int_mult)
    show ?thesis unfolding step warn using Cons.IH [OF nn] v by (simp add: Let_def)
  qed
qed (simp add: Let_def)

lemma number_radix_cases: "fst (number_radix num) \<in> {2, 8, 10, 16}"
proof -
  define R :: "int set" where "R = {2, 8, 10, 16}"
  have R: "x \<in> R \<Longrightarrow> 0 < x" "10 \<in> R" "16 \<in> R" for x by (auto simp: R_def)
  have g: "(if a then 2 else if b then 8 else if d then 16 else if e then 10 else 0) \<in> R \<union> {0}" for a b d e
    by (simp add: R_def)
  have "radix_letter c \<in> R \<union> {0}" for c unfolding radix_letter_def by (rule g)
  then have rl: "radix_letter c \<noteq> 0 \<Longrightarrow> radix_letter c \<in> R" for c by blast
  define p where "p = (if length num > 2 \<and> num ! 0 = 0x30 \<and> radix_letter (num ! 1) \<noteq> 0 then (radix_letter (num ! 1), 2)
    else if length num > 1 \<and> num ! 0 = 0x24 then (16, 1) else (0, 0 :: nat))"
  define q where "q = (if length num > 1 \<and> radix_letter (num ! (length num - 1)) \<noteq> 0
    then (radix_letter (num ! (length num - 1)), 1) else (0, 0 :: nat))"
  have pq: "fst p \<in> R \<or> fst p = 0" "fst q \<in> R \<or> fst q = 0" unfolding p_def q_def by (simp_all add: rl R(2,3))
  have "fst (number_radix num) = (if fst p > fst q then fst p else if fst q > fst p then fst q else 10)"
    unfolding number_radix_def Let_def p_def [symmetric] q_def [symmetric] by (simp split: prod.splits)
  also have "\<dots> \<in> R"
  proof (cases "fst p > fst q")
    case True
    then have "fst p \<noteq> 0" using pq(2) R(1) [of "fst q"] by auto
    then show ?thesis using pq(1) True by simp
  next
    case False
    then have "fst q > fst p \<Longrightarrow> fst q \<noteq> 0" using pq(1) R(1) [of "fst p"] by auto
    then show ?thesis using pq(2) False R(2) by auto
  qed
  finally show ?thesis by (simp add: R_def)
qed

lemma readnum_value:
  "readnum str =
     (let (sign, num) = number_chars str; (radix, ds) = number_radix num; V = digits_value radix ds
      in if num = [] \<or> (\<exists>c \<in> set ds. c \<noteq> 0x5F \<and> \<not> valid_digit radix c) then None
         else Some (word_of_int (sign * V), 2 ^ 64 \<le> V))"
proof -
  obtain sign num where n: "number_chars str = (sign, num)" by (cases "number_chars str")
  obtain radix ds where r: "number_radix num = (radix, ds)" by (cases "number_radix num")
  have "radix \<in> {2, 8, 10, 16}" using number_radix_cases [of num] r by simp
  from read_digits_value [OF this, of 0 ds] show ?thesis
    by (auto simp: readnum_def n r Let_def digits_value_def mult.commute)
qed

text \<open>
  C32. A numeric constant is the value of its digits: after spaces and a sign, with the radix that a
  prefix or a suffix names and 10 otherwise, \<open>readnum\<close> gives the value of the digits modulo
  \<open>2 ^ 64\<close>, underscores aside; the warning is given exactly when the value needs more than 64 bits,
  and the error exactly when there is no digit or one that is not of the radix.
\<close>

theorem readnum_correct:
  "readnum str =
     (let (sign, num) = number_chars str; (radix, ds) = number_radix num; V = digits_value radix ds
      in if num = [] \<or> (\<exists>c \<in> set ds. c \<noteq> 0x5F \<and> \<not> valid_digit radix c) then None
         else Some (word_of_int (sign * V), 2 ^ 64 \<le> V)) \<and>
   fst (number_radix num) \<in> {2, 8, 10, 16}"
  using readnum_value number_radix_cases by blast

lemma valid_16_cases:
  assumes "valid_digit 16 c"
  shows "lib_isnumchar c" "c \<noteq> 0x2D" "\<not> isspace c" "c \<noteq> 0x24" "radix_letter c < 16" "c \<noteq> 0x5F" "c \<noteq> 0x78"
proof -
  have "unat c < 128" using assms sint_u8 [of c] u8_less [of c] by (auto simp: valid_digit_def split: if_splits)
  then have "sint c = int (unat c)" by (simp add: sint_u8)
  then have b: "0x30 \<le> unat c \<and> unat c \<le> 0x39 \<or> 0x41 \<le> unat c \<and> unat c \<le> 0x46 \<or> 0x61 \<le> unat c \<and> unat c \<le> 0x66"
    using assms by (auto simp: valid_digit_def numvalue_def split: if_splits simp del: of_nat_unat)
  then show "lib_isnumchar c" "c \<noteq> 0x2D" "\<not> isspace c" "c \<noteq> 0x24" "radix_letter c < 16" "c \<noteq> 0x5F" "c \<noteq> 0x78"
    by (auto simp: lib_isnumchar_def isalnum_def isalpha_def isdigit_def isspace_def isupper_def islower_def radix_letter_def word_le_nat_alt)
qed

text \<open>
  The two prefixes and the suffix of hexadecimal constants agree, also where the digits end or begin
  in letters that are radix letters themselves.
\<close>

theorem readnum_hex_forms:
  assumes "ds \<noteq> []" and "\<forall>c \<in> set ds. valid_digit 16 c"
  shows "readnum (0x30 # 0x78 # ds) = Some (word_of_int (digits_value 16 ds), 2 ^ 64 \<le> digits_value 16 ds) \<and>
    readnum (0x24 # ds) = readnum (0x30 # 0x78 # ds) \<and>
    readnum (ds @ [0x68]) = readnum (0x30 # 0x78 # ds)"
proof -
  have c: "lib_isnumchar 0x30" "lib_isnumchar 0x78" "lib_isnumchar 0x68" "lib_isnumchar 0x24"
    "\<not> isspace 0x30" "\<not> isspace 0x24"
    by (simp_all add: lib_isnumchar_def isalnum_def isalpha_def isdigit_def isspace_def isupper_def islower_def)
  have d: "lib_isnumchar c" "c \<noteq> 0x2D" "\<not> isspace c" "c \<noteq> 0x24" "radix_letter c < 16" if "c \<in> set ds" for c
    using valid_16_cases [of c] assms(2) that by auto
  have t: "takeWhile lib_isnumchar ds = ds" using d(1) by (simp add: takeWhile_eq_all_conv)
  obtain x xs where ds: "ds = x # xs" using assms(1) by (cases ds) auto
  have l: "radix_letter (ds ! (length ds - 1)) < 16" using d(5) assms(1) by simp
  have r16: "radix_letter 0x78 = 16" "radix_letter 0x68 = 16" by (simp_all add: radix_letter_def)
  have rd: "number_radix (0x30 # 0x78 # ds) = (16, ds)" "number_radix (0x24 # ds) = (16, ds)"
    using l r16 ds by (auto simp: number_radix_def Let_def nth_Cons split: nat.splits)
  have "\<not> (length (ds @ [0x68]) > 2 \<and> (ds @ [0x68]) ! 0 = 0x30 \<and> radix_letter ((ds @ [0x68]) ! 1) \<ge> 16)"
    using d(5) by (auto simp: nth_append not_le)
  moreover have "(ds @ [0x68]) ! 0 \<noteq> 0x24" using d(4) ds by simp
  ultimately have rh: "number_radix (ds @ [0x68]) = (16, ds)"
    using r16 assms(1) by (auto simp: number_radix_def Let_def nth_append not_le)
  have n: "number_chars (0x30 # 0x78 # ds) = (1, 0x30 # 0x78 # ds)" "number_chars (0x24 # ds) = (1, 0x24 # ds)"
    "number_chars (ds @ [0x68]) = (1, ds @ [0x68])"
    using c t d(1-3) [of x] ds by (auto simp: number_chars_def takeWhile_append)
  have ok: "\<not> (\<exists>c \<in> set ds. c \<noteq> 0x5F \<and> \<not> valid_digit 16 c)" using assms(2) by blast
  have e: "readnum s = Some (word_of_int (digits_value 16 ds), 2 ^ 64 \<le> digits_value 16 ds)"
    if "number_chars s = (1, num)" "number_radix num = (16, ds)" "num \<noteq> []" for s num
    using readnum_value [of s] that ok by (simp add: Let_def)
  show ?thesis
    using e [OF n(1) rd(1)] e [OF n(2) rd(2)] e [OF n(3) rh] by simp
qed

theorem readnum_hex_forms_witness:
  "readnum (bytes_of ''0x1d'') = Some (29, False) \<and> readnum (bytes_of ''1dh'') = readnum (bytes_of ''0x1d'')"
proof -
  have "valid_digit 16 0x31" "valid_digit 16 0x64" by (simp_all add: valid_digit_def numvalue_def)
  then show ?thesis
    using readnum_hex_forms [of "[0x31, 0x64]"]
    by (simp add: bytes_of_def digits_value_def numvalue_def)
qed

section \<open>Reading characters\<close>

fun le_value :: "bytes \<Rightarrow> nat" where
  "le_value [] = 0"
| "le_value (c # s) = unat c + 256 * le_value s"

lemma le_value_take:
  "le_value (take n s) < 256 ^ n"
  "le_value (take (Suc n) s) mod 256 ^ n = le_value (take n s)"
  "le_value (take (Suc n) s) div 256 ^ n = (if n < length s then unat (s ! n) else 0)"
proof -
  have b: "unat (c :: u8) < 256" for c using unsigned_less [of c, where 'a = nat] by simp
  show bound: "le_value (take n s) < 256 ^ n" for n s
  proof (induction n arbitrary: s)
    case (Suc n)
    show ?case
    proof (cases s)
      case (Cons c t)
      have "unat c + 256 * le_value (take n t) < 256 * Suc (le_value (take n t))" using b [of c] by simp
      also have "\<dots> \<le> 256 * 256 ^ n" using Suc.IH [of t] by (intro mult_le_mono2) simp
      finally show ?thesis using Cons by simp
    qed simp
  qed simp
  have split: "le_value (take (Suc n) s) = le_value (take n s) + 256 ^ n * (if n < length s then unat (s ! n) else 0)"
  proof (induction n arbitrary: s)
    case 0
    then show ?case by (cases s) auto
  next
    case (Suc n)
    then show ?case by (cases s) (auto simp: algebra_simps)
  qed
  show "le_value (take (Suc n) s) mod 256 ^ n = le_value (take n s)"
    using bound [of n s] by (simp add: split)
  show "le_value (take (Suc n) s) div 256 ^ n = (if n < length s then unat (s ! n) else 0)"
    using bound [of n s] by (simp add: split)
qed

lemma charconst_value:
  fixes w :: nat
  assumes hi: "hi = push_bit (8 * w) 0xFF" and w: "w < 8"
    and keep: "(if hi = 0xFF00000000000000 then NOT hi else 0x00FFFFFF) = mask (8 * w)"
  shows "foldr (charconst_step hi) s (0, False) =
    (word_of_nat (le_value (take (Suc w) s)), \<exists>c \<in> set (drop (Suc w) s). c \<noteq> 0)"
proof (induction s)
  case (Cons c s)
  let ?v = "le_value (take (Suc w) s)" and ?x = "word_of_nat (le_value (take (Suc w) s)) :: i64"
  have p: "256 ^ n = (2 :: nat) ^ (8 * n)" for n by (simp add: power_mult)
  have "256 ^ Suc w \<le> (256 :: nat) ^ 8" using w by (intro power_increasing) auto
  with le_value_take(1) [of "Suc w" s] have "?v < 2 ^ 64" by simp
  then have u: "unat ?x = ?v" unfolding unsigned_of_nat by (simp add: take_bit_nat_eq_self)
  have "unat (?x AND mask (8 * w)) = le_value (take w s)"
    using le_value_take(2) [of w s] by (simp add: unat_and_low u p)
  then have k: "?x AND mask (8 * w) = word_of_nat (le_value (take w s))" by (metis of_nat_unat ucast_id)
  have h: "?x AND hi = 0 \<longleftrightarrow> (w < length s \<longrightarrow> s ! w = 0)"
  proof -
    have "push_bit 8 1 - 1 = (0xFF :: i64)" by simp
    then have "?x AND hi = 0 \<longleftrightarrow> ?v div 2 ^ (8 * w) mod 2 ^ 8 = 0"
      using and_high_mask [of "8 * w" 8 ?x] w by (simp add: hi u)
    also have "\<dots> \<longleftrightarrow> (w < length s \<longrightarrow> unat (s ! w) = 0)"
      using le_value_take(3) [of w s] unsigned_less [of "s ! w", where 'a = nat] by (auto simp: p)
    finally show ?thesis by (simp add: unat_eq_0)
  qed
  have d: "drop w s = (if w < length s then s ! w # drop (Suc w) s else [])" by (simp add: Cons_nth_drop_Suc)
  have dn: "drop (Suc w) s = []" if "\<not> w < length s" using that by simp
  have e: "(\<exists>c \<in> set (drop w s). c \<noteq> 0) \<longleftrightarrow> (\<exists>c \<in> set (drop (Suc w) s). c \<noteq> 0) \<or> \<not> (w < length s \<longrightarrow> s ! w = 0)"
    using d dn by (cases "w < length s") auto
  have v: "push_bit 8 (word_of_nat n) + ucast c = (word_of_nat (unat c + 256 * n) :: i64)" for n
    by (simp add: push_bit_eq_mult)
  have "charconst_step hi c (?x, b) = (word_of_nat (unat c + 256 * le_value (take w s)), b \<or> ?x AND hi \<noteq> 0)" for b
    by (simp only: charconst_step_def keep case_prod_conv k v)
  then show ?case unfolding foldr.simps comp_apply Cons h by (simp only: e take_Suc_Cons drop_Suc_Cons le_value.simps)
qed simp

text \<open>
  A character constant is its first eight bytes (four outside 64-bit mode) in little-endian order,
  and the warning is given exactly when a byte that is not null is left out.
\<close>

theorem readstrnum_correct:
  "readstrnum bits str =
     (let w = (if bits = 64 then 8 else 4)
      in (word_of_nat (le_value (take w str)), \<exists>c \<in> set (drop w str). c \<noteq> 0))"
proof -
  have "foldr (charconst_step 0xFF00000000000000) str (0, False) =
      (word_of_nat (le_value (take (Suc 7) str)), \<exists>c \<in> set (drop (Suc 7) str). c \<noteq> 0)"
    by (rule charconst_value) (simp_all add: mask_eq_exp_minus_1 push_bit_eq_mult)
  moreover have "foldr (charconst_step 0xFF000000) str (0, False) =
      (word_of_nat (le_value (take (Suc 3) str)), \<exists>c \<in> set (drop (Suc 3) str). c \<noteq> 0)"
    by (rule charconst_value) (simp_all add: mask_eq_exp_minus_1 push_bit_eq_mult)
  ultimately show ?thesis by (simp add: readstrnum_def Let_def)
qed

end
