(* ===== verification/Vectors.thy ===== *)
theory Vectors
  imports Prelude
begin

text \<open>
  Expression vectors: the queries of \<open>asm/exprlib.c\<close> and the vector arithmetic of
  \<open>asm/eval.c\<close>. A vector is a linear combination of registers, segment bases and a scalar; the
  record with type zero that ends it in memory is the end of the list.
\<close>

section \<open>Vectors\<close>

record expr =
  etype :: i32
  evalue :: i64

type_synonym vect = "expr list"

abbreviation EXPR_REG_END :: int where "EXPR_REG_END \<equiv> 240"
abbreviation EXPR_UNKNOWN :: int where "EXPR_UNKNOWN \<equiv> 241"
abbreviation EXPR_SIMPLE :: int where "EXPR_SIMPLE \<equiv> 242"
abbreviation EXPR_WRT :: int where "EXPR_WRT \<equiv> 243"
abbreviation EXPR_RDSAE :: int where "EXPR_RDSAE \<equiv> 244"
abbreviation EXPR_SEGBASE :: int where "EXPR_SEGBASE \<equiv> 245"
abbreviation SEG_ABS :: int where "SEG_ABS \<equiv> 0x40000000"
abbreviation NO_SEG :: i32 where "NO_SEG \<equiv> - 1"

definition skip_zero :: "vect \<Rightarrow> vect" where
  "skip_zero = dropWhile (\<lambda>x. evalue x = 0)"

definition is_simple :: "vect \<Rightarrow> bool" where
  "is_simple v =
     (case skip_zero v of
        [] \<Rightarrow> True
      | x # v \<Rightarrow>
          if sint (etype x) \<noteq> EXPR_SIMPLE then False
          else case skip_zero v of
                 [] \<Rightarrow> True
               | y # _ \<Rightarrow> \<not> sint (etype y) < EXPR_SEGBASE + SEG_ABS)"

definition is_really_simple :: "vect \<Rightarrow> bool" where
  "is_really_simple v =
     (case skip_zero v of
        [] \<Rightarrow> True
      | x # v \<Rightarrow> sint (etype x) = EXPR_SIMPLE \<and> skip_zero v = [])"

text \<open>\<open>segment\<close> is \<open>location.segment\<close>. A segment base whose factor is neither 1 nor -1 falls through.\<close>

fun is_reloc_loop :: "i32 \<Rightarrow> bool \<Rightarrow> bool \<Rightarrow> vect \<Rightarrow> bool" where
  "is_reloc_loop segment has_rel has_seg [] = True"
| "is_reloc_loop segment has_rel has_seg (x # v) =
     (if evalue x = 0 then is_reloc_loop segment has_rel has_seg v
      else if sint (etype x) < EXPR_SIMPLE then False
      else if sint (etype x) = EXPR_SIMPLE then is_reloc_loop segment has_rel has_seg v
      else if sint (etype x) = EXPR_WRT then is_reloc_loop segment has_rel has_seg v
      else if sint (etype x) < EXPR_SEGBASE then False
      else if evalue x = 1 then (if has_seg then False else is_reloc_loop segment has_rel True v)
      else if evalue x = - 1
      then if etype x \<noteq> segment + word_of_int EXPR_SEGBASE then False
           else if has_rel then False
           else is_reloc_loop segment True has_seg v
      else is_reloc_loop segment has_rel has_seg v)"

definition is_reloc :: "i32 \<Rightarrow> vect \<Rightarrow> bool" where
  "is_reloc segment v = is_reloc_loop segment False False v"

definition is_unknown :: "vect \<Rightarrow> bool" where
  "is_unknown v =
     (case dropWhile (\<lambda>x. sint (etype x) < EXPR_UNKNOWN) v of
        [] \<Rightarrow> False
      | x # _ \<Rightarrow> sint (etype x) = EXPR_UNKNOWN)"

definition is_just_unknown :: "vect \<Rightarrow> bool" where
  "is_just_unknown v =
     (case skip_zero v of [] \<Rightarrow> False | x # _ \<Rightarrow> sint (etype x) = EXPR_UNKNOWN)"

definition reloc_value :: "vect \<Rightarrow> i64" where
  "reloc_value v =
     (case skip_zero v of
        [] \<Rightarrow> 0
      | x # _ \<Rightarrow> if sint (etype x) = EXPR_SIMPLE then evalue x else 0)"

fun reloc_seg :: "vect \<Rightarrow> i32" where
  "reloc_seg [] = NO_SEG"
| "reloc_seg (x # v) =
     (if sint (etype x) \<ge> EXPR_SEGBASE \<and> evalue x = 1
      then etype x - word_of_int EXPR_SEGBASE else reloc_seg v)"

definition reloc_wrt :: "vect \<Rightarrow> i32" where
  "reloc_wrt v =
     (case dropWhile (\<lambda>x. sint (etype x) < EXPR_WRT) v of
        [] \<Rightarrow> NO_SEG
      | x # _ \<Rightarrow> if sint (etype x) = EXPR_WRT then ucast (evalue x) else NO_SEG)"

fun is_self_relative :: "i32 \<Rightarrow> vect \<Rightarrow> bool" where
  "is_self_relative segment [] = False"
| "is_self_relative segment (x # v) =
     (if etype x = segment + word_of_int EXPR_SEGBASE \<and> evalue x = - 1 then True
      else is_self_relative segment v)"

section \<open>Arithmetic\<close>

text \<open>
  The temporary that \<open>begintemp\<close>, \<open>addtotemp\<close> and \<open>finishtemp\<close> build grows by one record at a time;
  a reader stops at the first type zero.
\<close>

definition finishtemp :: "vect \<Rightarrow> vect" where
  "finishtemp temp = takeWhile (\<lambda>x. etype x \<noteq> 0) temp"

definition term_of :: "int \<Rightarrow> i64 \<Rightarrow> expr" where
  "term_of ty val = \<lparr>etype = word_of_int ty, evalue = val\<rparr>"

datatype hint_type = EAH_NOHINT | EAH_MAKEBASE | EAH_NOTBASE | EAH_SUMMED

text \<open>The pointer to the hints may be null.\<close>

record eval_hints =
  hbase :: i64
  htype :: hint_type

definition near :: "expr \<Rightarrow> bool" where
  "near x \<longleftrightarrow> sint (etype x) < EXPR_SEGBASE + SEG_ABS"

text \<open>The two loops behind the merge copy what is left of either vector.\<close>

definition add_rest :: "bool \<Rightarrow> vect \<Rightarrow> vect" where
  "add_rest preserve v = takeWhile (\<lambda>x. preserve \<or> near x) v"

fun add_loop :: "bool \<Rightarrow> vect \<Rightarrow> vect \<Rightarrow> eval_hints option \<Rightarrow> vect \<times> eval_hints option" where
  "add_loop preserve (x # p) (y # q) h =
     (if near x \<and> near y
      then if sint (etype x) > sint (etype y)
           then if sint (etype y) = EXPR_UNKNOWN then ([y], h)
                else (case add_loop preserve (x # p) q h of (v, h) \<Rightarrow> (y # v, h))
           else if sint (etype x) < sint (etype y)
           then if sint (etype x) = EXPR_UNKNOWN then ([x], h)
                else (case add_loop preserve p (y # q) h of (v, h) \<Rightarrow> (x # v, h))
           else let total = evalue x + evalue y;
                    out = (if total \<noteq> 0 then [\<lparr>etype = etype x, evalue = total\<rparr>] else []);
                    h = (if total \<noteq> 0 then map_option (htype_update (\<lambda>_. EAH_SUMMED)) h else h)
                in if sint (etype x) = EXPR_UNKNOWN then (out, h)
                   else (case add_loop preserve p q h of (v, h) \<Rightarrow> (out @ v, h))
      else (add_rest preserve (x # p) @ add_rest preserve (y # q), h))"
| "add_loop preserve p q h = (add_rest preserve p @ add_rest preserve q, h)"

definition add_vectors :: "vect \<Rightarrow> vect \<Rightarrow> eval_hints option \<Rightarrow> vect \<times> eval_hints option" where
  "add_vectors p q h =
     (case add_loop (is_really_simple p \<or> is_really_simple q) p q h of
        (temp, h) \<Rightarrow> (finishtemp temp, h))"

text \<open>\<open>scalar_mult\<close> overwrites its argument, which no one reads again, and cuts it at a far segment.\<close>

definition not_base :: "bool \<Rightarrow> expr \<Rightarrow> eval_hints option \<Rightarrow> eval_hints option" where
  "not_base affect_hints x h =
     (case h of
        None \<Rightarrow> None
      | Some hint \<Rightarrow>
          if htype hint = EAH_MAKEBASE \<and> sint (etype x) = sint (hbase hint) \<and> affect_hints
          then Some (hint\<lparr>htype := EAH_NOTBASE\<rparr>) else h)"

fun scalar_mult :: "vect \<Rightarrow> i64 \<Rightarrow> bool \<Rightarrow> eval_hints option \<Rightarrow> vect \<times> eval_hints option" where
  "scalar_mult [] scalar affect_hints h = ([], h)"
| "scalar_mult (x # p) scalar affect_hints h =
     (if near x
      then (case scalar_mult p scalar affect_hints (not_base affect_hints x h) of
              (v, h) \<Rightarrow> (x\<lparr>evalue := scalar * evalue x\<rparr> # v, h))
      else ([], h))"

definition scalarvect :: "i64 \<Rightarrow> vect" where
  "scalarvect scalar = finishtemp [term_of EXPR_SIMPLE scalar]"

definition unknown_expr :: vect where
  "unknown_expr = finishtemp [term_of EXPR_UNKNOWN 1]"

section \<open>Well-formed vectors\<close>

text \<open>
  The records come in strictly increasing order of their types, which are positive, and none is a
  far-absolute segment. \<open>coeff\<close> is the factor of a component.
\<close>

definition ty :: "expr \<Rightarrow> int" where
  "ty x = sint (etype x)"

definition vect_ok :: "vect \<Rightarrow> bool" where
  "vect_ok v \<longleftrightarrow> sorted_wrt (\<lambda>x y. ty x < ty y) v \<and> (\<forall>x \<in> set v. 0 < ty x \<and> near x)"

definition known :: "vect \<Rightarrow> bool" where
  "known v \<longleftrightarrow> (\<forall>x \<in> set v. ty x \<noteq> EXPR_UNKNOWN)"

definition coeff :: "vect \<Rightarrow> i32 \<Rightarrow> i64" where
  "coeff v t = sum_list (map evalue (filter (\<lambda>x. etype x = t) v))"

lemma coeff_simps [simp]:
  "coeff [] t = 0"
  "coeff (x # v) t = (if etype x = t then evalue x else 0) + coeff v t"
  "coeff (u @ v) t = coeff u t + coeff v t"
  by (simp_all add: coeff_def)

lemma vect_ok_Cons:
  "vect_ok (x # v) \<longleftrightarrow> (\<forall>y \<in> set v. ty x < ty y) \<and> 0 < ty x \<and> near x \<and> vect_ok v"
  by (auto simp: vect_ok_def)

lemma vect_ok_Nil [simp]: "vect_ok []" "known []"
  by (simp_all add: vect_ok_def known_def)

lemma known_Cons: "known (x # v) \<longleftrightarrow> ty x \<noteq> EXPR_UNKNOWN \<and> known v"
  by (simp add: known_def)

lemma ty_inject: "ty x = ty y \<longleftrightarrow> etype x = etype y"
  by (auto simp: ty_def intro: signed_word_eqI)

lemma finishtemp_ok: "\<forall>x \<in> set v. 0 < ty x \<Longrightarrow> finishtemp v = v"
  by (auto simp: finishtemp_def takeWhile_eq_all_conv ty_def)

lemma add_rest_ok: "vect_ok v \<Longrightarrow> add_rest preserve v = v"
  by (auto simp: add_rest_def takeWhile_eq_all_conv vect_ok_def)

lemma add_loop_ok:
  "vect_ok p \<Longrightarrow> vect_ok q \<Longrightarrow>
   vect_ok (fst (add_loop preserve p q h)) \<and>
   ty ` set (fst (add_loop preserve p q h)) \<subseteq> ty ` (set p \<union> set q) \<and>
   (known p \<longrightarrow> known q \<longrightarrow> known (fst (add_loop preserve p q h)) \<and>
     (\<forall>t. coeff (fst (add_loop preserve p q h)) t = coeff p t + coeff q t))"
proof (induction preserve p q h rule: add_loop.induct)
  case (1 preserve x p y q h)
  note ok = "1.prems" [unfolded vect_ok_Cons]
  have n: "near x \<and> near y" using ok by blast
  consider (gt) "ty y < ty x" | (lt) "ty x < ty y" | (eq) "ty x = ty y" by linarith
  then show ?case
  proof cases
    case gt
    then have g: "sint (etype x) > sint (etype y)" by (simp add: ty_def)
    obtain v h' where r: "add_loop preserve (x # p) q h = (v, h')" by (cases "add_loop preserve (x # p) q h")
    show ?thesis
    proof (cases "ty y = EXPR_UNKNOWN")
      case True
      then show ?thesis using g n ok by (auto simp: vect_ok_def known_def ty_def)
    next
      case False
      then have "sint (etype y) \<noteq> EXPR_UNKNOWN" by (simp add: ty_def)
      from "1.IH"(1) [OF n g this] "1.prems" ok r have i: "vect_ok v" "ty ` set v \<subseteq> ty ` (set (x # p) \<union> set q)"
        "known (x # p) \<Longrightarrow> known q \<Longrightarrow> known v \<and> (\<forall>t. coeff v t = coeff (x # p) t + coeff q t)"
        by auto
      have "\<forall>z \<in> set v. ty y < ty z" using i(2) ok gt by fastforce
      then show ?thesis using g n r i ok False \<open>sint (etype y) \<noteq> EXPR_UNKNOWN\<close>
        by (auto simp: vect_ok_Cons known_Cons)
    qed
  next
    case lt
    then have g: "\<not> sint (etype x) > sint (etype y)" "sint (etype x) < sint (etype y)" by (simp_all add: ty_def)
    obtain v h' where r: "add_loop preserve p (y # q) h = (v, h')" by (cases "add_loop preserve p (y # q) h")
    show ?thesis
    proof (cases "ty x = EXPR_UNKNOWN")
      case True
      then show ?thesis using g n ok by (auto simp: vect_ok_def known_def ty_def)
    next
      case False
      then have "sint (etype x) \<noteq> EXPR_UNKNOWN" by (simp add: ty_def)
      from "1.IH"(2) [OF n g this] "1.prems" ok r have i: "vect_ok v" "ty ` set v \<subseteq> ty ` (set p \<union> set (y # q))"
        "known p \<Longrightarrow> known (y # q) \<Longrightarrow> known v \<and> (\<forall>t. coeff v t = coeff p t + coeff (y # q) t)"
        by auto
      have "\<forall>z \<in> set v. ty x < ty z" using i(2) ok lt by fastforce
      then show ?thesis using g n r i ok False \<open>sint (etype x) \<noteq> EXPR_UNKNOWN\<close>
        by (auto simp: vect_ok_Cons known_Cons)
    qed
  next
    case eq
    then have e: "etype y = etype x" by (simp add: ty_inject)
    let ?h = "if evalue x + evalue y \<noteq> 0 then map_option (htype_update (\<lambda>_. EAH_SUMMED)) h else h"
    let ?out = "if evalue x + evalue y \<noteq> 0 then [\<lparr>etype = etype x, evalue = evalue x + evalue y\<rparr>] else []"
    obtain v h' where r: "add_loop preserve p q ?h = (v, h')" by (cases "add_loop preserve p q ?h")
    show ?thesis
    proof (cases "ty x = EXPR_UNKNOWN")
      case True
      then show ?thesis using e n ok by (auto simp: vect_ok_def known_def ty_def near_def Let_def)
    next
      case False
      then have u: "sint (etype x) \<noteq> EXPR_UNKNOWN" by (simp add: ty_def)
      have ih: "vect_ok v" "ty ` set v \<subseteq> ty ` (set p \<union> set q)"
        "known p \<Longrightarrow> known q \<Longrightarrow> known v \<and> (\<forall>t. coeff v t = coeff p t + coeff q t)"
        using "1.IH"(3) [OF n _ _ refl refl refl u] e ok r by auto
      have a: "fst (add_loop preserve (x # p) (y # q) h) = ?out @ v" using e n u r by (simp add: Let_def)
      have "\<forall>z \<in> set v. ty x < ty z" using ih(2) ok eq by fastforce
      moreover have "ty \<lparr>etype = etype x, evalue = val\<rparr> = ty x" "near \<lparr>etype = etype x, evalue = val\<rparr> = near x" for val
        by (simp_all add: ty_def near_def)
      ultimately have "vect_ok (?out @ v)" "known p \<Longrightarrow> known q \<Longrightarrow> known (?out @ v)"
        using ih ok False by (simp_all add: vect_ok_Cons known_Cons)
      moreover have "ty ` set (?out @ v) \<subseteq> ty ` (set (x # p) \<union> set (y # q))"
        using ih(2) by (auto simp: ty_def)
      moreover have "known p \<Longrightarrow> known q \<Longrightarrow> coeff (?out @ v) t = coeff (x # p) t + coeff (y # q) t" for t
        using ih(3) e by (auto simp: algebra_simps)
      ultimately show ?thesis unfolding a known_Cons by blast
    qed
  qed
qed (auto simp: add_rest_ok)

lemma add_vectors_ok:
  assumes "vect_ok p" and "vect_ok q"
  shows "vect_ok (fst (add_vectors p q h))"
    and "known p \<Longrightarrow> known q \<Longrightarrow> known (fst (add_vectors p q h)) \<and>
      coeff (fst (add_vectors p q h)) t = coeff p t + coeff q t"
proof -
  let ?v = "fst (add_loop (is_really_simple p \<or> is_really_simple q) p q h)"
  have l: "vect_ok ?v" "known p \<Longrightarrow> known q \<Longrightarrow> known ?v \<and> coeff ?v t = coeff p t + coeff q t"
    using add_loop_ok [OF assms] by blast+
  have "fst (add_vectors p q h) = finishtemp ?v" by (simp add: add_vectors_def split: prod.split)
  moreover have "finishtemp ?v = ?v" using l(1) by (intro finishtemp_ok) (auto simp: vect_ok_def)
  ultimately show "vect_ok (fst (add_vectors p q h))"
    "known p \<Longrightarrow> known q \<Longrightarrow> known (fst (add_vectors p q h)) \<and>
      coeff (fst (add_vectors p q h)) t = coeff p t + coeff q t"
    using l by simp_all
qed

lemma scalar_mult_map:
  "vect_ok v \<Longrightarrow> fst (scalar_mult v c a h) = map (\<lambda>x. x\<lparr>evalue := c * evalue x\<rparr>) v"
  by (induction v c a h rule: scalar_mult.induct) (auto simp: vect_ok_Cons split: prod.splits)

lemma scalar_mult_ok:
  assumes "vect_ok v"
  shows "vect_ok (fst (scalar_mult v c a h))" "known v \<Longrightarrow> known (fst (scalar_mult v c a h))"
    "coeff (fst (scalar_mult v c a h)) t = c * coeff v t"
proof -
  have t: "ty (x\<lparr>evalue := val\<rparr>) = ty x" "near (x\<lparr>evalue := val\<rparr>) = near x" for x val by (simp_all add: ty_def near_def)
  show "vect_ok (fst (scalar_mult v c a h))" "known v \<Longrightarrow> known (fst (scalar_mult v c a h))"
    using assms unfolding scalar_mult_map [OF assms] by (simp_all add: vect_ok_def known_def sorted_wrt_map t)
  show "coeff (fst (scalar_mult v c a h)) t = c * coeff v t"
    unfolding scalar_mult_map [OF assms] by (induction v) (simp_all add: algebra_simps)
qed

text \<open>
  C27. Adding and scaling vectors is the arithmetic of linear combinations modulo \<open>2 ^ 64\<close>, component by
  component, and the results are well formed again, as long as no unknown part and no far-absolute
  segment is involved; with an unknown part they are still well formed.
\<close>

theorem vector_arithmetic:
  assumes "vect_ok p" and "vect_ok q"
  shows "vect_ok (fst (add_vectors p q h)) \<and> vect_ok (fst (scalar_mult p c a h)) \<and>
    coeff (fst (scalar_mult p c a h)) t = c * coeff p t \<and>
    (known p \<and> known q \<longrightarrow> known (fst (add_vectors p q h)) \<and>
      coeff (fst (add_vectors p q h)) t = coeff p t + coeff q t)"
  using add_vectors_ok [OF assms] scalar_mult_ok [OF assms(1)] by blast

lemma vect_ok_example: "vect_ok [term_of 5 2, term_of EXPR_SIMPLE 7]" "vect_ok [term_of EXPR_SIMPLE 3, term_of (EXPR_SEGBASE + 2) 1]"
  "known [term_of 5 2, term_of EXPR_SIMPLE 7]" "known [term_of EXPR_SIMPLE 3, term_of (EXPR_SEGBASE + 2) 1]"
  by (simp_all add: vect_ok_def known_def near_def ty_def term_of_def)

theorem vector_arithmetic_witness:
  "coeff (fst (add_vectors [term_of 5 2, term_of EXPR_SIMPLE 7] [term_of EXPR_SIMPLE 3, term_of (EXPR_SEGBASE + 2) 1] None))
    (word_of_int EXPR_SIMPLE) = 10"
  using vector_arithmetic [OF vect_ok_example(1,2)] vect_ok_example(3,4) by (simp add: term_of_def)

section \<open>Relocatable vectors\<close>

definition seg_term :: "expr \<Rightarrow> bool" where
  "seg_term x \<longleftrightarrow> EXPR_SEGBASE \<le> ty x \<and> evalue x = 1"

definition reloc_term :: "i32 \<Rightarrow> bool \<Rightarrow> expr \<Rightarrow> bool" where
  "reloc_term segment has_rel x \<longleftrightarrow> evalue x = 0 \<or> ty x \<in> {EXPR_SIMPLE, EXPR_WRT} \<or>
     EXPR_SEGBASE \<le> ty x \<and> (evalue x = - 1 \<longrightarrow> etype x = segment + word_of_int EXPR_SEGBASE \<and> \<not> has_rel)"

lemma is_reloc_loop_iff:
  "vect_ok v \<Longrightarrow> is_reloc_loop segment has_rel has_seg v \<longleftrightarrow>
    (\<forall>x \<in> set v. reloc_term segment has_rel x) \<and> length (filter seg_term v) + of_bool has_seg \<le> 1"
proof (induction segment has_rel has_seg v rule: is_reloc_loop.induct)
  case (2 segment has_rel has_seg x v)
  have ok: "vect_ok v" and d: "\<forall>y \<in> set v. etype y \<noteq> etype x"
    using "2.prems" by (auto simp: vect_ok_Cons ty_def)
  consider (zero) "evalue x = 0" | (plain) "evalue x \<noteq> 0" "ty x = EXPR_SIMPLE \<or> ty x = EXPR_WRT"
    | (bad) "evalue x \<noteq> 0" "ty x < EXPR_SEGBASE" "ty x \<noteq> EXPR_SIMPLE" "ty x \<noteq> EXPR_WRT"
    | (one) "EXPR_SEGBASE \<le> ty x" "evalue x = 1" | (minus) "EXPR_SEGBASE \<le> ty x" "evalue x = - 1"
    | (other) "EXPR_SEGBASE \<le> ty x" "evalue x \<noteq> 0" "evalue x \<noteq> 1" "evalue x \<noteq> - 1" by linarith
  then show ?case
  proof cases
    case zero
    then show ?thesis using "2.IH"(1) ok by (simp add: reloc_term_def seg_term_def)
  next
    case plain
    then show ?thesis using "2.IH"(2,3) ok by (auto simp: reloc_term_def seg_term_def ty_def)
  next
    case bad
    then show ?thesis by (simp add: reloc_term_def ty_def)
  next
    case one
    then show ?thesis using "2.IH"(4) ok by (simp add: reloc_term_def seg_term_def ty_def)
  next
    case minus
    then have e: "is_reloc_loop segment has_rel has_seg (x # v) \<longleftrightarrow>
        etype x = segment + word_of_int EXPR_SEGBASE \<and> \<not> has_rel \<and> is_reloc_loop segment True has_seg v"
      by (simp add: ty_def)
    have "(\<forall>y \<in> set v. reloc_term segment True y) \<longleftrightarrow> (\<forall>y \<in> set v. reloc_term segment has_rel y)"
      if "etype x = segment + word_of_int EXPR_SEGBASE"
      using d that by (auto simp: reloc_term_def)
    moreover have "etype x = segment + word_of_int EXPR_SEGBASE \<Longrightarrow> \<not> has_rel \<Longrightarrow> is_reloc_loop segment True has_seg v \<longleftrightarrow>
      (\<forall>x \<in> set v. reloc_term segment True x) \<and> length (filter seg_term v) + of_bool has_seg \<le> 1"
      using "2.IH"(5) minus ok by (simp add: ty_def)
    moreover have "reloc_term segment has_rel x \<longleftrightarrow> etype x = segment + word_of_int EXPR_SEGBASE \<and> \<not> has_rel" "\<not> seg_term x"
      using minus by (auto simp: reloc_term_def seg_term_def)
    ultimately show ?thesis unfolding e by auto
  next
    case other
    then show ?thesis using "2.IH"(6) ok by (simp add: reloc_term_def seg_term_def ty_def)
  qed
qed simp

lemma coeff_distinct:
  "vect_ok v \<Longrightarrow> x \<in> set v \<Longrightarrow> coeff v (etype x) = evalue x"
proof (induction v)
  case (Cons y v)
  have z: "\<forall>z \<in> set v. etype z \<noteq> t \<Longrightarrow> coeff v t = 0" for t by (induction v) auto
  have "\<forall>z \<in> set v. etype z \<noteq> etype y" using Cons.prems(1) by (auto simp: vect_ok_Cons ty_def)
  then show ?case using Cons z [of "etype y"] by (cases "x = y") (auto simp: vect_ok_Cons)
qed simp

lemma coeff_absent: "\<forall>z \<in> set v. etype z \<noteq> t \<Longrightarrow> coeff v t = 0"
  by (induction v) auto

lemma reloc_seg_term:
  "reloc_seg v = (case filter seg_term v of [] \<Rightarrow> NO_SEG | x # _ \<Rightarrow> etype x - word_of_int EXPR_SEGBASE)"
  by (induction v) (auto simp: seg_term_def ty_def)

lemma reloc_value_coeff:
  "vect_ok v \<Longrightarrow> \<forall>x \<in> set v. evalue x \<noteq> 0 \<longrightarrow> EXPR_SIMPLE \<le> ty x \<Longrightarrow> reloc_value v = coeff v (word_of_int EXPR_SIMPLE)"
proof (induction v)
  case (Cons x v)
  have s: "etype x = word_of_int EXPR_SIMPLE \<longleftrightarrow> ty x = EXPR_SIMPLE" for x
    using ty_inject [of x "term_of EXPR_SIMPLE 0"] by (simp add: term_of_def ty_def)
  show ?case
  proof (cases "evalue x = 0")
    case True
    then show ?thesis using Cons by (simp add: reloc_value_def skip_zero_def vect_ok_Cons)
  next
    case False
    then have "EXPR_SIMPLE \<le> ty x" using Cons.prems by simp
    then have "\<forall>z \<in> set v. ty z \<noteq> EXPR_SIMPLE" using Cons.prems by (fastforce simp: vect_ok_Cons)
    then have "coeff v (word_of_int EXPR_SIMPLE) = 0" using s by (intro coeff_absent) blast
    then show ?thesis using False s [of x] by (simp add: reloc_value_def skip_zero_def ty_def)
  qed
qed (simp add: reloc_value_def skip_zero_def)

text \<open>
  What \<open>is_reloc\<close> accepts: no register or unknown part, at most one segment base with factor one,
  and a factor of minus one only for the current segment. Then \<open>reloc_value\<close> is the scalar part and
  \<open>reloc_seg\<close> the one segment of factor one, or \<open>NO_SEG\<close> if there is none. Any other factor of a
  segment base passes the test and is then ignored.
\<close>

theorem is_reloc_correct:
  assumes "vect_ok v"
  shows "(is_reloc segment v \<longleftrightarrow>
      (\<forall>x \<in> set v. evalue x = 0 \<or> ty x \<in> {EXPR_SIMPLE, EXPR_WRT} \<or>
        EXPR_SEGBASE \<le> ty x \<and> (evalue x = - 1 \<longrightarrow> etype x = segment + word_of_int EXPR_SEGBASE)) \<and>
      length (filter (\<lambda>x. EXPR_SEGBASE \<le> ty x \<and> evalue x = 1) v) \<le> 1) \<and>
    (is_reloc segment v \<longrightarrow> reloc_value v = coeff v (word_of_int EXPR_SIMPLE) \<and>
      (\<forall>x \<in> set v. EXPR_SEGBASE \<le> ty x \<longrightarrow>
        (coeff v (etype x) = 1 \<longleftrightarrow> etype x = reloc_seg v + word_of_int EXPR_SEGBASE)))"
proof -
  have f: "filter (\<lambda>x. EXPR_SEGBASE \<le> ty x \<and> evalue x = 1) v = filter seg_term v"
    by (simp add: seg_term_def cong: filter_cong)
  have i: "is_reloc segment v \<longleftrightarrow> (\<forall>x \<in> set v. reloc_term segment False x) \<and> length (filter seg_term v) \<le> 1"
    using is_reloc_loop_iff [OF assms] by (simp add: is_reloc_def)
  have "reloc_value v = coeff v (word_of_int EXPR_SIMPLE)" if "is_reloc segment v"
    using assms by (rule reloc_value_coeff) (use that i in \<open>auto simp: reloc_term_def\<close>)
  moreover have "coeff v (etype x) = 1 \<longleftrightarrow> etype x = reloc_seg v + word_of_int EXPR_SEGBASE"
    if r: "is_reloc segment v" and x: "x \<in> set v" "EXPR_SEGBASE \<le> ty x" for x
  proof -
    have c: "coeff v (etype x) = 1 \<longleftrightarrow> seg_term x"
      using coeff_distinct [OF assms x(1)] x(2) by (simp add: seg_term_def)
    show ?thesis
    proof (cases "filter seg_term v")
      case Nil
      then have "\<not> seg_term x" using x(1) by (auto simp: filter_empty_conv)
      moreover have "etype x \<noteq> NO_SEG + word_of_int EXPR_SEGBASE" using x(2) by (auto simp: ty_def)
      ultimately show ?thesis using c Nil by (simp add: reloc_seg_term)
    next
      case (Cons y ys)
      then have y: "filter seg_term v = [y]" using r i by simp
      have sy: "{z \<in> set v. seg_term z} = {y}" using arg_cong [OF y, of set] by simp
      then have "y \<in> set v" by blast
      moreover have "seg_term z \<longleftrightarrow> z = y" if "z \<in> set v" for z using that sy by blast
      moreover have "z = y" if "z \<in> set v" "etype z = etype y" for z
        using that coeff_distinct [OF assms] \<open>y \<in> set v\<close> by (metis expr.equality old.unit.exhaust)
      ultimately show ?thesis using c y x(1) by (auto simp: reloc_seg_term)
    qed
  qed
  ultimately show ?thesis using i f by (auto simp: reloc_term_def)
qed

lemma is_reloc_example: "vect_ok [term_of EXPR_SIMPLE 7, term_of (EXPR_SEGBASE + 4) 1, term_of (EXPR_SEGBASE + 6) 2]"
  by (simp add: vect_ok_def near_def ty_def term_of_def)

theorem is_reloc_correct_witness:
  "is_reloc 2 [term_of EXPR_SIMPLE 7, term_of (EXPR_SEGBASE + 4) 1, term_of (EXPR_SEGBASE + 6) 2]"
  using is_reloc_correct [OF is_reloc_example, of 2] by (simp add: term_of_def ty_def)

end
