(* ===== verification/Eval.thy ===== *)
theory Eval
  imports Vectors StrFunc Numbers
begin

text \<open>
  The expression evaluator, \<open>asm/eval.c\<close>: the recursive descent parser over the tokens of a
  scanner, with the vectors of \<open>Vectors\<close> as its values.
\<close>

section \<open>Tokens\<close>

text \<open>\<open>TOKEN_CHAR\<close> is a token that is its own character.\<close>

datatype token_type =
    TOKEN_INVALID | TOKEN_EOS | TOKEN_CHAR u8 | TOKEN_ID | TOKEN_NUM | TOKEN_ERRNUM | TOKEN_STR
  | TOKEN_ERRSTR | TOKEN_FLOAT | TOKEN_REG | TOKEN_INSN | TOKEN_HERE | TOKEN_BASE | TOKEN_SPECIAL
  | TOKEN_PREFIX | TOKEN_SHL | TOKEN_SHR | TOKEN_SDIV | TOKEN_SMOD | TOKEN_GE | TOKEN_LE | TOKEN_NE
  | TOKEN_DBL_AND | TOKEN_DBL_OR | TOKEN_DBL_XOR | TOKEN_SEG | TOKEN_WRT | TOKEN_FLOATIZE
  | TOKEN_STRFUNC | TOKEN_IFUNC | TOKEN_DECORATOR | TOKEN_OPMASK

abbreviation TOKEN_EQ :: token_type where "TOKEN_EQ \<equiv> TOKEN_CHAR 0x3D"
abbreviation TOKEN_GT :: token_type where "TOKEN_GT \<equiv> TOKEN_CHAR 0x3E"
abbreviation TOKEN_LT :: token_type where "TOKEN_LT \<equiv> TOKEN_CHAR 0x3C"

record tokenval =
  t_charptr :: bytes
  t_integer :: i64
  t_inttwo :: i64
  t_type :: token_type

definition t_string :: "tokenval \<Rightarrow> bytes" where
  "t_string tv = take (unat (t_inttwo tv)) (t_charptr tv)"

section \<open>State\<close>

text \<open>
  What the evaluator reads of the rest of the program: the limit on its effort, the assembly
  position, the symbol table, the segment bases of the output format, the conversion of
  floating-point constants, the mode, and fresh memory.
\<close>

record environment =
  limit_eval :: int
  loc_offset :: i64
  loc_segment :: i32
  loc_known :: bool
  in_absolute :: bool
  abs_offset :: i64
  abs_segment :: i32
  lookup_label :: "bytes \<Rightarrow> (i32 \<times> i64) option"
  is_extern :: "bytes \<Rightarrow> bool"
  segbase :: "i32 \<Rightarrow> i32"
  float_const :: "bytes \<Rightarrow> int \<Rightarrow> nat \<Rightarrow> bytes option"
  globalbits :: int
  fresh :: "nat \<Rightarrow> u8"

datatype severity = ERR_WARNING | ERR_NONFATAL

text \<open>
  Its own state: the scanner's private data, the current token (whose type is also kept in \<open>i\<close>), the
  count against the limit, the flags and hints of the caller, and the messages given (without the
  names that some of them quote). A vector or
  \<open>None\<close>, which is the null pointer, is the value of a parser.
\<close>

record 'p evstate =
  scpriv :: 'p
  tokval :: tokenval
  deadman :: int
  opflags :: "i32 option"
  hint :: "eval_hints option"
  messages :: "(severity \<times> string) list"

type_synonym 'p scanner = "'p \<Rightarrow> tokenval \<Rightarrow> 'p \<times> tokenval"
type_synonym 'p parser = "'p evstate \<Rightarrow> (vect option \<times> 'p evstate) result"

definition tok :: "'p evstate \<Rightarrow> token_type" where
  "tok st = t_type (tokval st)"

definition scan :: "'p scanner \<Rightarrow> 'p evstate \<Rightarrow> 'p evstate" where
  "scan sc st = (case sc (scpriv st) (tokval st) of (p, tv) \<Rightarrow> st\<lparr>scpriv := p, tokval := tv\<rparr>)"

definition nasm_error :: "severity \<Rightarrow> string \<Rightarrow> 'p evstate \<Rightarrow> 'p evstate" where
  "nasm_error sev msg st = st\<lparr>messages := messages st @ [(sev, msg)]\<rparr>"

definition fail :: "string \<Rightarrow> 'p parser" where
  "fail msg st = Inr (None, nasm_error ERR_NONFATAL msg st)"

definition ret :: "vect \<Rightarrow> 'p parser" where
  "ret e st = Inr (Some e, st)"

text \<open>Going on with a vector, or returning the null pointer.\<close>

definition and_vect :: "(vect option \<times> 'p evstate) result \<Rightarrow> (vect \<Rightarrow> 'p parser) \<Rightarrow> (vect option \<times> 'p evstate) result" where
  "and_vect r k = andthen r (\<lambda>(e, st). case e of None \<Rightarrow> Inr (None, st) | Some e \<Rightarrow> k e st)"

section \<open>Operations on vectors\<close>

definition add :: "vect \<Rightarrow> vect \<Rightarrow> 'p parser" where
  "add e f st = (case add_vectors e f (hint st) of (v, h) \<Rightarrow> Inr (Some v, st\<lparr>hint := h\<rparr>))"

definition mult :: "vect \<Rightarrow> i64 \<Rightarrow> bool \<Rightarrow> 'p parser" where
  "mult e c affect_hints st =
     (case scalar_mult e c affect_hints (hint st) of (v, h) \<Rightarrow> Inr (Some v, st\<lparr>hint := h\<rparr>))"

definition sub :: "vect \<Rightarrow> vect \<Rightarrow> 'p parser" where
  "sub e f st = and_vect (mult f (- 1) False st) (add e)"

definition segment_part :: "environment \<Rightarrow> vect \<Rightarrow> 'p parser" where
  "segment_part env e st =
     (if is_unknown e then ret unknown_expr st
      else if \<not> is_reloc (loc_segment env) e then fail ''cannot apply SEG to a non-relocatable value'' st
      else let seg = reloc_seg e
           in if seg = NO_SEG then fail ''cannot apply SEG to a non-relocatable value'' st
              else if seg AND 0x40000000 \<noteq> 0 then ret (scalarvect (scast (seg AND NOT 0x40000000))) st
              else if seg AND 1 \<noteq> 0
              then fail ''SEG applied to something which is already a segment base'' st
              else let base = segbase env (seg + 1)
                   in ret (finishtemp
                        [if base = NO_SEG then term_of EXPR_UNKNOWN 1
                         else \<lparr>etype = word_of_int EXPR_SEGBASE + base, evalue = 1\<rparr>]) st)"

section \<open>Binary operators\<close>

text \<open>
  Every level parses an operand of the next level and then, while an operator of its own follows,
  another operand, and combines the two. The fuel counts the operators; each of them is followed
  by an operand, which counts against the limit.
\<close>

type_synonym 'p operation = "token_type \<Rightarrow> vect \<Rightarrow> vect \<Rightarrow> 'p parser"

primrec binary :: "nat \<Rightarrow> 'p scanner \<Rightarrow> (token_type \<Rightarrow> bool) \<Rightarrow> 'p parser \<Rightarrow> 'p operation \<Rightarrow> vect \<Rightarrow> 'p parser" where
  "binary 0 sc is_op next oper e st = Inl Diverges"
| "binary (Suc n) sc is_op next oper e st =
     (if is_op (tok st)
      then let j = tok st
           in and_vect (next (scan sc st)) (\<lambda>f st.
                and_vect (oper j e f st) (\<lambda>e st. binary n sc is_op next oper e st))
      else Inr (Some e, st))"

definition scalars :: "vect \<Rightarrow> vect \<Rightarrow> bool" where
  "scalars e f \<longleftrightarrow> (is_simple e \<or> is_just_unknown e) \<and> (is_simple f \<or> is_just_unknown f)"

definition check_scalars :: "string \<Rightarrow> vect \<Rightarrow> vect \<Rightarrow> 'p evstate \<Rightarrow> 'p evstate" where
  "check_scalars msg e f st = (if scalars e f then st else nasm_error ERR_NONFATAL msg st)"

definition combine :: "(i64 \<Rightarrow> i64 \<Rightarrow> i64) \<Rightarrow> vect \<Rightarrow> vect \<Rightarrow> vect" where
  "combine f d e =
     (if is_just_unknown d \<or> is_just_unknown e then unknown_expr
      else scalarvect (f (reloc_value d) (reloc_value e)))"

definition rexp0_op :: "'p operation" where
  "rexp0_op j e f st =
     ret (combine (\<lambda>a b. of_bool (a \<noteq> 0 \<or> b \<noteq> 0)) e f)
       (check_scalars ''`|' operator may only be applied to scalar values'' e f st)"

definition rexp1_op :: "'p operation" where
  "rexp1_op j e f st =
     ret (combine (\<lambda>a b. of_bool ((a = 0) \<noteq> (b = 0))) e f)
       (check_scalars ''`^' operator may only be applied to scalar values'' e f st)"

definition rexp2_op :: "'p operation" where
  "rexp2_op j e f st =
     ret (combine (\<lambda>a b. of_bool (a \<noteq> 0 \<and> b \<noteq> 0)) e f)
       (check_scalars ''`&' operator may only be applied to scalar values'' e f st)"

text \<open>A comparison: the truth value, or \<open>None\<close> for an unknown difference (-1 in the code).\<close>

definition compare :: "token_type \<Rightarrow> vect \<Rightarrow> 'p evstate \<Rightarrow> bool option \<times> 'p evstate" where
  "compare j e st =
     (if j = TOKEN_EQ \<or> j = TOKEN_NE
      then (if is_unknown e then None
            else if \<not> is_really_simple e \<or> reloc_value e \<noteq> 0 then Some (j = TOKEN_NE)
            else Some (j = TOKEN_EQ), st)
      else if is_unknown e then (None, st)
      else if \<not> is_really_simple e
      then (Some False, nasm_error ERR_NONFATAL ''operands differ by a non-scalar'' st)
      else (Some (if reloc_value e = 0 then j = TOKEN_LE \<or> j = TOKEN_GE
                  else if sint (reloc_value e) > 0 then j = TOKEN_GE \<or> j = TOKEN_GT
                  else j = TOKEN_LE \<or> j = TOKEN_LT), st))"

definition rexp3_op :: "'p operation" where
  "rexp3_op j e f st =
     and_vect (sub e f st) (\<lambda>e st.
       case compare j e st of
         (None, st) \<Rightarrow> ret unknown_expr st
       | (Some v, st) \<Rightarrow> ret (scalarvect (of_bool v)) st)"

definition expr0_op :: "'p operation" where
  "expr0_op j e f st =
     ret (combine (OR) e f) (check_scalars ''`|' operator may only be applied to scalar values'' e f st)"

definition expr1_op :: "'p operation" where
  "expr1_op j e f st =
     ret (combine (XOR) e f) (check_scalars ''`^' operator may only be applied to scalar values'' e f st)"

definition expr2_op :: "'p operation" where
  "expr2_op j e f st =
     ret (combine (AND) e f) (check_scalars ''`&' operator may only be applied to scalar values'' e f st)"

definition expr3_op :: "'p operation" where
  "expr3_op j e f st =
     (if \<not> scalars e f
      then ret e (nasm_error ERR_NONFATAL ''shift operator may only be applied to scalar values'' st)
      else if is_just_unknown e \<or> is_just_unknown f then ret unknown_expr st
      else guard (0 \<le> sint (reloc_value f) \<and> sint (reloc_value f) < 64) UndefinedShift
             (let n = unat (reloc_value f)
              in ret (scalarvect (if j = TOKEN_SHL then push_bit n (reloc_value e) else drop_bit n (reloc_value e))) st))"

definition expr4_op :: "'p operation" where
  "expr4_op j e f st = (if j = TOKEN_CHAR 0x2B then add e f st else sub e f st)"

definition expr5_op :: "'p operation" where
  "expr5_op j e f st =
     (if j \<noteq> TOKEN_CHAR 0x2A \<and> \<not> scalars e f
      then fail ''division operator may only be applied to scalar values'' st
      else if j \<noteq> TOKEN_CHAR 0x2A \<and> \<not> is_just_unknown f \<and> reloc_value f = 0
      then fail ''division by zero'' st
      else if j = TOKEN_CHAR 0x2A
      then if is_simple e then mult f (reloc_value e) True st
           else if is_simple f then mult e (reloc_value f) True st
           else if is_just_unknown e \<and> is_just_unknown f then ret unknown_expr st
           else fail ''unable to multiply two non-scalar objects'' st
      else if is_just_unknown e \<or> is_just_unknown f then ret unknown_expr st
      else if j = TOKEN_CHAR 0x2F then ret (scalarvect (reloc_value e div reloc_value f)) st
      else if j = TOKEN_CHAR 0x25 then ret (scalarvect (reloc_value e mod reloc_value f)) st
      else guard (\<not> (sint (reloc_value e) = - (2 ^ 63) \<and> reloc_value f = - 1)) DivideFault
             (if j = TOKEN_SDIV
              then ret (scalarvect (word_of_int (sint (reloc_value e) sdiv sint (reloc_value f)))) st
              else ret (scalarvect (word_of_int (sint (reloc_value e) smod sint (reloc_value f)))) st))"

definition is_shift :: "token_type \<Rightarrow> bool" where
  "is_shift j \<longleftrightarrow> j = TOKEN_SHL \<or> j = TOKEN_SHR"

definition is_compare :: "token_type \<Rightarrow> bool" where
  "is_compare j \<longleftrightarrow> j = TOKEN_EQ \<or> j = TOKEN_LT \<or> j = TOKEN_GT \<or> j = TOKEN_NE \<or> j = TOKEN_LE \<or> j = TOKEN_GE"

definition is_addop :: "token_type \<Rightarrow> bool" where
  "is_addop j \<longleftrightarrow> j = TOKEN_CHAR 0x2B \<or> j = TOKEN_CHAR 0x2D"

definition is_mulop :: "token_type \<Rightarrow> bool" where
  "is_mulop j \<longleftrightarrow> j = TOKEN_CHAR 0x2A \<or> j = TOKEN_CHAR 0x2F \<or> j = TOKEN_CHAR 0x25 \<or> j = TOKEN_SDIV \<or> j = TOKEN_SMOD"

text \<open>The levels, over the parser of the operands of the tightest operators.\<close>

definition expr5 :: "nat \<Rightarrow> 'p scanner \<Rightarrow> 'p parser \<Rightarrow> 'p parser" where
  "expr5 n sc expr6 st = and_vect (expr6 st) (binary n sc is_mulop expr6 expr5_op)"

definition expr4 :: "nat \<Rightarrow> 'p scanner \<Rightarrow> 'p parser \<Rightarrow> 'p parser" where
  "expr4 n sc expr6 st = and_vect (expr5 n sc expr6 st) (binary n sc is_addop (expr5 n sc expr6) expr4_op)"

definition expr3 :: "nat \<Rightarrow> 'p scanner \<Rightarrow> 'p parser \<Rightarrow> 'p parser" where
  "expr3 n sc expr6 st = and_vect (expr4 n sc expr6 st) (binary n sc is_shift (expr4 n sc expr6) expr3_op)"

definition expr2 :: "nat \<Rightarrow> 'p scanner \<Rightarrow> 'p parser \<Rightarrow> 'p parser" where
  "expr2 n sc expr6 st =
     and_vect (expr3 n sc expr6 st) (binary n sc (\<lambda>j. j = TOKEN_CHAR 0x26) (expr3 n sc expr6) expr2_op)"

definition expr1 :: "nat \<Rightarrow> 'p scanner \<Rightarrow> 'p parser \<Rightarrow> 'p parser" where
  "expr1 n sc expr6 st =
     and_vect (expr2 n sc expr6 st) (binary n sc (\<lambda>j. j = TOKEN_CHAR 0x5E) (expr2 n sc expr6) expr1_op)"

definition expr0 :: "nat \<Rightarrow> 'p scanner \<Rightarrow> 'p parser \<Rightarrow> 'p parser" where
  "expr0 n sc expr6 st =
     and_vect (expr1 n sc expr6 st) (binary n sc (\<lambda>j. j = TOKEN_CHAR 0x7C) (expr1 n sc expr6) expr0_op)"

definition rexp3 :: "nat \<Rightarrow> 'p scanner \<Rightarrow> 'p parser \<Rightarrow> 'p parser" where
  "rexp3 n sc expr6 st = and_vect (expr0 n sc expr6 st) (binary n sc is_compare (expr0 n sc expr6) rexp3_op)"

definition rexp2 :: "nat \<Rightarrow> 'p scanner \<Rightarrow> 'p parser \<Rightarrow> 'p parser" where
  "rexp2 n sc expr6 st =
     and_vect (rexp3 n sc expr6 st) (binary n sc (\<lambda>j. j = TOKEN_DBL_AND) (rexp3 n sc expr6) rexp2_op)"

definition rexp1 :: "nat \<Rightarrow> 'p scanner \<Rightarrow> 'p parser \<Rightarrow> 'p parser" where
  "rexp1 n sc expr6 st =
     and_vect (rexp2 n sc expr6 st) (binary n sc (\<lambda>j. j = TOKEN_DBL_XOR) (rexp2 n sc expr6) rexp1_op)"

definition rexp0 :: "nat \<Rightarrow> 'p scanner \<Rightarrow> 'p parser \<Rightarrow> 'p parser" where
  "rexp0 n sc expr6 st =
     and_vect (rexp1 n sc expr6 st) (binary n sc (\<lambda>j. j = TOKEN_DBL_OR) (rexp1 n sc expr6) rexp0_op)"

text \<open>The parser for a bracketed expression: with or without the relational operators.\<close>

definition bexpr :: "bool \<Rightarrow> nat \<Rightarrow> 'p scanner \<Rightarrow> 'p parser \<Rightarrow> 'p parser" where
  "bexpr relational n sc expr6 = (if relational then rexp0 n sc expr6 else expr0 n sc expr6)"

section \<open>Operands\<close>

text \<open>\<open>eval_floatize\<close>: the bytes of the format and the part of them that is taken.\<close>

definition float_formats :: "(nat \<times> nat \<times> nat) list" where
  "float_formats =
     [(1, 0, 1), (2, 0, 2), (4, 0, 4), (8, 0, 8), (10, 0, 8), (10, 8, 2), (16, 0, 8), (16, 8, 8)]"

definition expect_paren :: "'p scanner \<Rightarrow> vect \<Rightarrow> 'p parser" where
  "expect_paren sc e st =
     (let st = scan sc st
      in if tok st \<noteq> TOKEN_CHAR 0x29 then fail ''expecting `)''  st else ret e (scan sc st))"

definition eval_floatize :: "environment \<Rightarrow> 'p scanner \<Rightarrow> i64 \<Rightarrow> 'p parser" where
  "eval_floatize env sc type st =
     (let st = scan sc st
      in if tok st \<noteq> TOKEN_CHAR 0x28 then fail ''expecting `('' st
      else let st = scan sc st;
               sign = (if tok st = TOKEN_CHAR 0x2D then - 1 else 1);
               st = (if tok st = TOKEN_CHAR 0x2D \<or> tok st = TOKEN_CHAR 0x2B then scan sc st else st)
      in if tok st \<noteq> TOKEN_FLOAT then fail ''expecting floating-point number'' st
      else guard (unat type < length float_formats) OutOfBounds
        (case float_formats ! unat type of (fsize, start, len) \<Rightarrow>
          (case float_const env (t_charptr (tokval st)) sign fsize of
             None \<Rightarrow> Inr (None, st)
           | Some res \<Rightarrow>
               let val = foldr (\<lambda>b v. push_bit 8 v + ucast b) (take len (drop start res)) 0
               in expect_paren sc (finishtemp [term_of EXPR_SIMPLE val]) st)))"

definition strfunc_of :: "i64 \<Rightarrow> strfunc option" where
  "strfunc_of n =
     (let fs = [STRFUNC_UTF16, STRFUNC_UTF16LE, STRFUNC_UTF16BE, STRFUNC_UTF32, STRFUNC_UTF32LE, STRFUNC_UTF32BE]
      in if unat n < 6 then Some (fs ! unat n) else None)"

definition too_long :: "bool \<Rightarrow> 'p evstate \<Rightarrow> 'p evstate" where
  "too_long rn_warn st =
     (if rn_warn then nasm_error ERR_WARNING ''character constant too long'' st else st)"

definition eval_strfunc :: "environment \<Rightarrow> 'p scanner \<Rightarrow> i64 \<Rightarrow> 'p parser" where
  "eval_strfunc env sc type st =
     (let st = scan sc st;
          parens = (tok st = TOKEN_CHAR 0x28);
          st = (if parens then scan sc st else st)
      in if tok st \<noteq> TOKEN_STR then fail ''expecting string'' st
      else case strfunc_of type of
        None \<Rightarrow> Inl OutOfBounds
      | Some func \<Rightarrow>
          andthen (string_transform (fresh env) (t_string (tokval st)) func) (\<lambda>r.
            case r of
              None \<Rightarrow> fail ''invalid string for transform'' st
            | Some (len, buf) \<Rightarrow>
                let (val, rn_warn) = readstrnum (globalbits env) (take len buf);
                    st = (if parens then scan sc st else st)
                in if parens \<and> tok st \<noteq> TOKEN_CHAR 0x29 then fail ''expecting `)'' st
                   else ret (finishtemp [term_of EXPR_SIMPLE val]) (scan sc (too_long rn_warn st))))"

text \<open>\<open>eval_ifunc\<close> on the number of the function: 0 and 1 are exact, 2 rounds down and 3 up.\<close>

definition eval_ifunc :: "i64 \<Rightarrow> i64 \<Rightarrow> 'p evstate \<Rightarrow> (i64 \<times> 'p evstate) result" where
  "eval_ifunc w func st =
     (if func = 0 \<or> func = 1
      then Inr (word_of_int (ilog2_64 w),
        if w \<noteq> 0 \<and> w AND (w - 1) = 0 then st
        else nasm_error (if func = 0 then ERR_NONFATAL else ERR_WARNING) ''ilog2 argument is not a power of two'' st)
      else if func = 2 then Inr (word_of_int (ilog2_64 w), st)
      else if func = 3
      then Inr (if w < 2 then 0 else word_of_int (ilog2_64 (w - 1) + 1), st)
      else Inl AssertFailed)"

text \<open>An operator on a single scalar.\<close>

definition unary :: "string \<Rightarrow> (i64 \<Rightarrow> 'p evstate \<Rightarrow> (i64 \<times> 'p evstate) result) \<Rightarrow> vect \<Rightarrow> 'p parser" where
  "unary msg f e st =
     (if is_just_unknown e then ret unknown_expr st
      else if \<not> is_simple e then fail msg st
      else andthen (f (reloc_value e) st) (\<lambda>(v, st). ret (scalarvect v) st))"

text \<open>A symbol, the current position or the current segment.\<close>

definition set_flag :: "i32 \<Rightarrow> 'p evstate \<Rightarrow> 'p evstate" where
  "set_flag flag st = st\<lparr>opflags := map_option (\<lambda>f. f OR flag) (opflags st)\<rparr>"

definition label_terms :: "int \<Rightarrow> i32 \<Rightarrow> i64 \<Rightarrow> vect" where
  "label_terms t seg ofs =
     term_of t ofs # (if seg \<noteq> NO_SEG then [\<lparr>etype = word_of_int EXPR_SEGBASE + seg, evalue = 1\<rparr>] else [])"

definition eval_symbol :: "environment \<Rightarrow> int \<Rightarrow> 'p evstate \<Rightarrow> (vect option \<times> 'p evstate) result" where
  "eval_symbol env critical st =
     (let name = t_charptr (tokval st);
          st_ext = (if is_extern env name then set_flag 2 else (\<lambda>st. st))
      in case lookup_label env name of
           Some (seg, ofs) \<Rightarrow> ret (label_terms EXPR_SIMPLE seg ofs) (st_ext st)
         | None \<Rightarrow>
             if critical = 2 then fail ''symbol undefined'' st
             else if critical = 1 then fail ''symbol not defined before use'' st
             else ret (label_terms EXPR_UNKNOWN NO_SEG 1) (st_ext (set_flag 1 st)))"

definition eval_place :: "environment \<Rightarrow> int \<Rightarrow> 'p evstate \<Rightarrow> (vect option \<times> 'p evstate) result" where
  "eval_place env critical st =
     (if \<not> loc_known env
      then ret [term_of EXPR_UNKNOWN 1] (nasm_error ERR_NONFATAL ''not supported in preprocess-only mode'' st)
      else let seg = (if in_absolute env then abs_segment env else loc_segment env)
      in if tok st = TOKEN_BASE then ret (label_terms EXPR_SIMPLE seg 0) st
      else if tok st = TOKEN_HERE
      then ret (label_terms EXPR_SIMPLE seg (if in_absolute env then abs_offset env else loc_offset env)) st
      else eval_symbol env critical st)"

text \<open>What the operand tokens stand for.\<close>

definition eval_operand :: "environment \<Rightarrow> int \<Rightarrow> 'p evstate \<Rightarrow> (vect option \<times> 'p evstate) result" where
  "eval_operand env critical st =
     (let tv = tokval st
      in case t_type tv of
           TOKEN_NUM \<Rightarrow> ret [term_of EXPR_SIMPLE (t_integer tv)] st
         | TOKEN_STR \<Rightarrow>
             (let (val, rn_warn) = readstrnum (globalbits env) (t_string tv)
              in ret [term_of EXPR_SIMPLE val] (too_long rn_warn st))
         | TOKEN_REG \<Rightarrow>
             ret [\<lparr>etype = ucast (t_integer tv), evalue = 1\<rparr>]
               (st\<lparr>hint := map_option (\<lambda>h. if htype h = EAH_NOHINT
                   then \<lparr>hbase = t_integer tv, htype = EAH_MAKEBASE\<rparr> else h) (hint st)\<rparr>)
         | TOKEN_DECORATOR \<Rightarrow> ret [term_of EXPR_RDSAE (t_integer tv)] st
         | _ \<Rightarrow> eval_place env critical st)"

definition is_operand :: "token_type \<Rightarrow> bool" where
  "is_operand j \<longleftrightarrow>
     j \<in> {TOKEN_NUM, TOKEN_STR, TOKEN_REG, TOKEN_ID, TOKEN_INSN, TOKEN_HERE, TOKEN_BASE, TOKEN_DECORATOR}"

primrec expr6 :: "environment \<Rightarrow> 'p scanner \<Rightarrow> bool \<Rightarrow> int \<Rightarrow> nat \<Rightarrow> 'p parser" where
  "expr6 env sc relational critical 0 st = Inl Diverges"
| "expr6 env sc relational critical (Suc n) st =
     (let st = st\<lparr>deadman := deadman st + 1\<rparr>;
          i = tok st;
          rec = expr6 env sc relational critical n
      in if deadman st > limit_eval env then fail ''expression too long'' st
      else if i = TOKEN_CHAR 0x2D
      then and_vect (rec (scan sc st)) (\<lambda>e. mult e (- 1) False)
      else if i = TOKEN_CHAR 0x2B then rec (scan sc st)
      else if i = TOKEN_CHAR 0x7E
      then and_vect (rec (scan sc st))
        (unary ''`~' operator may only be applied to scalar values'' (\<lambda>v st. Inr (NOT v, st)))
      else if i = TOKEN_CHAR 0x21
      then and_vect (rec (scan sc st))
        (unary ''`!' operator may only be applied to scalar values'' (\<lambda>v st. Inr (of_bool (v = 0), st)))
      else if i = TOKEN_IFUNC
      then (let func = t_integer (tokval st)
            in and_vect (rec (scan sc st))
                 (unary ''function may only be applied to scalar values'' (\<lambda>v. eval_ifunc v func)))
      else if i = TOKEN_SEG
      then and_vect (rec (scan sc st)) (\<lambda>e st.
        and_vect (segment_part env e st) (\<lambda>e st.
          if is_unknown e \<and> critical \<noteq> 0 then fail ''unable to determine segment base'' st else ret e st))
      else if i = TOKEN_FLOATIZE then eval_floatize env sc (t_integer (tokval st)) st
      else if i = TOKEN_STRFUNC then eval_strfunc env sc (t_integer (tokval st)) st
      else if i = TOKEN_CHAR 0x28
      then and_vect (bexpr relational n sc rec (scan sc st)) (\<lambda>e st.
        if tok st \<noteq> TOKEN_CHAR 0x29 then fail ''expecting `)'' st else ret e (scan sc st))
      else if is_operand i
      then and_vect (eval_operand env critical st) (\<lambda>temp st. ret (finishtemp temp) (scan sc st))
      else fail ''expression syntax error'' st)"

section \<open>The evaluator\<close>

definition eval_wrt :: "environment \<Rightarrow> int \<Rightarrow> vect \<Rightarrow> vect \<Rightarrow> 'p parser" where
  "eval_wrt env critical e f st =
     (if is_just_unknown f then add e unknown_expr st
      else if \<not> is_reloc (loc_segment env) f then fail ''invalid right-hand operand to WRT'' st
      else let seg = reloc_seg f
           in if seg = NO_SEG
              then add e (finishtemp [term_of EXPR_WRT (reloc_value f OR 0x40000000)]) st
              else if seg AND 0x40000000 = 0 \<and> sint seg mod 2 = 0 \<and> critical \<noteq> 0
              then fail ''invalid right-hand operand to WRT'' st
              else add e (finishtemp [term_of EXPR_WRT (scast seg)]) st)"

text \<open>
  \<open>CRITICAL\<close> (0x100) in the argument asks for the relational operators. The fuel covers
  the nesting and the operators that the limit allows.
\<close>

definition evaluate :: "environment \<Rightarrow> 'p scanner \<Rightarrow> 'p \<Rightarrow> tokenval \<Rightarrow> i32 option \<Rightarrow> i32 \<Rightarrow> eval_hints option \<Rightarrow>
    (vect option \<times> 'p evstate) result" where
  "evaluate env sc priv tv fwref crit hints =
     (let relational = (crit AND 0x100 \<noteq> 0);
          critical = sint (crit AND NOT 0x100);
          n = Suc (nat (limit_eval env + 1));
          st = \<lparr>scpriv = priv, tokval = tv, deadman = 0, opflags = fwref,
                hint = map_option (htype_update (\<lambda>_. EAH_NOHINT)) hints, messages = []\<rparr>;
          st = (if tok st = TOKEN_INVALID then scan sc st else st);
          expr6 = expr6 env sc relational critical n
      in and_vect (bexpr relational n sc expr6 st) (\<lambda>e st.
           if tok st = TOKEN_WRT
           then and_vect (expr6 (scan sc st)) (\<lambda>f st.
             and_vect (mult e 1 False st) (\<lambda>e. eval_wrt env critical e f))
           else mult e 1 False st))"

section \<open>Well-formed results, in bounded time\<close>

text \<open>
  With \<open>g\<close> the state and the vectors are well formed as well. Tokens name registers by their numbers, and segments are neither negative nor far-absolute:
  what the scanner and the symbol table guarantee outside far-absolute code.
\<close>

definition good_token :: "tokenval \<Rightarrow> bool" where
  "good_token tv \<longleftrightarrow> (t_type tv = TOKEN_REG \<longrightarrow> 1 \<le> sint (ucast (t_integer tv) :: i32) \<and> sint (ucast (t_integer tv) :: i32) \<le> EXPR_REG_END)"

definition good_segment :: "i32 \<Rightarrow> bool" where
  "good_segment seg \<longleftrightarrow> seg = NO_SEG \<or> 0 \<le> sint seg \<and> sint seg < SEG_ABS"

definition sane :: "environment \<Rightarrow> 'p scanner \<Rightarrow> bool" where
  "sane env sc \<longleftrightarrow> (\<forall>p tv. good_token (snd (sc p tv))) \<and>
     (\<forall>name seg ofs. lookup_label env name = Some (seg, ofs) \<longrightarrow> good_segment seg) \<and>
     (\<forall>seg. good_segment (segbase env seg)) \<and> good_segment (loc_segment env) \<and> good_segment (abs_segment env)"

definition inv :: "bool \<Rightarrow> environment \<Rightarrow> 'p scanner \<Rightarrow> 'p evstate \<Rightarrow> bool" where
  "inv g env sc st \<longleftrightarrow> deadman st \<le> limit_eval env \<and> (g \<and> sane env sc \<longrightarrow> good_token (tokval st))"

definition vok :: "bool \<Rightarrow> environment \<Rightarrow> 'p scanner \<Rightarrow> vect \<Rightarrow> bool" where
  "vok g env sc e \<longleftrightarrow> (g \<and> sane env sc \<longrightarrow> vect_ok e)"

definition post :: "bool \<Rightarrow> environment \<Rightarrow> 'p scanner \<Rightarrow> int \<Rightarrow> (vect option \<times> 'p evstate) result \<Rightarrow> bool" where
  "post g env sc lo r \<longleftrightarrow>
     (case r of Inl e \<Rightarrow> e \<noteq> Diverges
      | Inr (None, st) \<Rightarrow> True
      | Inr (Some e, st) \<Rightarrow> lo \<le> deadman st \<and> inv g env sc st \<and> vok g env sc e)"

lemma post_simps [simp]:
  "post g env sc lo (Inr (None, st))"
  "post g env sc lo (Inr (Some e, st)) \<longleftrightarrow> lo \<le> deadman st \<and> inv g env sc st \<and> vok g env sc e"
  "post g env sc lo (fail msg st)"
  "post g env sc lo (ret e st) \<longleftrightarrow> lo \<le> deadman st \<and> inv g env sc st \<and> vok g env sc e"
  by (simp_all add: post_def fail_def ret_def)

lemma post_Inl [simp]: "post g env sc lo (Inl f) \<longleftrightarrow> f \<noteq> Diverges"
  by (simp add: post_def)

lemma post_guard: "(c \<Longrightarrow> post g env sc lo r) \<Longrightarrow> f \<noteq> Diverges \<Longrightarrow> post g env sc lo (guard c f r)"
  by (simp add: guard_def)

lemma post_and_vect:
  assumes "post g env sc lo r"
    and "\<And>e st. lo \<le> deadman st \<Longrightarrow> inv g env sc st \<Longrightarrow> vok g env sc e \<Longrightarrow> post g env sc lo' (k e st)"
  shows "post g env sc lo' (and_vect r k)"
proof (cases r)
  case (Inr x)
  then show ?thesis using assms by (cases x; cases "fst x") (auto simp: and_vect_def)
qed (use assms in \<open>simp add: and_vect_def\<close>)

lemma post_mono: "post g env sc lo r \<Longrightarrow> lo' \<le> lo \<Longrightarrow> post g env sc lo' r"
  by (auto simp: post_def split: sum.splits option.splits)

lemma scan_simps [simp]: "deadman (scan sc st) = deadman st"
  by (simp add: scan_def split: prod.split)

lemma inv_scan [intro]: "inv g env sc st \<Longrightarrow> inv g env sc (scan sc st)"
  by (auto simp: inv_def sane_def scan_def split: prod.split) (metis snd_conv)

lemma nasm_error_simps [simp]:
  "deadman (nasm_error sev msg st) = deadman st" "inv g env sc (nasm_error sev msg st) = inv g env sc st"
  by (simp_all add: nasm_error_def inv_def)

lemma check_scalars_simps [simp]:
  "deadman (check_scalars msg e f st) = deadman st" "inv g env sc (check_scalars msg e f st) = inv g env sc st"
  by (simp_all add: check_scalars_def)

lemma update_simps [simp]:
  "inv g env sc (st\<lparr>hint := h\<rparr>) = inv g env sc st" "inv g env sc (st\<lparr>opflags := w\<rparr>) = inv g env sc st"
  by (simp_all add: inv_def)

lemma too_long_simps [simp]:
  "deadman (too_long b st) = deadman st" "inv g env sc (too_long b st) = inv g env sc st"
  by (simp_all add: too_long_def)

lemma set_flag_simps [simp]:
  "deadman (set_flag b st) = deadman st" "inv g env sc (set_flag b st) = inv g env sc st"
  by (simp_all add: set_flag_def)

lemma term_of_ok:
  "ty (term_of t v) = t" "near (term_of t v)" if "0 < t" "t \<le> EXPR_SEGBASE"
proof -
  have "uint (word_of_int t :: i32) = t" using that by (simp add: uint_word_of_int)
  then have "sint (word_of_int t :: i32) = t" using that by (cases "word_of_int t :: i32" rule: sint_cases) auto
  then show "ty (term_of t v) = t" "near (term_of t v)" using that by (simp_all add: ty_def term_of_def near_def)
qed

lemma single_ok: "0 < t \<Longrightarrow> t \<le> EXPR_SEGBASE \<Longrightarrow> vect_ok [term_of t v]"
  using term_of_ok [of t v] by (simp add: vect_ok_Cons)

lemma finishtemp_vect_ok: "vect_ok v \<Longrightarrow> finishtemp v = v"
  by (rule finishtemp_ok) (auto simp: vect_ok_def)

lemma scalarvect_ok [simp]: "vect_ok (scalarvect v)" "vect_ok unknown_expr"
  by (simp_all add: scalarvect_def unknown_expr_def finishtemp_vect_ok single_ok)

lemma vok_scalar [simp]: "vok g env sc (scalarvect v)" "vok g env sc unknown_expr" "vok g env sc (combine c e f)"
  by (simp_all add: vok_def combine_def)

lemma post_add:
  "inv g env sc st \<Longrightarrow> vok g env sc e \<Longrightarrow> vok g env sc f \<Longrightarrow> post g env sc (deadman st) (add e f st)"
  using add_vectors_ok(1) [of e f "hint st"] by (auto simp: add_def vok_def split: prod.splits)

lemma post_mult:
  "inv g env sc st \<Longrightarrow> vok g env sc e \<Longrightarrow> post g env sc (deadman st) (mult e c a st)"
  using scalar_mult_ok(1) [of e c a "hint st"] by (auto simp: mult_def vok_def split: prod.splits)

lemma post_sub:
  assumes "inv g env sc st" and "vok g env sc e" and "vok g env sc f"
  shows "post g env sc (deadman st) (sub e f st)"
  unfolding sub_def using post_mult [OF assms(1,3)]
  by (rule post_and_vect) (meson assms(2) post_add post_mono)

text \<open>What a level needs of the operation that combines its operands.\<close>

definition oper_ok :: "bool \<Rightarrow> environment \<Rightarrow> 'p scanner \<Rightarrow> 'p operation \<Rightarrow> bool" where
  "oper_ok g env sc oper \<longleftrightarrow> (\<forall>j e f st. inv g env sc st \<longrightarrow> vok g env sc e \<longrightarrow> vok g env sc f \<longrightarrow>
     post g env sc (deadman st) (oper j e f st))"

lemma opers_ok:
  "oper_ok g env sc rexp0_op" "oper_ok g env sc rexp1_op" "oper_ok g env sc rexp2_op" "oper_ok g env sc expr0_op"
  "oper_ok g env sc expr1_op" "oper_ok g env sc expr2_op"
  by (simp_all add: oper_ok_def rexp0_op_def rexp1_op_def rexp2_op_def expr0_op_def expr1_op_def expr2_op_def)

lemma compare_simps:
  "compare j e st = (v, st') \<Longrightarrow> deadman st' = deadman st \<and> inv g env sc st' = inv g env sc st"
  by (auto simp: compare_def split: if_splits)

lemma rexp3_op_ok: "oper_ok g env sc rexp3_op"
  unfolding oper_ok_def rexp3_op_def
proof (intro allI impI)
  fix j e f and st :: "'a evstate"
  assume a: "inv g env sc st" "vok g env sc e" "vok g env sc f"
  show "post g env sc (deadman st) (and_vect (sub e f st) (\<lambda>e st.
       case compare j e st of (None, st) \<Rightarrow> ret unknown_expr st | (Some v, st) \<Rightarrow> ret (scalarvect (of_bool v)) st))"
    using post_sub [OF a]
  proof (rule post_and_vect)
    fix d and st' :: "'a evstate"
    assume "deadman st \<le> deadman st'" "inv g env sc st'"
    then show "post g env sc (deadman st) (case compare j d st' of (None, st) \<Rightarrow> ret unknown_expr st
        | (Some v, st) \<Rightarrow> ret (scalarvect (of_bool v)) st)"
      using compare_simps [of j d st'] by (cases "compare j d st'") (auto split: option.split)
  qed
qed

lemma arith_opers_ok: "oper_ok g env sc expr3_op" "oper_ok g env sc expr4_op" "oper_ok g env sc expr5_op"
  by (auto simp: oper_ok_def expr3_op_def expr4_op_def expr5_op_def Let_def post_add post_sub post_mult intro!: post_guard)

definition parser_ok :: "bool \<Rightarrow> environment \<Rightarrow> 'p scanner \<Rightarrow> nat \<Rightarrow> 'p parser \<Rightarrow> bool" where
  "parser_ok g env sc n p \<longleftrightarrow> (\<forall>st. inv g env sc st \<longrightarrow> limit_eval env + 2 \<le> int n + deadman st \<longrightarrow>
     post g env sc (deadman st + 1) (p st))"

lemma binary_ok:
  assumes nx: "parser_ok g env sc N next" and oper: "oper_ok g env sc oper"
  shows "inv g env sc st \<Longrightarrow> vok g env sc e \<Longrightarrow> limit_eval env + 2 \<le> int n + deadman st \<Longrightarrow>
    limit_eval env + 2 \<le> int N + deadman st \<Longrightarrow>
    post g env sc (deadman st) (binary n sc is_op next oper e st)"
proof (induction n arbitrary: e st)
  case 0
  then show ?case by (simp add: inv_def)
next
  case (Suc n)
  show ?case
  proof (cases "is_op (tok st)")
    case True
    have n: "post g env sc (deadman st + 1) (next (scan sc st))"
      using nx [unfolded parser_ok_def, rule_format, of "scan sc st"] Suc.prems inv_scan [of g env sc st] by simp
    have "post g env sc (deadman st) (and_vect (next (scan sc st)) (\<lambda>f st.
        and_vect (oper (tok st0) e f st) (\<lambda>e st. binary n sc is_op next oper e st)))" for st0 :: "'a evstate"
      using n
    proof (rule post_and_vect)
      fix f and st1 :: "'a evstate"
      assume 1: "deadman st + 1 \<le> deadman st1" "inv g env sc st1" "vok g env sc f"
      have "post g env sc (deadman st1) (oper (tok st0) e f st1)"
        using oper 1 Suc.prems by (simp add: oper_ok_def)
      then show "post g env sc (deadman st) (and_vect (oper (tok st0) e f st1) (\<lambda>e st. binary n sc is_op next oper e st))"
      proof (rule post_and_vect)
        fix e2 and st2 :: "'a evstate"
        assume 2: "deadman st1 \<le> deadman st2" "inv g env sc st2" "vok g env sc e2"
        then have "post g env sc (deadman st2) (binary n sc is_op next oper e2 st2)"
          using 1 Suc.prems by (intro Suc.IH) auto
        then show "post g env sc (deadman st) (binary n sc is_op next oper e2 st2)"
          by (rule post_mono) (use 1 2 in simp)
      qed
    qed
    then show ?thesis using True by (simp add: Let_def)
  next
    case False
    then show ?thesis using Suc.prems by simp
  qed
qed

lemma level_ok:
  assumes "parser_ok g env sc n next" and "oper_ok g env sc oper"
  shows "parser_ok g env sc n (\<lambda>st. and_vect (next st) (binary n sc is_op next oper))"
  unfolding parser_ok_def
proof (intro allI impI)
  fix st assume st: "inv g env sc st" "limit_eval env + 2 \<le> int n + deadman st"
  from assms(1) st have "post g env sc (deadman st + 1) (next st)" by (simp add: parser_ok_def)
  then show "post g env sc (deadman st + 1) (and_vect (next st) (binary n sc is_op next oper))"
  proof (rule post_and_vect)
    fix e and st1 :: "'a evstate"
    assume 1: "deadman st + 1 \<le> deadman st1" "inv g env sc st1" "vok g env sc e"
    then have "post g env sc (deadman st1) (binary n sc is_op next oper e st1)"
      using st by (intro binary_ok [OF assms]) auto
    then show "post g env sc (deadman st + 1) (binary n sc is_op next oper e st1)"
      using 1(1) by (rule post_mono)
  qed
qed

lemma levels_ok:
  assumes "parser_ok g env sc n p"
  shows "parser_ok g env sc n (bexpr relational n sc p)"
proof -
  have 5: "parser_ok g env sc n (expr5 n sc p)"
    unfolding expr5_def by (intro level_ok assms arith_opers_ok)
  have 4: "parser_ok g env sc n (expr4 n sc p)" unfolding expr4_def by (intro level_ok 5 arith_opers_ok)
  have 3: "parser_ok g env sc n (expr3 n sc p)" unfolding expr3_def by (intro level_ok 4 arith_opers_ok)
  have 2: "parser_ok g env sc n (expr2 n sc p)" unfolding expr2_def by (intro level_ok 3 opers_ok)
  have 1: "parser_ok g env sc n (expr1 n sc p)" unfolding expr1_def by (intro level_ok 2 opers_ok)
  have 0: "parser_ok g env sc n (expr0 n sc p)" unfolding expr0_def by (intro level_ok 1 opers_ok)
  have r3: "parser_ok g env sc n (rexp3 n sc p)" unfolding rexp3_def by (intro level_ok 0 rexp3_op_ok)
  have r2: "parser_ok g env sc n (rexp2 n sc p)" unfolding rexp2_def by (intro level_ok r3 opers_ok)
  have r1: "parser_ok g env sc n (rexp1 n sc p)" unfolding rexp1_def by (intro level_ok r2 opers_ok)
  have r0: "parser_ok g env sc n (rexp0 n sc p)" unfolding rexp0_def by (intro level_ok r1 opers_ok)
  show ?thesis using 0 r0 by (simp add: bexpr_def)
qed

lemma label_terms_ok:
  assumes "good_segment seg" and "t = EXPR_SIMPLE \<or> t = EXPR_UNKNOWN"
  shows "vect_ok (label_terms t seg ofs)"
proof (cases "seg = NO_SEG")
  case True
  then show ?thesis using assms(2) single_ok [of t] by (auto simp: label_terms_def)
next
  case False
  then have s: "0 \<le> sint seg" "sint seg < SEG_ABS" using assms(1) by (auto simp: good_segment_def)
  then have u: "uint seg = sint seg" by (cases seg rule: sint_cases) auto
  then have "uint (word_of_int EXPR_SEGBASE + seg) = EXPR_SEGBASE + sint seg" using s by (simp add: uint_word_ariths)
  then have "sint (word_of_int EXPR_SEGBASE + seg) = EXPR_SEGBASE + sint seg"
    using s by (cases "word_of_int EXPR_SEGBASE + seg" rule: sint_cases) auto
  then show ?thesis
    using False s assms(2) term_of_ok [of t ofs] by (auto simp: label_terms_def vect_ok_Cons ty_def near_def)
qed

lemma post_and_vect_ret:
  "post g env sc lo r \<Longrightarrow> (\<And>e st. lo \<le> deadman st \<Longrightarrow> inv g env sc st \<Longrightarrow> vok g env sc e \<Longrightarrow> post g env sc lo (k e st)) \<Longrightarrow>
    post g env sc lo (and_vect r k)"
  by (rule post_and_vect)

lemma eval_operand_ok:
  assumes "inv g env sc st"
  shows "post g env sc (deadman st) (eval_operand env critical st)"
proof -
  have sym: "post g env sc (deadman st) (eval_symbol env critical st)"
  proof (cases "lookup_label env (t_charptr (tokval st))")
    case None
    then show ?thesis using assms label_terms_ok [of NO_SEG EXPR_UNKNOWN]
      by (auto simp: eval_symbol_def Let_def vok_def good_segment_def)
  next
    case (Some x)
    then obtain seg ofs where x: "lookup_label env (t_charptr (tokval st)) = Some (seg, ofs)" by (cases x) auto
    then have "sane env sc \<Longrightarrow> good_segment seg" unfolding sane_def by blast
    then show ?thesis using assms x label_terms_ok [of seg EXPR_SIMPLE]
      by (auto simp: eval_symbol_def Let_def vok_def)
  qed
  have place: "post g env sc (deadman st) (eval_place env critical st)"
    using assms sym label_terms_ok [of "loc_segment env" EXPR_SIMPLE] label_terms_ok [of "abs_segment env" EXPR_SIMPLE]
      single_ok [of EXPR_UNKNOWN]
    by (auto simp: eval_place_def Let_def vok_def sane_def)
  have reg: "vok g env sc [\<lparr>etype = ucast (t_integer (tokval st)), evalue = 1\<rparr>]" if "t_type (tokval st) = TOKEN_REG"
    using assms that by (auto simp: vok_def inv_def good_token_def vect_ok_Cons ty_def near_def)
  show ?thesis
    using assms place reg single_ok [of EXPR_SIMPLE] single_ok [of EXPR_RDSAE]
    by (auto simp: eval_operand_def Let_def vok_def split: token_type.split prod.split)
qed

lemma unary_ok:
  assumes "inv g env sc st" and "\<And>v. case f v st of Inl e \<Rightarrow> e \<noteq> Diverges | Inr (w, st') \<Rightarrow> deadman st' = deadman st \<and> inv g env sc st'"
  shows "post g env sc (deadman st) (unary msg f e st)"
  using assms(1) assms(2) [of "reloc_value e"] by (auto simp: unary_def split: sum.splits prod.splits)

lemma eval_ifunc_ok:
  "inv g env sc st \<Longrightarrow> case eval_ifunc v func st of Inl e \<Rightarrow> e \<noteq> Diverges
    | Inr (w, st') \<Rightarrow> deadman st' = deadman st \<and> inv g env sc st'"
  by (simp add: eval_ifunc_def)

lemma segment_part_ok:
  assumes "inv g env sc st"
  shows "post g env sc (deadman st) (segment_part env e st)"
proof -
  have "vok g env sc (finishtemp [if b = NO_SEG then term_of EXPR_UNKNOWN 1
      else \<lparr>etype = word_of_int EXPR_SEGBASE + b, evalue = 1\<rparr>])" if "sane env sc \<Longrightarrow> good_segment b" for b
  proof -
    have "label_terms EXPR_SIMPLE b 0 = term_of EXPR_SIMPLE 0 # [\<lparr>etype = word_of_int EXPR_SEGBASE + b, evalue = 1\<rparr>]"
      if "b \<noteq> NO_SEG" using that by (simp add: label_terms_def)
    then have "vect_ok [\<lparr>etype = word_of_int EXPR_SEGBASE + b, evalue = 1\<rparr>]" if "b \<noteq> NO_SEG" "good_segment b"
      using label_terms_ok [of b EXPR_SIMPLE 0] that by (simp add: vect_ok_Cons)
    then show ?thesis using that single_ok [of EXPR_UNKNOWN] by (auto simp: vok_def finishtemp_vect_ok)
  qed
  moreover have "sane env sc \<Longrightarrow> good_segment (segbase env s)" for s unfolding sane_def by blast
  ultimately show ?thesis using assms by (auto simp: segment_part_def Let_def)
qed

lemma expect_paren_ok:
  "inv g env sc st \<Longrightarrow> vok g env sc e \<Longrightarrow> post g env sc (deadman st) (expect_paren sc e st)"
  by (auto simp: expect_paren_def Let_def)

lemma eval_floatize_ok:
  assumes "inv g env sc st"
  shows "post g env sc (deadman st) (eval_floatize env sc t st)"
proof -
  have "vok g env sc (finishtemp [term_of EXPR_SIMPLE v])" for v
    by (simp add: vok_def finishtemp_vect_ok single_ok)
  moreover have "inv g env sc st' \<Longrightarrow> deadman st' = deadman st \<Longrightarrow> vok g env sc e \<Longrightarrow> post g env sc (deadman st) (expect_paren sc e st')" for st' e
    using expect_paren_ok [of g env sc st' e] by simp
  ultimately show ?thesis using assms inv_scan [of g env sc]
    by (auto simp: eval_floatize_def Let_def intro!: post_guard split: prod.split option.split)
qed

lemma string_transform_no_fault: "\<exists>r. string_transform junk str func = Inr r"
  by (cases func) (auto simp: transforms)

lemma eval_strfunc_ok:
  assumes "inv g env sc st"
  shows "post g env sc (deadman st) (eval_strfunc env sc t st)"
proof -
  have v: "vok g env sc (finishtemp [term_of EXPR_SIMPLE v])" for v
    by (simp add: vok_def finishtemp_vect_ok single_ok)
  have "post g env sc (deadman st) (andthen (string_transform junk str func) k)"
    if "post g env sc (deadman st) (k None)" "\<And>len buf. post g env sc (deadman st) (k (Some (len, buf)))" for junk str func k
    using that string_transform_no_fault [of junk str func] by (metis andthen_simps(2) not_Some_eq surj_pair)
  then show ?thesis using assms inv_scan [of g env sc] v
    by (auto simp: eval_strfunc_def Let_def split: prod.split option.split)
qed

lemma expr6_ok: "parser_ok g env sc n (expr6 env sc relational critical n)"
proof (induction n)
  case 0
  then show ?case by (auto simp: parser_ok_def inv_def)
next
  case (Suc n)
  show ?case
    unfolding parser_ok_def
  proof (intro allI impI)
    fix st :: "'a evstate"
    assume st: "inv g env sc st" "limit_eval env + 2 \<le> int (Suc n) + deadman st"
    let ?st = "st\<lparr>deadman := deadman st + 1\<rparr>" and ?rec = "expr6 env sc relational critical n"
    show "post g env sc (deadman st + 1) (expr6 env sc relational critical (Suc n) st)"
    proof (cases "limit_eval env < deadman st + 1")
      case True
      then show ?thesis by (simp add: Let_def)
    next
      case False
      then have i: "inv g env sc ?st" using st(1) by (simp add: inv_def)
      have d: "deadman ?st = deadman st + 1" by simp
      have p: "post g env sc (deadman st + 1) (p (scan sc ?st))" if "parser_ok g env sc n p" for p
        using that [unfolded parser_ok_def, rule_format, of "scan sc ?st"] inv_scan [OF i] st(2) d
        by (auto intro: post_mono)
      note rec = p [OF Suc.IH] and br = p [OF levels_ok [OF Suc.IH]]
      have lift: "post g env sc (deadman st + 1) (and_vect r k)"
        if "post g env sc (deadman st + 1) r"
          "\<And>e st1. inv g env sc st1 \<Longrightarrow> vok g env sc e \<Longrightarrow> post g env sc (deadman st1) (k e st1)" for r k
        using that(1) by (rule post_and_vect) (meson that(2) post_mono)
      have u: "inv g env sc st1 \<Longrightarrow> post g env sc (deadman st1) (unary msg (\<lambda>v st. Inr (h v, st)) e st1)" for st1 msg h e
        by (rule unary_ok) simp_all
      have "inv g env sc st1 \<Longrightarrow> post g env sc (deadman st1) (unary msg (\<lambda>v. eval_ifunc v func) e st1)" for st1 msg func e
        by (intro unary_ok eval_ifunc_ok)
      note ui = this
      have sp: "inv g env sc st1 \<Longrightarrow> post g env sc (deadman st1) (and_vect (segment_part env e st1) (\<lambda>e st.
          if is_unknown e \<and> critical \<noteq> 0 then fail ''unable to determine segment base'' st else ret e st))" for st1 e
        by (rule post_and_vect [OF segment_part_ok]) auto
      have eo: "post g env sc (deadman st + 1) (and_vect (eval_operand env critical ?st) (\<lambda>temp st. ret (finishtemp temp) (scan sc st)))"
        using eval_operand_ok [OF i, of critical] unfolding d
        by (rule post_and_vect) (auto simp: vok_def finishtemp_vect_ok)
      have fs: "post g env sc (deadman st + 1) (eval_floatize env sc t ?st)" "post g env sc (deadman st + 1) (eval_strfunc env sc t ?st)" for t
        using eval_floatize_ok [OF i, of t] eval_strfunc_ok [OF i, of t] by simp_all
      have ne: "\<not> deadman ?st > limit_eval env" using False by simp
      show ?thesis
        unfolding expr6.simps Let_def
        using ne by (auto intro!: lift [OF rec] lift [OF br] rec u ui sp eo fs post_mult)
    qed
  qed
qed

lemma eval_wrt_ok:
  assumes "inv g env sc st" and "vok g env sc e"
  shows "post g env sc (deadman st) (eval_wrt env critical e f st)"
proof -
  have "vok g env sc (finishtemp [term_of EXPR_WRT v])" for v
    by (simp add: vok_def finishtemp_vect_ok single_ok)
  then show ?thesis using assms by (auto simp: eval_wrt_def Let_def intro!: post_add)
qed

lemma bexpr_fail: "p st = fail msg st' \<Longrightarrow> bexpr relational n sc p st = fail msg st'"
  by (simp add: bexpr_def rexp0_def rexp1_def rexp2_def rexp3_def expr0_def expr1_def expr2_def expr3_def
      expr4_def expr5_def fail_def and_vect_def)

text \<open>The first vector of \<open>evaluate\<close>, before the segment that \<open>WRT\<close> may ask for.\<close>

lemma evaluate_start:
  fixes priv :: 'p and fwref h and sc :: "'p scanner"
  assumes g: "g \<longrightarrow> good_token tv" and lim: "0 \<le> limit_eval env"
  defines "init \<equiv> \<lparr>scpriv = priv, tokval = tv, deadman = 0, opflags = fwref, hint = h, messages = []\<rparr>"
  defines "st0 \<equiv> if tok init = TOKEN_INVALID then scan sc init else init"
  shows "post g env sc 1 (bexpr rel (Suc (nat (limit_eval env + 1))) sc (expr6 env sc rel cr (Suc (nat (limit_eval env + 1)))) st0)"
proof -
  have d: "deadman st0 = 0" by (simp add: st0_def init_def)
  have i0: "inv g env sc init" using g lim by (simp add: inv_def init_def)
  then have "inv g env sc st0" using inv_scan [of g env sc init] by (simp add: st0_def)
  moreover have "limit_eval env + 2 \<le> int (Suc (nat (limit_eval env + 1))) + deadman st0" using lim d by simp
  ultimately have "post g env sc (deadman st0 + 1) (bexpr rel (Suc (nat (limit_eval env + 1))) sc (expr6 env sc rel cr (Suc (nat (limit_eval env + 1)))) st0)"
    using levels_ok [OF expr6_ok, of g env sc "Suc (nat (limit_eval env + 1))" rel rel cr] unfolding parser_ok_def by blast
  then show ?thesis using d by simp
qed

lemma evaluate_wrt:
  assumes st: "1 \<le> deadman st" "inv g env sc st" "vok g env sc e" and lim: "0 \<le> limit_eval env"
  shows "post g env sc 1 (if tok st = TOKEN_WRT
    then and_vect (expr6 env sc rel cr (Suc (nat (limit_eval env + 1))) (scan sc st)) (\<lambda>f st. and_vect (mult e 1 False st) (\<lambda>e. eval_wrt env cr e f))
    else mult e 1 False st)"
proof -
  let ?e6 = "expr6 env sc rel cr (Suc (nat (limit_eval env + 1)))"
  have m: "post g env sc 1 (mult e 1 False st1)" if "1 \<le> deadman st1" "inv g env sc st1" for st1
    using post_mult [OF that(2) st(3)] that(1) by (rule post_mono)
  have "post g env sc 1 (and_vect (?e6 (scan sc st)) (\<lambda>f st. and_vect (mult e 1 False st) (\<lambda>e. eval_wrt env cr e f)))"
  proof (rule post_and_vect)
    have "post g env sc (deadman (scan sc st) + 1) (?e6 (scan sc st))"
      using expr6_ok [of g env sc "Suc (nat (limit_eval env + 1))" rel cr, unfolded parser_ok_def, rule_format, of "scan sc st"]
        inv_scan [OF st(2)] st(1) lim by simp
    then show "post g env sc 1 (?e6 (scan sc st))" by (rule post_mono) (use st(1) in simp)
    fix f and st1 :: "'a evstate"
    assume "1 \<le> deadman st1" "inv g env sc st1"
    then show "post g env sc 1 (and_vect (mult e 1 False st1) (\<lambda>e. eval_wrt env cr e f))"
      by (rule post_and_vect [OF m]) (meson eval_wrt_ok post_mono)
  qed
  then show ?thesis using m [OF st(1,2)] by simp
qed

lemma evaluate_post:
  assumes "g \<longrightarrow> good_token tv" and "0 \<le> limit_eval env"
  shows "post g env sc 1 (evaluate env sc priv tv fwref crit hints)"
  unfolding evaluate_def Let_def
  by (rule post_and_vect, rule evaluate_start [OF assms], rule evaluate_wrt [OF _ _ _ assms(2)])

lemma evaluate_no_limit:
  assumes "limit_eval env < 0"
  shows "\<exists>st. evaluate env sc priv tv fwref crit hints = Inr (None, st)"
proof -
  have e: "expr6 env sc rel cr (Suc n) st = fail ''expression too long'' (st\<lparr>deadman := deadman st + 1\<rparr>)"
    if "deadman st = 0" for rel cr n and st :: "'a evstate"
    using assms that by (simp only: expr6.simps Let_def) simp
  show ?thesis unfolding evaluate_def Let_def
    by (subst bexpr_fail [OF e]) (simp_all add: fail_def and_vect_def)
qed

lemma evaluate_total: "evaluate env sc priv tv fwref crit hints \<noteq> Inl Diverges"
proof (cases "limit_eval env < 0")
  case True
  from evaluate_no_limit [OF this, of sc priv tv fwref crit hints] show ?thesis by auto
next
  case False
  then show ?thesis using evaluate_post [of False tv env sc priv fwref crit hints] by (auto simp: post_def)
qed

lemma evaluate_typed:
  assumes "sane env sc" and "good_token tv" and "evaluate env sc priv tv fwref crit hints = Inr (Some e, st)"
  shows "vect_ok e"
proof (cases "limit_eval env < 0")
  case True
  from evaluate_no_limit [OF this, of sc priv tv fwref crit hints] assms(3) show ?thesis by auto
next
  case False
  then show ?thesis using evaluate_post [of True tv env sc priv fwref crit hints] assms by (simp add: post_def vok_def)
qed

text \<open>
  C8. The evaluator always returns: whatever tokens the scanner delivers, without end or not, the count
  against the limit bounds the recursion and the loops together. It answers with an error, with
  the faults of a shift count, of a quotient or of an invalid function number, or with a vector;
  and every vector it answers with, and every one it forms on the way, is well formed when the
  tokens and the symbols are.
\<close>

theorem evaluate_total_and_typed:
  "evaluate env sc priv tv fwref crit hints \<noteq> Inl Diverges \<and>
   (sane env sc \<and> good_token tv \<and> 0 \<le> limit_eval env \<longrightarrow>
     (case evaluate env sc priv tv fwref crit hints of
        Inr (Some e, st) \<Rightarrow> vect_ok e | _ \<Rightarrow> True))"
  using evaluate_total [of env sc priv tv fwref crit hints] evaluate_typed [of env sc tv priv fwref crit hints]
  by (auto split: sum.splits option.splits)

text \<open>On the tokens of \<open>2 + 3 * 4\<close>, with an empty symbol table.\<close>

definition demo_env :: environment where
  "demo_env = \<lparr>limit_eval = 8, loc_offset = 0, loc_segment = 0, loc_known = True, in_absolute = False,
     abs_offset = 0, abs_segment = NO_SEG, lookup_label = (\<lambda>name. None), is_extern = (\<lambda>name. False),
     segbase = (\<lambda>seg. NO_SEG), float_const = (\<lambda>s sign n. None), globalbits = 64, fresh = (\<lambda>i. 0)\<rparr>"

definition token :: "token_type \<Rightarrow> i64 \<Rightarrow> tokenval" where
  "token j v = \<lparr>t_charptr = [], t_integer = v, t_inttwo = 0, t_type = j\<rparr>"

fun demo_scan :: "nat scanner" where
  "demo_scan p tv =
     (p + 1, if p = 0 then token TOKEN_NUM 2 else if p = 1 then token (TOKEN_CHAR 0x2B) 0
             else if p = 2 then token TOKEN_NUM 3 else if p = 3 then token (TOKEN_CHAR 0x2A) 0
             else if p = 4 then token TOKEN_NUM 4 else token TOKEN_EOS 0)"

lemma map_sum_Inr: "map_sum id fst r = Inr v \<Longrightarrow> \<exists>st. r = Inr (v, st)"
  by (cases r) auto

lemma evaluate_demo:
  "map_sum id fst (evaluate demo_env demo_scan 0 (token TOKEN_INVALID 0) None 0x101 None) = Inr (Some [term_of EXPR_SIMPLE 14])"
  by code_simp

theorem evaluate_total_and_typed_witness:
  "\<exists>st. evaluate demo_env demo_scan 0 (token TOKEN_INVALID 0) None 0x101 None = Inr (Some [term_of EXPR_SIMPLE 14], st) \<and>
     vect_ok [term_of EXPR_SIMPLE 14]"
proof -
  have "sane demo_env demo_scan" "good_token (token TOKEN_INVALID 0)" "0 \<le> limit_eval demo_env"
    by (simp_all add: sane_def good_token_def good_segment_def demo_env_def token_def)
  moreover obtain st where
    "evaluate demo_env demo_scan 0 (token TOKEN_INVALID 0) None 0x101 None = Inr (Some [term_of EXPR_SIMPLE 14], st)"
    using map_sum_Inr [OF evaluate_demo] by blast
  ultimately show ?thesis
    using evaluate_total_and_typed [of demo_env demo_scan 0 "token TOKEN_INVALID 0" None "0x101" None] by auto
qed

end
