(* ===== verification/Precedence.thy ===== *)
theory Precedence
  imports Eval
begin

text \<open>
  The evaluator on expressions over numbers: a reference definition of their value and of their
  text with the fewest brackets, and the theorem that the recursive descent of \<open>Eval\<close> computes it.
\<close>

section \<open>Precedence and arithmetic\<close>

text \<open>
  Expressions over numbers, their value in 64-bit arithmetic (\<open>None\<close> where the code reports a
  division by zero or has an undefined shift or quotient), and their text with the fewest brackets.
  \<open>b\<close> is the level inside brackets, 0 with the relational operators and 4 without.
\<close>

datatype ast = Number i64 | Unary token_type ast | Binary token_type ast ast

definition level :: "token_type \<Rightarrow> nat" where
  "level j =
     (if j = TOKEN_DBL_OR then 0 else if j = TOKEN_DBL_XOR then 1 else if j = TOKEN_DBL_AND then 2
      else if is_compare j then 3 else if j = TOKEN_CHAR 0x7C then 4 else if j = TOKEN_CHAR 0x5E then 5
      else if j = TOKEN_CHAR 0x26 then 6 else if is_shift j then 7 else if is_addop j then 8
      else if is_mulop j then 9 else 10)"

definition unary_value :: "token_type \<Rightarrow> i64 \<Rightarrow> i64 option" where
  "unary_value j a =
     (if j = TOKEN_CHAR 0x2D then Some (- a) else if j = TOKEN_CHAR 0x2B then Some a
      else if j = TOKEN_CHAR 0x7E then Some (NOT a) else if j = TOKEN_CHAR 0x21 then Some (of_bool (a = 0))
      else None)"

definition binary_value :: "token_type \<Rightarrow> i64 \<Rightarrow> i64 \<Rightarrow> i64 option" where
  "binary_value j a b =
     (if j = TOKEN_DBL_OR then Some (of_bool (a \<noteq> 0 \<or> b \<noteq> 0))
      else if j = TOKEN_DBL_XOR then Some (of_bool ((a = 0) \<noteq> (b = 0)))
      else if j = TOKEN_DBL_AND then Some (of_bool (a \<noteq> 0 \<and> b \<noteq> 0))
      else if j = TOKEN_EQ then Some (of_bool (a = b)) else if j = TOKEN_NE then Some (of_bool (a \<noteq> b))
      else if j = TOKEN_LT then Some (of_bool (sint (a - b) < 0))
      else if j = TOKEN_GT then Some (of_bool (0 < sint (a - b)))
      else if j = TOKEN_LE then Some (of_bool (sint (a - b) \<le> 0))
      else if j = TOKEN_GE then Some (of_bool (0 \<le> sint (a - b)))
      else if j = TOKEN_CHAR 0x7C then Some (a OR b) else if j = TOKEN_CHAR 0x5E then Some (a XOR b)
      else if j = TOKEN_CHAR 0x26 then Some (a AND b)
      else if is_shift j
      then (if 0 \<le> sint b \<and> sint b < 64
            then Some (if j = TOKEN_SHL then push_bit (unat b) a else drop_bit (unat b) a) else None)
      else if j = TOKEN_CHAR 0x2B then Some (a + b) else if j = TOKEN_CHAR 0x2D then Some (a - b)
      else if j = TOKEN_CHAR 0x2A then Some (a * b)
      else if \<not> is_mulop j \<or> b = 0 then None
      else if j = TOKEN_CHAR 0x2F then Some (a div b) else if j = TOKEN_CHAR 0x25 then Some (a mod b)
      else if sint a = - (2 ^ 63) \<and> b = - 1 then None
      else if j = TOKEN_SDIV then Some (word_of_int (sint a sdiv sint b))
      else Some (word_of_int (sint a smod sint b)))"

fun val :: "ast \<Rightarrow> i64 option" where
  "val (Number n) = Some n"
| "val (Unary j e) = Option.bind (val e) (unary_value j)"
| "val (Binary j d e) = Option.bind (val d) (\<lambda>a. Option.bind (val e) (binary_value j a))"

fun allowed :: "nat \<Rightarrow> ast \<Rightarrow> bool" where
  "allowed b (Number n) = True"
| "allowed b (Unary j e) = allowed b e"
| "allowed b (Binary j d e) = (b \<le> level j \<and> level j < 10 \<and> allowed b d \<and> allowed b e)"

definition plain :: "token_type \<Rightarrow> tokenval" where
  "plain j = \<lparr>t_charptr = [], t_integer = 0, t_inttwo = 0, t_type = j\<rparr>"

fun text_of :: "nat \<Rightarrow> nat \<Rightarrow> ast \<Rightarrow> tokenval list" where
  "text_of b k (Number n) = [(plain TOKEN_NUM)\<lparr>t_integer := n\<rparr>]"
| "text_of b k (Unary j e) = plain j # text_of b 10 e"
| "text_of b k (Binary j d e) =
     (if level j < k then [plain (TOKEN_CHAR 0x28)] else []) @
     text_of b (level j) d @ plain j # text_of b (level j + 1) e @
     (if level j < k then [plain (TOKEN_CHAR 0x29)] else [])"

text \<open>The operands and brackets, which count against the limit.\<close>

fun cost :: "nat \<Rightarrow> ast \<Rightarrow> int" where
  "cost k (Number n) = 1"
| "cost k (Unary j e) = 1 + cost 10 e"
| "cost k (Binary j d e) = (if level j < k then 1 else 0) + cost (level j) d + cost (level j + 1) e"

text \<open>
  The scanner delivers these tokens next, the first being the current one. Of a token only the
  type matters, and the value if it is a number: a scanner leaves the other fields as they were.
\<close>

definition same_token :: "tokenval \<Rightarrow> tokenval \<Rightarrow> bool" where
  "same_token t u \<longleftrightarrow> t_type t = t_type u \<and> (t_type u = TOKEN_NUM \<longrightarrow> t_integer t = t_integer u)"

fun delivers :: "'p scanner \<Rightarrow> 'p \<Rightarrow> tokenval list \<Rightarrow> bool" where
  "delivers sc p [] \<longleftrightarrow> True"
| "delivers sc p (t # ts) \<longleftrightarrow> (\<exists>p'. (\<forall>tv. fst (sc p tv) = p' \<and> same_token (snd (sc p tv)) t) \<and> delivers sc p' ts)"

definition at :: "'p scanner \<Rightarrow> 'p evstate \<Rightarrow> tokenval list \<Rightarrow> bool" where
  "at sc st ts \<longleftrightarrow> (case ts of [] \<Rightarrow> False | t # ts \<Rightarrow> same_token (tokval st) t \<and> delivers sc (scpriv st) ts)"

lemma at_scan: "at sc st (t # u # ts) \<Longrightarrow> at sc (scan sc st) (u # ts)"
  by (auto simp: at_def scan_def case_prod_beta)

lemma at_update [simp]:
  "at sc (st\<lparr>hint := h\<rparr>) ts = at sc st ts" "at sc (st\<lparr>deadman := d\<rparr>) ts = at sc st ts"
  by (simp_all add: at_def split: list.split)

lemma at_tok: "at sc st (t # ts) \<Longrightarrow> same_token (tokval st) t \<and> tok st = t_type t"
  by (simp add: at_def tok_def same_token_def)

text \<open>A vector that is a plain number; zero may also be the empty vector.\<close>

definition sval :: "vect \<Rightarrow> i64 \<Rightarrow> bool" where
  "sval e v \<longleftrightarrow> e = [term_of EXPR_SIMPLE v] \<or> e = [] \<and> v = 0"

lemma term_type: "sint (etype (term_of EXPR_SIMPLE v)) = EXPR_SIMPLE" "evalue (term_of t v) = v" "near (term_of EXPR_SIMPLE v)"
  using term_of_ok [of EXPR_SIMPLE v] by (simp_all add: ty_def) (simp add: term_of_def)

lemma sval_simps:
  assumes "sval e v"
  shows "is_simple e" "is_really_simple e" "\<not> is_just_unknown e" "\<not> is_unknown e" "reloc_value e = v"
proof -
  have t: "sint (etype (term_of EXPR_SIMPLE v)) = 242" using term_type(1) [of v] by simp
  consider "e = [term_of EXPR_SIMPLE v]" | "e = []" "v = 0" using assms by (auto simp: sval_def)
  then have "is_simple e \<and> is_really_simple e \<and> \<not> is_just_unknown e \<and> \<not> is_unknown e \<and> reloc_value e = v"
    using term_type(3) [of v]
    by cases (auto simp: t term_type(2) near_def is_simple_def is_really_simple_def is_just_unknown_def
      is_unknown_def reloc_value_def skip_zero_def)
  then show "is_simple e" "is_really_simple e" "\<not> is_just_unknown e" "\<not> is_unknown e" "reloc_value e = v"
    by auto
qed

lemma sval_scalarvect [simp]: "sval (scalarvect v) v"
  by (simp add: sval_def scalarvect_def finishtemp_vect_ok single_ok)

section \<open>The levels as one\<close>

definition lv_op :: "nat \<Rightarrow> 'p operation" where
  "lv_op k =
     ([rexp0_op, rexp1_op, rexp2_op, rexp3_op, expr0_op, expr1_op, expr2_op, expr3_op, expr4_op, expr5_op] ! k)"

definition lv :: "nat \<Rightarrow> nat \<Rightarrow> 'p scanner \<Rightarrow> 'p parser \<Rightarrow> 'p parser" where
  "lv k n sc p =
     ([rexp0 n sc p, rexp1 n sc p, rexp2 n sc p, rexp3 n sc p, expr0 n sc p, expr1 n sc p, expr2 n sc p,
       expr3 n sc p, expr4 n sc p, expr5 n sc p, p] ! k)"

lemma level_iff:
  "level j = 0 \<longleftrightarrow> j = TOKEN_DBL_OR" "level j = 1 \<longleftrightarrow> j = TOKEN_DBL_XOR" "level j = 2 \<longleftrightarrow> j = TOKEN_DBL_AND"
  "level j = 3 \<longleftrightarrow> is_compare j" "level j = 4 \<longleftrightarrow> j = TOKEN_CHAR 0x7C" "level j = 5 \<longleftrightarrow> j = TOKEN_CHAR 0x5E"
  "level j = 6 \<longleftrightarrow> j = TOKEN_CHAR 0x26" "level j = 7 \<longleftrightarrow> is_shift j" "level j = 8 \<longleftrightarrow> is_addop j" "level j = 9 \<longleftrightarrow> is_mulop j"
  by (auto simp: level_def is_compare_def is_shift_def is_addop_def is_mulop_def)

lemma less_10: "k < (10 :: nat) \<longleftrightarrow> k = 0 \<or> k = 1 \<or> k = 2 \<or> k = 3 \<or> k = 4 \<or> k = 5 \<or> k = 6 \<or> k = 7 \<or> k = 8 \<or> k = 9"
  by auto

lemma lv_levels:
  "lv 0 n sc p = rexp0 n sc p" "lv 1 n sc p = rexp1 n sc p" "lv 2 n sc p = rexp2 n sc p" "lv 3 n sc p = rexp3 n sc p"
  "lv 4 n sc p = expr0 n sc p" "lv 5 n sc p = expr1 n sc p" "lv 6 n sc p = expr2 n sc p" "lv 7 n sc p = expr3 n sc p"
  "lv 8 n sc p = expr4 n sc p" "lv 9 n sc p = expr5 n sc p" "lv 10 n sc p = p"
  by (simp_all add: lv_def)

lemma lv_ops:
  "lv_op 0 = rexp0_op" "lv_op 1 = rexp1_op" "lv_op 2 = rexp2_op" "lv_op 3 = rexp3_op" "lv_op 4 = expr0_op"
  "lv_op 5 = expr1_op" "lv_op 6 = expr2_op" "lv_op 7 = expr3_op" "lv_op 8 = expr4_op" "lv_op 9 = expr5_op"
  by (simp_all add: lv_op_def)

lemma lv_unfold:
  assumes "k < 10"
  shows "lv k n sc p st =
    and_vect (lv (k + 1) n sc p st) (binary n sc (\<lambda>j. level j = k) (lv (k + 1) n sc p) (lv_op k))"
proof -
  have a: "0 + 1 = (1 :: nat)" "1 + 1 = (2 :: nat)" "2 + 1 = (3 :: nat)" "3 + 1 = (4 :: nat)" "4 + 1 = (5 :: nat)"
    "5 + 1 = (6 :: nat)" "6 + 1 = (7 :: nat)" "7 + 1 = (8 :: nat)" "8 + 1 = (9 :: nat)" "9 + 1 = (10 :: nat)" by simp_all
  from assms have "k = 0 \<or> k = 1 \<or> k = 2 \<or> k = 3 \<or> k = 4 \<or> k = 5 \<or> k = 6 \<or> k = 7 \<or> k = 8 \<or> k = 9"
    by (simp only: less_10)
  then show ?thesis
    by (elim disjE) (simp_all only: a level_iff lv_levels lv_ops rexp0_def rexp1_def rexp2_def rexp3_def
      expr0_def expr1_def expr2_def expr3_def expr4_def expr5_def)
qed

lemma bexpr_lv: "bexpr relational n sc p = lv (if relational then 0 else 4) n sc p"
  by (simp add: bexpr_def lv_levels)

lemma sval_add:
  assumes "sval e a" and "sval f b"
  shows "sval (fst (add_vectors e f h)) (a + b)"
proof -
  have f: "finishtemp [term_of EXPR_SIMPLE v] = [term_of EXPR_SIMPLE v]" "finishtemp [] = []" for v
    by (simp_all add: finishtemp_vect_ok single_ok)
  have r: "add_rest p [term_of EXPR_SIMPLE v] = [term_of EXPR_SIMPLE v]" "add_rest p [] = []" for p v
    by (simp_all add: add_rest_def term_type)
  have t: "\<lparr>etype = etype (term_of t v), evalue = w\<rparr> = term_of t w" for t v w by (simp add: term_of_def)
  consider "e = []" "a = 0" | "f = []" "b = 0" | "e = [term_of EXPR_SIMPLE a]" "f = [term_of EXPR_SIMPLE b]"
    using assms by (auto simp: sval_def)
  then show ?thesis
  proof cases
    case 1
    then show ?thesis using assms(2) by (auto simp: sval_def add_vectors_def r f)
  next
    case 2
    then show ?thesis using assms(1) by (auto simp: sval_def add_vectors_def r f)
  next
    case 3
    then show ?thesis by (simp add: sval_def add_vectors_def term_type t r f Let_def)
  qed
qed

lemma sval_mult: "sval e a \<Longrightarrow> sval (fst (scalar_mult e c u h)) (c * a)"
proof -
  have "term_of EXPR_SIMPLE a\<lparr>evalue := c * a\<rparr> = term_of EXPR_SIMPLE (c * a)" by (simp add: term_of_def)
  then show "sval e a \<Longrightarrow> ?thesis" by (auto simp: sval_def term_type split: prod.split)
qed

lemma add_value:
  "sval e a \<Longrightarrow> sval f b \<Longrightarrow> \<exists>g h. add e f st = Inr (Some g, st\<lparr>hint := h\<rparr>) \<and> sval g (a + b)"
  using sval_add [of e a f b "hint st"] by (auto simp: add_def split: prod.split)

lemma mult_value:
  "sval e a \<Longrightarrow> \<exists>g h. mult e c u st = Inr (Some g, st\<lparr>hint := h\<rparr>) \<and> sval g (c * a)"
  using sval_mult [of e a c u "hint st"] by (auto simp: mult_def split: prod.split)

lemma sub_value:
  assumes "sval e a" and "sval f b"
  shows "\<exists>g h. sub e f st = Inr (Some g, st\<lparr>hint := h\<rparr>) \<and> sval g (a - b)"
proof -
  from mult_value [OF assms(2), of "- 1" False st] obtain g h where
    g: "mult f (- 1) False st = Inr (Some g, st\<lparr>hint := h\<rparr>)" "sval g (- 1 * b)" by blast
  from add_value [OF assms(1) g(2), of "st\<lparr>hint := h\<rparr>"] g(1) show ?thesis by (auto simp: sub_def and_vect_def)
qed

lemma ret_value: "\<exists>g h. ret (scalarvect w) st = Inr (Some g, st\<lparr>hint := h\<rparr>) \<and> sval g w"
  by (intro exI [of _ "scalarvect w"] exI [of _ "hint st"]) (simp add: ret_def)

lemma combine_value:
  "sval e a \<Longrightarrow> sval f b \<Longrightarrow> \<exists>g h. ret (combine c e f) (check_scalars msg e f st) = Inr (Some g, st\<lparr>hint := h\<rparr>) \<and> sval g (c a b)"
  using sval_simps [of e a] sval_simps [of f b] ret_value [of "c a b" st]
  by (simp add: combine_def check_scalars_def scalars_def)

lemma compare_value:
  assumes "sval e a" and "sval f b" and "is_compare j" and "binary_value j a b = Some w"
  shows "\<exists>g h. rexp3_op j e f st = Inr (Some g, st\<lparr>hint := h\<rparr>) \<and> sval g w"
proof -
  from sub_value [OF assms(1,2), of st] obtain d h where
    d: "sub e f st = Inr (Some d, st\<lparr>hint := h\<rparr>)" "sval d (a - b)" by blast
  note v = sval_simps [OF d(2)]
  have z: "sint (a - b) = 0 \<longleftrightarrow> a = b" by (metis eq_iff_diff_eq_0 signed_eq_0_iff)
  have "compare j d (st\<lparr>hint := h\<rparr>) = (Some (w \<noteq> 0), st\<lparr>hint := h\<rparr>) \<and> w = of_bool (w \<noteq> 0)"
    using assms(3,4) v z unfolding compare_def binary_value_def is_compare_def
    by (elim disjE) (auto simp: of_bool_def split: if_splits)
  then show ?thesis using d(1) ret_value [of w "st\<lparr>hint := h\<rparr>"]
    by (auto simp: rexp3_op_def and_vect_def)
qed

lemma shift_value:
  assumes "sval e a" and "sval f b" and "is_shift j" and "binary_value j a b = Some w"
  shows "expr3_op j e f st = ret (scalarvect w) st"
  using sval_simps [OF assms(1)] sval_simps [OF assms(2)] assms(3,4)
  by (auto simp: expr3_op_def scalars_def binary_value_def is_shift_def is_compare_def Let_def split: if_splits)

lemma mul_value:
  assumes "sval e a" and "sval f b" and "is_mulop j" and "binary_value j a b = Some w"
  shows "\<exists>g h. expr5_op j e f st = Inr (Some g, st\<lparr>hint := h\<rparr>) \<and> sval g w"
proof (cases "j = TOKEN_CHAR 0x2A")
  case True
  then have "w = a * b" using assms(4) by (simp add: binary_value_def is_shift_def)
  then show ?thesis using True sval_simps [OF assms(1)] mult_value [OF assms(2), of a True st]
    by (simp add: expr5_op_def)
next
  case False
  then have "b \<noteq> 0" using assms(3,4) by (auto simp: binary_value_def is_mulop_def is_shift_def split: if_splits)
  then have "expr5_op j e f st = ret (scalarvect w) st"
    using False sval_simps [OF assms(1)] sval_simps [OF assms(2)] assms(3,4)
    by (auto simp: expr5_op_def scalars_def binary_value_def is_mulop_def is_shift_def split: if_splits)
  then show ?thesis using ret_value [of w st] by simp
qed

lemma binary_values:
  assumes "binary_value j a b = Some w"
  shows "j = TOKEN_DBL_OR \<Longrightarrow> w = of_bool (a \<noteq> 0 \<or> b \<noteq> 0)" "j = TOKEN_DBL_XOR \<Longrightarrow> w = of_bool ((a = 0) \<noteq> (b = 0))"
    "j = TOKEN_DBL_AND \<Longrightarrow> w = of_bool (a \<noteq> 0 \<and> b \<noteq> 0)" "j = TOKEN_CHAR 0x7C \<Longrightarrow> w = a OR b"
    "j = TOKEN_CHAR 0x5E \<Longrightarrow> w = a XOR b" "j = TOKEN_CHAR 0x26 \<Longrightarrow> w = a AND b"
    "j = TOKEN_CHAR 0x2B \<Longrightarrow> w = a + b" "j = TOKEN_CHAR 0x2D \<Longrightarrow> w = a - b"
  using assms by (simp_all add: binary_value_def is_shift_def)

lemma oper_value:
  assumes "level j < 10" and "sval e a" and "sval f b" and "binary_value j a b = Some w"
  shows "\<exists>g h. lv_op (level j) j e f st = Inr (Some g, st\<lparr>hint := h\<rparr>) \<and> sval g w"
proof -
  note c = combine_value [OF assms(2,3), of _ _ st]
  note b = binary_values [OF assms(4)]
  from assms(1) have "level j = 0 \<or> level j = 1 \<or> level j = 2 \<or> level j = 3 \<or> level j = 4 \<or> level j = 5 \<or>
    level j = 6 \<or> level j = 7 \<or> level j = 8 \<or> level j = 9" by (simp only: less_10)
  then show ?thesis
  proof (elim disjE)
    assume l: "level j = 8"
    then have "j = TOKEN_CHAR 0x2B \<or> j = TOKEN_CHAR 0x2D" by (simp only: level_iff is_addop_def)
    then show ?thesis
    proof
      assume "j = TOKEN_CHAR 0x2B"
      then show ?thesis unfolding l lv_ops expr4_op_def b(7) [OF \<open>j = _\<close>] using add_value [OF assms(2,3), of st] by simp
    next
      assume "j = TOKEN_CHAR 0x2D"
      then show ?thesis unfolding l lv_ops expr4_op_def b(8) [OF \<open>j = _\<close>] using sub_value [OF assms(2,3), of st] by simp
    qed
  next
    assume l: "level j = 3"
    show ?thesis unfolding l lv_ops using l compare_value [OF assms(2,3) _ assms(4), of st] by (simp add: level_iff)
  next
    assume l: "level j = 7"
    show ?thesis unfolding l lv_ops using l shift_value [OF assms(2,3) _ assms(4), of st] ret_value [of w st]
      by (simp add: level_iff)
  next
    assume l: "level j = 9"
    show ?thesis unfolding l lv_ops using l mul_value [OF assms(2,3) _ assms(4), of st] by (simp add: level_iff)
  next
    assume l: "level j = 0"
    have "j = TOKEN_DBL_OR" using l by (simp only: level_iff)
    then show ?thesis unfolding l lv_ops rexp0_op_def by (simp only: b(1)) (rule c)
  next
    assume l: "level j = 1"
    have "j = TOKEN_DBL_XOR" using l by (simp only: level_iff)
    then show ?thesis unfolding l lv_ops rexp1_op_def by (simp only: b(2)) (rule c)
  next
    assume l: "level j = 2"
    have "j = TOKEN_DBL_AND" using l by (simp only: level_iff)
    then show ?thesis unfolding l lv_ops rexp2_op_def by (simp only: b(3)) (rule c)
  next
    assume l: "level j = 4"
    have "j = TOKEN_CHAR 0x7C" using l by (simp only: level_iff)
    then show ?thesis unfolding l lv_ops expr0_op_def by (simp only: b(4)) (rule c)
  next
    assume l: "level j = 5"
    have "j = TOKEN_CHAR 0x5E" using l by (simp only: level_iff)
    then show ?thesis unfolding l lv_ops expr1_op_def by (simp only: b(5)) (rule c)
  next
    assume l: "level j = 6"
    have "j = TOKEN_CHAR 0x26" using l by (simp only: level_iff)
    then show ?thesis unfolding l lv_ops expr2_op_def by (simp only: b(6)) (rule c)
  qed
qed

lemma cost_pos: "1 \<le> cost k e"
proof (induction e arbitrary: k)
  case (Binary j d e)
  from Binary.IH(1) [of "level j"] Binary.IH(2) [of "level j + 1"] show ?case by simp
next
  case (Unary j e)
  from Unary.IH [of 10] show ?case by simp
qed simp

section \<open>Reading an expression\<close>

text \<open>No operator of level \<open>k\<close> or tighter.\<close>

definition stops :: "nat \<Rightarrow> tokenval list \<Rightarrow> bool" where
  "stops k ts \<longleftrightarrow> ts \<noteq> [] \<and> \<not> (k \<le> level (t_type (hd ts)) \<and> level (t_type (hd ts)) < 10)"

lemma stops_Cons [simp]: "stops k (t # ts) \<longleftrightarrow> \<not> (k \<le> level (t_type t) \<and> level (t_type t) < 10)"
  by (simp add: stops_def)

lemma stops_mono: "stops k ts \<Longrightarrow> k \<le> k' \<Longrightarrow> stops k' ts"
  by (auto simp: stops_def)

text \<open>The state after a parser has read some operands and is at the tokens that follow them.\<close>

definition went :: "'p scanner \<Rightarrow> 'p evstate \<Rightarrow> int \<Rightarrow> tokenval list \<Rightarrow> 'p evstate \<Rightarrow> bool" where
  "went sc st c rest st' \<longleftrightarrow> at sc st' rest \<and> deadman st' = deadman st + c \<and> messages st' = messages st"

lemma messages_scan [simp]: "messages (scan sc st) = messages st"
  by (simp add: scan_def split: prod.split)

text \<open>
  The levels over \<open>expr6\<close>. A level that has read an expression of its own goes on with the loop
  for its operators.
\<close>

definition levels :: "environment \<Rightarrow> 'p scanner \<Rightarrow> bool \<Rightarrow> int \<Rightarrow> nat \<Rightarrow> nat \<Rightarrow> 'p parser" where
  "levels env sc relational critical k n = lv k n sc (expr6 env sc relational critical n)"

definition goes_on :: "environment \<Rightarrow> 'p scanner \<Rightarrow> bool \<Rightarrow> int \<Rightarrow> nat \<Rightarrow> nat \<Rightarrow> nat \<Rightarrow> vect \<Rightarrow> 'p parser" where
  "goes_on env sc relational critical k n m g =
     (if k < 10 then binary m sc (\<lambda>j. level j = k) (levels env sc relational critical (k + 1) n) (lv_op k) g else ret g)"

definition enough :: "environment \<Rightarrow> nat \<Rightarrow> 'p evstate \<Rightarrow> bool" where
  "enough env n st \<longleftrightarrow> limit_eval env + 2 \<le> int n + deadman st"

definition reads :: "environment \<Rightarrow> 'p scanner \<Rightarrow> bool \<Rightarrow> int \<Rightarrow> nat \<Rightarrow> tokenval list \<Rightarrow> int \<Rightarrow> i64 \<Rightarrow> bool" where
  "reads env sc relational critical k ts c v \<longleftrightarrow>
     (\<forall>n st rest. enough env n st \<longrightarrow> deadman st + c \<le> limit_eval env \<longrightarrow> at sc st (ts @ rest) \<longrightarrow> stops (k + 1) rest \<longrightarrow>
       (\<exists>m g st'. levels env sc relational critical k n st = goes_on env sc relational critical k n m g st' \<and>
          sval g v \<and> went sc st c rest st' \<and> enough env m st'))"

lemma goes_on_stops:
  assumes "stops k rest" and "at sc st rest" and "enough env m st" and "deadman st \<le> limit_eval env"
  shows "goes_on env sc relational critical k n m g st = Inr (Some g, st)"
proof (cases "k < 10")
  case True
  obtain t ts where t: "rest = t # ts" using assms(1) by (cases rest) (auto simp: stops_def)
  then have "level (tok st) \<noteq> k" using assms(1,2) True at_tok [of sc st t ts] by auto
  moreover obtain m' where "m = Suc m'" using assms(3,4) by (cases m) (auto simp: enough_def)
  ultimately show ?thesis using True by (simp add: goes_on_def)
qed (simp add: goes_on_def ret_def)

text \<open>An expression that is read on a level is read on the looser levels.\<close>

lemma reads_looser:
  assumes r: "reads env sc relational critical (k + 1) ts c v" and k: "k < 10" and c: "0 \<le> c"
  shows "reads env sc relational critical k ts c v"
  unfolding reads_def
proof (intro allI impI)
  fix n :: nat and st :: "'a evstate" and rest
  assume e: "enough env n st" and d: "deadman st + c \<le> limit_eval env" and a: "at sc st (ts @ rest)" and s: "stops (k + 1) rest"
  from r [unfolded reads_def, rule_format, OF e d a stops_mono [OF s]] obtain m g st' where
    g: "levels env sc relational critical (k + 1) n st = goes_on env sc relational critical (k + 1) n m g st'"
    and v: "sval g v" and w: "went sc st c rest st'" and m: "enough env m st'" by auto
  have "goes_on env sc relational critical (k + 1) n m g st' = Inr (Some g, st')"
    using s w m d by (intro goes_on_stops) (auto simp: went_def)
  then have "levels env sc relational critical k n st = goes_on env sc relational critical k n n g st'"
    using g k by (simp add: levels_def goes_on_def lv_unfold and_vect_def)
  moreover have "enough env n st'" using e w c by (simp add: enough_def went_def)
  ultimately show "\<exists>m g st'. levels env sc relational critical k n st = goes_on env sc relational critical k n m g st' \<and>
          sval g v \<and> went sc st c rest st' \<and> enough env m st'" using v w by blast
qed

lemma reads_levels:
  assumes "reads env sc relational critical k' ts c v" and "k \<le> k'" and "k' \<le> 10" and "0 \<le> c"
  shows "reads env sc relational critical k ts c v"
  using assms(2,1,3,4) by (induction rule: inc_induct) (auto intro: reads_looser)

lemma reads_operand:
  assumes "\<And>n st rest. deadman st + c \<le> limit_eval env \<Longrightarrow> enough env n (st\<lparr>deadman := deadman st + 1\<rparr>) \<Longrightarrow>
      at sc st (ts @ rest) \<Longrightarrow> rest \<noteq> [] \<Longrightarrow>
      \<exists>g st'. expr6 env sc relational critical (Suc n) st = Inr (Some g, st') \<and> sval g v \<and> went sc st c rest st'"
    and "1 \<le> c"
  shows "reads env sc relational critical 10 ts c v"
  unfolding reads_def
proof (intro allI impI)
  fix n :: nat and st :: "'a evstate" and rest
  assume e: "enough env n st" and d: "deadman st + c \<le> limit_eval env" and a: "at sc st (ts @ rest)" and s: "stops (10 + 1) rest"
  obtain n' where n: "n = Suc n'" using e d assms(2) by (cases n) (auto simp: enough_def)
  have "enough env n' (st\<lparr>deadman := deadman st + 1\<rparr>)" using e by (simp add: enough_def n)
  from assms(1) [OF d this a] s obtain g st' where
    g: "expr6 env sc relational critical n st = Inr (Some g, st')" "sval g v" "went sc st c rest st'"
    by (auto simp: n stops_def)
  have "levels env sc relational critical 10 n st = goes_on env sc relational critical 10 n n g st'"
    using g(1) by (simp add: levels_def goes_on_def ret_def lv_levels)
  moreover have "enough env n st'" using e g(3) assms(2) by (simp add: enough_def went_def)
  ultimately show "\<exists>m g st'. levels env sc relational critical 10 n st = goes_on env sc relational critical 10 n m g st' \<and>
          sval g v \<and> went sc st c rest st' \<and> enough env m st'" using g(2,3) by blast
qed

lemma reads_10:
  assumes r: "reads env sc relational critical 10 ts c v" and "enough env n st" and "deadman st + c \<le> limit_eval env"
    and "at sc st (ts @ rest)" and "rest \<noteq> []"
  shows "\<exists>g st'. expr6 env sc relational critical n st = Inr (Some g, st') \<and> sval g v \<and> went sc st c rest st'"
proof -
  have "stops (10 + 1) rest" using assms(5) by (auto simp: stops_def)
  from r [unfolded reads_def, rule_format, OF assms(2-4) this] show ?thesis
    by (auto simp: levels_def goes_on_def ret_def lv_levels)
qed

lemma reads_stops:
  assumes r: "reads env sc relational critical k ts c v" and e: "enough env n st" and d: "deadman st + c \<le> limit_eval env"
    and a: "at sc st (ts @ rest)" and s: "stops k rest"
  shows "\<exists>g st'. levels env sc relational critical k n st = Inr (Some g, st') \<and> sval g v \<and> went sc st c rest st'"
proof -
  from r [unfolded reads_def, rule_format, OF e d a stops_mono [OF s]] obtain m g st' where
    g: "levels env sc relational critical k n st = goes_on env sc relational critical k n m g st'"
    "sval g v" "went sc st c rest st'" "enough env m st'" by auto
  moreover have "goes_on env sc relational critical k n m g st' = Inr (Some g, st')"
    using s g(3,4) d by (intro goes_on_stops) (auto simp: went_def)
  ultimately show ?thesis by auto
qed

lemma went_scan:
  assumes "went sc (scan sc (st\<lparr>deadman := deadman st + 1\<rparr>)) c rest st'"
  shows "went sc st (1 + c) rest st'"
  using assms by (simp add: went_def)

lemma went_hint [simp]: "went sc st c rest (st'\<lparr>hint := h\<rparr>) = went sc st c rest st'"
  by (simp add: went_def)

lemma reads_number: "reads env sc relational critical 10 [(plain TOKEN_NUM)\<lparr>t_integer := v\<rparr>] 1 v"
proof (rule reads_operand)
  fix n :: nat and st :: "'a evstate" and rest
  assume d: "deadman st + 1 \<le> limit_eval env" and a: "at sc st ([(plain TOKEN_NUM)\<lparr>t_integer := v\<rparr>] @ rest)" and ne: "rest \<noteq> []"
  let ?st = "scan sc (st\<lparr>deadman := deadman st + 1\<rparr>)"
  from a have t: "t_integer (tokval st) = v" "tok st = TOKEN_NUM"
    by (auto dest!: at_tok simp: plain_def same_token_def)
  have "expr6 env sc relational critical (Suc n) st = Inr (Some [term_of EXPR_SIMPLE v], ?st)"
    using d t by (simp add: Let_def tok_def is_operand_def eval_operand_def and_vect_def ret_def
      finishtemp_vect_ok single_ok)
  moreover have "sval [term_of EXPR_SIMPLE v] v" by (simp add: sval_def)
  moreover have "went sc st 1 rest ?st"
    using a ne by (cases rest) (auto simp: went_def intro!: at_scan)
  ultimately show "\<exists>g st'. expr6 env sc relational critical (Suc n) st = Inr (Some g, st') \<and> sval g v \<and> went sc st 1 rest st'"
    by blast
qed simp

lemma unary_sval:
  assumes "sval e a" and "unary_value j a = Some w" and "r = Inr (Some e, st)"
  shows "j = TOKEN_CHAR 0x2D \<Longrightarrow> \<exists>g h. and_vect r (\<lambda>e. mult e (- 1) False) = Inr (Some g, st\<lparr>hint := h\<rparr>) \<and> sval g w"
    and "j = TOKEN_CHAR 0x7E \<Longrightarrow> \<exists>g h. and_vect r (unary msg (\<lambda>v st. Inr (NOT v, st))) = Inr (Some g, st\<lparr>hint := h\<rparr>) \<and> sval g w"
    and "j = TOKEN_CHAR 0x21 \<Longrightarrow> \<exists>g h. and_vect r (unary msg (\<lambda>v st. Inr (of_bool (v = 0), st))) = Inr (Some g, st\<lparr>hint := h\<rparr>) \<and> sval g w"
  using assms(2,3) mult_value [OF assms(1), of "- 1" False st] sval_simps [OF assms(1)] ret_value [of _ st]
  by (simp_all add: unary_value_def and_vect_def unary_def)

lemma reads_unary:
  assumes r: "reads env sc relational critical 10 ts c a" and w: "unary_value j a = Some w" and c: "0 \<le> c" and ne: "ts \<noteq> []"
  shows "reads env sc relational critical 10 (plain j # ts) (1 + c) w"
proof (rule reads_operand)
  fix n :: nat and st :: "'a evstate" and rest
  assume d: "deadman st + (1 + c) \<le> limit_eval env" and e: "enough env n (st\<lparr>deadman := deadman st + 1\<rparr>)"
    and a: "at sc st ((plain j # ts) @ rest)" and "rest \<noteq> []"
  let ?st = "scan sc (st\<lparr>deadman := deadman st + 1\<rparr>)" and ?rec = "expr6 env sc relational critical n"
  have j: "tok st = j" using a by (auto dest!: at_tok simp: plain_def)
  have "at sc ?st (ts @ rest)" using a ne by (cases ts) (auto intro!: at_scan)
  moreover have "deadman ?st + c \<le> limit_eval env" "enough env n ?st" using d e by (simp_all add: enough_def)
  ultimately obtain g st' where g: "?rec ?st = Inr (Some g, st')" "sval g a" "went sc ?st c rest st'"
    using reads_10 [OF r, of n ?st rest] \<open>rest \<noteq> []\<close> by blast
  have "\<exists>f h. expr6 env sc relational critical (Suc n) st = Inr (Some f, st'\<lparr>hint := h\<rparr>) \<and> sval f w"
  proof -
    have l: "\<not> deadman st + 1 > limit_eval env" using d c by simp
    have t: "tok (st\<lparr>deadman := deadman st + 1\<rparr>) = j" using j by (simp add: tok_def)
    consider "j = TOKEN_CHAR 0x2D" | "j = TOKEN_CHAR 0x2B" | "j = TOKEN_CHAR 0x7E" | "j = TOKEN_CHAR 0x21"
      using w by (auto simp: unary_value_def split: if_splits)
    then show ?thesis
    proof cases
      case 2
      then have "w = a" using w by (simp add: unary_value_def)
      then have "expr6 env sc relational critical (Suc n) st = Inr (Some g, st'\<lparr>hint := hint st'\<rparr>) \<and> sval g w"
        using g 2 l t by (simp add: Let_def)
      then show ?thesis by blast
    qed (use unary_sval [OF g(2) w g(1)] l t in \<open>simp_all add: Let_def\<close>)
  qed
  then obtain f h where "expr6 env sc relational critical (Suc n) st = Inr (Some f, st'\<lparr>hint := h\<rparr>)" "sval f w" by blast
  moreover have "went sc st (1 + c) rest (st'\<lparr>hint := h\<rparr>)" using went_scan [OF g(3)] by simp
  ultimately show "\<exists>g st'. expr6 env sc relational critical (Suc n) st = Inr (Some g, st') \<and> sval g w \<and> went sc st (1 + c) rest st'"
    by blast
qed (use c in simp)

lemma reads_binary:
  assumes x: "reads env sc relational critical (level j) ts c a" and y: "reads env sc relational critical (level j + 1) us d b"
    and j: "level j < 10" and w: "binary_value j a b = Some w" and cd: "1 \<le> c" "1 \<le> d" and ne: "us \<noteq> []"
  shows "reads env sc relational critical (level j) (ts @ plain j # us) (c + d) w"
  unfolding reads_def
proof (intro allI impI)
  fix n :: nat and st :: "'a evstate" and rest
  assume e: "enough env n st" and l: "deadman st + (c + d) \<le> limit_eval env"
    and at: "at sc st ((ts @ plain j # us) @ rest)" and s: "stops (level j + 1) rest"
  let ?L = "levels env sc relational critical" and ?G = "goes_on env sc relational critical"
  have "deadman st + c \<le> limit_eval env" "at sc st (ts @ plain j # us @ rest)" "stops (level j + 1) (plain j # us @ rest)"
    using l cd at by (simp_all add: plain_def)
  from x [unfolded reads_def, rule_format, OF e this] obtain m e1 st1 where
    1: "?L (level j) n st = ?G (level j) n m e1 st1" "sval e1 a" "went sc st c (plain j # us @ rest) st1" "enough env m st1" by blast
  obtain m' where m: "m = Suc m'" using 1(3,4) l cd by (cases m) (auto simp: enough_def went_def)
  have t: "tok st1 = j" using 1(3) by (auto simp: went_def plain_def dest!: at_tok)
  have "at sc (scan sc st1) (us @ rest)" using 1(3) ne by (cases us) (auto simp: went_def intro!: at_scan)
  moreover have "enough env n (scan sc st1)" "deadman (scan sc st1) + d \<le> limit_eval env"
    using e 1(3) l cd by (simp_all add: enough_def went_def)
  ultimately obtain e2 st2 where 2: "?L (level j + 1) n (scan sc st1) = Inr (Some e2, st2)" "sval e2 b" "went sc (scan sc st1) d rest st2"
    using reads_stops [OF y, of n "scan sc st1" rest] s by blast
  from oper_value [OF j 1(2) 2(2) w, of st2] obtain g h where
    g: "lv_op (level j) j e1 e2 st2 = Inr (Some g, st2\<lparr>hint := h\<rparr>)" "sval g w" by blast
  have "?L (level j) n st = ?G (level j) n m' g (st2\<lparr>hint := h\<rparr>)"
    using j t 1(1) 2(1) g(1) by (simp add: goes_on_def m and_vect_def)
  moreover have "went sc st (c + d) rest (st2\<lparr>hint := h\<rparr>)" using 1(3) 2(3) by (simp add: went_def)
  moreover have "enough env m' (st2\<lparr>hint := h\<rparr>)" using 1(4) 2(3) cd by (simp add: enough_def m went_def)
  ultimately show "\<exists>m g st'. ?L (level j) n st = ?G (level j) n m g st' \<and> sval g w \<and> went sc st (c + d) rest st' \<and> enough env m st'"
    using g(2) by blast
qed

lemma reads_brackets:
  assumes r: "reads env sc relational critical (if relational then 0 else 4) ts c v" and c: "0 \<le> c" and ne: "ts \<noteq> []"
  shows "reads env sc relational critical 10 (plain (TOKEN_CHAR 0x28) # ts @ [plain (TOKEN_CHAR 0x29)]) (1 + c) v"
proof (rule reads_operand)
  fix n :: nat and st :: "'a evstate" and rest
  assume d: "deadman st + (1 + c) \<le> limit_eval env" and e: "enough env n (st\<lparr>deadman := deadman st + 1\<rparr>)"
    and a: "at sc st ((plain (TOKEN_CHAR 0x28) # ts @ [plain (TOKEN_CHAR 0x29)]) @ rest)" and rest: "rest \<noteq> []"
  let ?st = "scan sc (st\<lparr>deadman := deadman st + 1\<rparr>)" and ?rec = "expr6 env sc relational critical n"
  let ?close = "plain (TOKEN_CHAR 0x29)"
  have j: "tok (st\<lparr>deadman := deadman st + 1\<rparr>) = TOKEN_CHAR 0x28" using a by (auto dest!: at_tok simp: plain_def tok_def)
  have "at sc ?st (ts @ ?close # rest)" using a ne by (cases ts) (auto intro!: at_scan)
  moreover have "deadman ?st + c \<le> limit_eval env" "enough env n ?st" using d e by (simp_all add: enough_def)
  moreover have "stops k (?close # rest)" for k
    by (simp add: plain_def level_def is_compare_def is_shift_def is_addop_def is_mulop_def)
  ultimately obtain g st' where g: "bexpr relational n sc ?rec ?st = Inr (Some g, st')" "sval g v" "went sc ?st c (?close # rest) st'"
    using reads_stops [OF r, of n ?st "?close # rest"] by (auto simp: bexpr_lv levels_def)
  have "tok st' = TOKEN_CHAR 0x29" using g(3) by (auto simp: went_def plain_def dest!: at_tok)
  then have "expr6 env sc relational critical (Suc n) st = Inr (Some g, scan sc st')"
    using g(1) j d c by (simp add: Let_def and_vect_def ret_def)
  moreover have "at sc (scan sc st') rest" using g(3) rest by (cases rest) (auto simp: went_def intro!: at_scan)
  then have "went sc st (1 + c) rest (scan sc st')" using went_scan [OF g(3)] by (simp add: went_def)
  ultimately show "\<exists>g st'. expr6 env sc relational critical (Suc n) st = Inr (Some g, st') \<and> sval g v \<and> went sc st (1 + c) rest st'"
    using g(2) by blast
qed (use c in simp)

lemma text_nonempty: "text_of b k e \<noteq> []"
  by (cases e) auto

lemma reads_text:
  assumes "allowed (if relational then 0 else 4) e" and "val e = Some v" and "k \<le> 10"
  shows "reads env sc relational critical k (text_of (if relational then 0 else 4) k e) (cost k e) v"
  using assms
proof (induction e arbitrary: v k)
  case (Number n)
  then show ?case using reads_levels [OF reads_number, of k] by simp
next
  case (Unary j e)
  from Unary.prems(2) obtain a where a: "val e = Some a" "unary_value j a = Some v" by (auto simp: bind_eq_Some_conv)
  have "reads env sc relational critical 10 (plain j # text_of (if relational then 0 else 4) 10 e) (1 + cost 10 e) v"
    using Unary.IH [OF _ a(1), of 10] Unary.prems(1) a(2) cost_pos [of 10 e] text_nonempty by (intro reads_unary) auto
  then show ?case using reads_levels [of env sc relational critical 10 _ _ v k] Unary.prems(3) cost_pos [of 10 e] by simp
next
  case (Binary j d e)
  let ?b = "if relational then 0 else 4 :: nat"
  from Binary.prems(2) obtain a b where v: "val d = Some a" "val e = Some b" "binary_value j a b = Some v"
    by (auto simp: bind_eq_Some_conv)
  from Binary.prems(1) have l: "?b \<le> level j" "level j < 10" "allowed ?b d" "allowed ?b e" by simp_all
  note p = cost_pos [of "level j" d] cost_pos [of "level j + 1" e]
  let ?ts = "text_of ?b (level j) d @ plain j # text_of ?b (level j + 1) e" and ?c = "cost (level j) d + cost (level j + 1) e"
  have r: "reads env sc relational critical (level j) ?ts ?c v"
    using Binary.IH(1) [OF l(3) v(1), of "level j"] Binary.IH(2) [OF l(4) v(2), of "level j + 1"] l(2) p text_nonempty
    by (intro reads_binary [OF _ _ l(2) v(3)]) auto
  show ?case
  proof (cases "level j < k")
    case True
    have "reads env sc relational critical 10 (plain (TOKEN_CHAR 0x28) # ?ts @ [plain (TOKEN_CHAR 0x29)]) (1 + ?c) v"
      using reads_levels [OF r l(1)] l(2) p by (intro reads_brackets) auto
    from reads_levels [OF this, of k] show ?thesis using Binary.prems(3) True p by (simp add: add.assoc)
  next
    case False
    then show ?thesis using reads_levels [OF r, of k] l(2) p by simp
  qed
qed

lemma evaluate_tokens:
  assumes "t_type tv = TOKEN_INVALID"
    and "delivers sc priv (text_of (if crit AND 0x100 \<noteq> 0 then 0 else 4) 0 e @ [stop])"
    and "level (t_type stop) = 10" and "t_type stop \<noteq> TOKEN_WRT"
    and "allowed (if crit AND 0x100 \<noteq> 0 then 0 else 4) e"
    and "val e = Some v" and "cost 0 e \<le> limit_eval env"
  shows "\<exists>g st. evaluate env sc priv tv fwref crit hints = Inr (Some g, st) \<and> is_really_simple g \<and> reloc_value g = v \<and>
    same_token (tokval st) stop \<and> messages st = []"
proof -
  let ?n = "Suc (nat (limit_eval env + 1))" and ?rel = "crit AND 0x100 \<noteq> 0" and ?cr = "sint (crit AND NOT 0x100)"
  let ?b = "if crit AND 0x100 \<noteq> 0 then 0 else 4 :: nat"
  let ?init = "\<lparr>scpriv = priv, tokval = tv, deadman = 0, opflags = fwref,
    hint = map_option (htype_update (\<lambda>_. EAH_NOHINT)) hints, messages = []\<rparr>"
  have ev: "evaluate env sc priv tv fwref crit hints = and_vect (levels env sc ?rel ?cr ?b ?n (scan sc ?init)) (\<lambda>e st.
      if tok st = TOKEN_WRT
      then and_vect (expr6 env sc ?rel ?cr ?n (scan sc st)) (\<lambda>f st. and_vect (mult e 1 False st) (\<lambda>e. eval_wrt env ?cr e f))
      else mult e 1 False st)"
  proof -
    have "tok ?init = TOKEN_INVALID" using assms(1) by (simp add: tok_def)
    then show ?thesis by (simp only: evaluate_def Let_def levels_def bexpr_lv if_True simp_thms)
  qed
  have same: "text_of ?b 0 e = text_of ?b ?b e" "cost 0 e = cost ?b e"
    using assms(5) by (cases e; simp)+
  have "at sc (scan sc ?init) (text_of ?b 0 e @ [stop])"
    using assms(2) text_nonempty [of ?b 0 e]
    by (cases "text_of ?b 0 e") (auto simp: at_def scan_def case_prod_beta)
  moreover have "stops ?b [stop]" using assms(3) by simp
  moreover have "reads env sc ?rel ?cr ?b (text_of ?b ?b e) (cost ?b e) v"
    by (rule reads_text) (use assms in auto)
  ultimately obtain g st where g: "levels env sc ?rel ?cr ?b ?n (scan sc ?init) = Inr (Some g, st)" "sval g v"
    "went sc (scan sc ?init) (cost ?b e) [stop] st"
    using reads_stops [of env sc ?rel ?cr ?b "text_of ?b ?b e" "cost ?b e" v ?n "scan sc ?init" "[stop]"] assms(7) cost_pos [of ?b e] same
    by (auto simp: enough_def)
  from mult_value [OF g(2), of 1 False st] obtain f h where
    f: "mult g 1 False st = Inr (Some f, st\<lparr>hint := h\<rparr>)" "sval f v" by auto
  have "same_token (tokval st) stop" using g(3) by (simp add: went_def at_def)
  moreover have "messages st = []" using g(3) by (simp add: went_def)
  ultimately show ?thesis using sval_simps [OF f(2)] f(1) g(1) assms(4) by (simp add: ev and_vect_def tok_def same_token_def)
qed


text \<open>On \<open>(2 + 3) * -4\<close>, from a list of tokens.\<close>

fun list_scan :: "tokenval list scanner" where
  "list_scan [] tv = ([], plain TOKEN_EOS)"
| "list_scan (t # ts) tv = (ts, t)"

definition demo_ast :: ast where
  "demo_ast = Binary (TOKEN_CHAR 0x2A) (Binary (TOKEN_CHAR 0x2B) (Number 2) (Number 3)) (Unary (TOKEN_CHAR 0x2D) (Number 4))"


end
