(* ===== verification/SyncHeap.thy ===== *)
theory SyncHeap
  imports Prelude "HOL-Library.Multiset"
begin

text \<open>
  The synchronisation points of the disassembler, \<open>disasm/sync.c\<close>: a heap in an array, ordered by
  position, as a bag of points from which the passed ones are taken.
\<close>

section \<open>The heap\<close>

record sync =
  sync_pos :: u64
  sync_length :: u32

text \<open>
  The array has \<open>max_synx + 1\<close> elements and uses those from 1 to \<open>nsynx\<close>. The numbers are at most
  2^31, so that the indices of the children do not wrap in 32 bits.
\<close>

record sync_state =
  synx :: "sync list"
  max_synx :: nat
  nsynx :: nat

definition SYNC_MAX_SIZE :: nat where "SYNC_MAX_SIZE = 2 ^ 31"
definition SYNC_INITIAL_CHUNK :: nat where "SYNC_INITIAL_CHUNK = 2 ^ 12"

definition peek :: "sync list \<Rightarrow> nat \<Rightarrow> sync result" where
  "peek h i = guard (i < length h) OutOfBounds (Inr (h ! i))"

definition swap_sync :: "nat \<Rightarrow> nat \<Rightarrow> sync list \<Rightarrow> sync list result" where
  "swap_sync dst src h =
     andthen (peek h dst) (\<lambda>t. andthen (peek h src) (\<lambda>s. Inr (h[dst := s, src := t])))"

text \<open>The contents of fresh memory are a parameter.\<close>

definition init_sync :: "(nat \<Rightarrow> sync) \<Rightarrow> sync_state" where
  "init_sync mem = \<lparr>synx = map mem [0..<SYNC_INITIAL_CHUNK + 1], max_synx = SYNC_INITIAL_CHUNK, nsynx = 0\<rparr>"

fun sift_up :: "nat \<Rightarrow> sync list \<Rightarrow> sync list result" where
  "sift_up i h =
     (if i \<le> 1 then Inr h
      else andthen (peek h (i div 2)) (\<lambda>p. andthen (peek h i) (\<lambda>c.
        andthen (if sync_pos p > sync_pos c then swap_sync (i div 2) i h else Inr h) (sift_up (i div 2)))))"

declare sift_up.simps [simp del]

definition add_sync :: "(nat \<Rightarrow> sync) \<Rightarrow> u64 \<Rightarrow> u32 \<Rightarrow> sync_state \<Rightarrow> sync_state result" where
  "add_sync mem p l st =
     (if nsynx st \<ge> max_synx st \<and> max_synx st \<ge> SYNC_MAX_SIZE then Inr st
      else let m = (if nsynx st \<ge> max_synx st then 2 * max_synx st else max_synx st);
               h = (if nsynx st \<ge> max_synx st then synx st @ map mem [length (synx st)..<m + 1] else synx st);
               n = nsynx st + 1
           in guard (n < length h) OutOfBounds
                (andthen (sift_up n (h[n := \<lparr>sync_pos = p, sync_length = l\<rparr>]))
                  (\<lambda>h. Inr \<lparr>synx = h, max_synx = m, nsynx = n\<rparr>)))"

function sift_down :: "nat \<Rightarrow> nat \<Rightarrow> sync list \<Rightarrow> sync list result" where
  "sift_down n i h =
     (if i * 2 \<le> n \<and> 0 < i
      then let j = i * 2
           in andthen (peek h i) (\<lambda>x. andthen (peek h j) (\<lambda>l.
                andthen (if j + 1 \<le> n then andthen (peek h (j + 1)) (\<lambda>r. Inr (Some r)) else Inr None) (\<lambda>r.
                  if sync_pos l < sync_pos x \<and> (case r of None \<Rightarrow> True | Some r \<Rightarrow> sync_pos r > sync_pos l)
                  then andthen (swap_sync j i h) (sift_down n j)
                  else if (case r of None \<Rightarrow> False | Some r \<Rightarrow> sync_pos r < sync_pos x)
                  then andthen (swap_sync (j + 1) i h) (sift_down n (j + 1))
                  else Inr h)))
      else Inr h)"
  by auto
termination by (relation "measure (\<lambda>(n, i, h). n - i)") auto

declare sift_down.simps [simp del]

definition passed :: "u64 \<Rightarrow> sync \<Rightarrow> bool" where
  "passed position x \<longleftrightarrow> sync_pos x + ucast (sync_length x) \<le> position"

text \<open>The loop of \<open>next_sync\<close>: one point less at every turn.\<close>

fun drop_passed :: "u64 \<Rightarrow> nat \<Rightarrow> sync list \<Rightarrow> (nat \<times> sync list) result" where
  "drop_passed position 0 h = Inr (0, h)"
| "drop_passed position (Suc n) h =
     andthen (peek h 1) (\<lambda>x.
       if passed position x
       then andthen (swap_sync (Suc n) 1 h) (\<lambda>h. andthen (sift_down n 1 h) (drop_passed position n))
       else Inr (Suc n, h))"

definition next_sync :: "u64 \<Rightarrow> sync_state \<Rightarrow> ((u64 \<times> u32) \<times> sync_state) result" where
  "next_sync position st =
     andthen (drop_passed position (nsynx st) (synx st)) (\<lambda>(n, h).
       let st = st\<lparr>synx := h, nsynx := n\<rparr>
       in if n > 0 then andthen (peek h 1) (\<lambda>x. Inr ((sync_pos x, sync_length x), st))
          else Inr ((0, 0), st))"

section \<open>The order of the heap\<close>

definition heap :: "nat \<Rightarrow> sync list \<Rightarrow> bool" where
  "heap n h \<longleftrightarrow> (\<forall>i. 2 \<le> i \<and> i \<le> n \<longrightarrow> sync_pos (h ! (i div 2)) \<le> sync_pos (h ! i))"

definition bag :: "nat \<Rightarrow> sync list \<Rightarrow> sync multiset" where
  "bag n h = mset (take n (tl h))"

text \<open>The order may be broken above \<open>i\<close>, or below it, but not around it.\<close>

definition up_from :: "nat \<Rightarrow> nat \<Rightarrow> sync list \<Rightarrow> bool" where
  "up_from i n h \<longleftrightarrow> (\<forall>j. 2 \<le> j \<and> j \<le> n \<longrightarrow>
     (j \<noteq> i \<longrightarrow> sync_pos (h ! (j div 2)) \<le> sync_pos (h ! j)) \<and>
     (j div 2 = i \<and> 2 \<le> i \<longrightarrow> sync_pos (h ! (i div 2)) \<le> sync_pos (h ! j)))"

definition down_from :: "nat \<Rightarrow> nat \<Rightarrow> sync list \<Rightarrow> bool" where
  "down_from i n h \<longleftrightarrow> (\<forall>j. 2 \<le> j \<and> j \<le> n \<longrightarrow>
     (j div 2 \<noteq> i \<longrightarrow> sync_pos (h ! (j div 2)) \<le> sync_pos (h ! j)) \<and>
     (j div 2 = i \<and> 2 \<le> i \<longrightarrow> sync_pos (h ! (i div 2)) \<le> sync_pos (h ! j)))"

lemma peek_simps [simp]: "i < length h \<Longrightarrow> peek h i = Inr (h ! i)"
  by (simp add: peek_def)

lemma swap_simps [simp]:
  "i < length h \<Longrightarrow> j < length h \<Longrightarrow> swap_sync i j h = Inr (h[i := h ! j, j := h ! i])"
  by (simp add: swap_sync_def)

lemma bag_swap:
  assumes "1 \<le> i" "i \<le> n" "1 \<le> j" "j \<le> n" "n < length h"
  shows "bag n (h[i := h ! j, j := h ! i]) = bag n h"
proof -
  obtain x t where h: "h = x # t" using assms(5) by (cases h) auto
  obtain i' j' where i: "i = Suc i'" "j = Suc j'" using assms by (cases i; cases j) auto
  have "bag n (h[i := h ! j, j := h ! i]) = mset (take n (tl (h[i := h ! j, j := h ! i])))" by (simp add: bag_def)
  also have "take n (tl (h[i := h ! j, j := h ! i])) = (take n t)[i' := take n t ! j', j' := take n t ! i']"
    using assms by (simp add: h i take_update_swap)
  also have "mset \<dots> = mset (take n t)" using assms by (intro mset_swap) (simp_all add: h i)
  finally show ?thesis by (simp add: bag_def h)
qed

lemma heap_root: "heap n h \<Longrightarrow> 1 \<le> i \<Longrightarrow> i \<le> n \<Longrightarrow> sync_pos (h ! 1) \<le> sync_pos (h ! i)"
proof (induction i rule: less_induct)
  case (less i)
  show ?case
  proof (cases "i = 1")
    case False
    then have i: "2 \<le> i" "i div 2 < i" "1 \<le> i div 2" "i div 2 \<le> n" using less.prems by auto
    have "sync_pos (h ! 1) \<le> sync_pos (h ! (i div 2))" using less i by blast
    also have "\<dots> \<le> sync_pos (h ! i)" using less.prems i by (simp add: heap_def)
    finally show ?thesis .
  qed simp
qed

lemma set_bag:
  assumes "n < length h"
  shows "set_mset (bag n h) = (\<lambda>i. h ! i) ` {1..n}"
proof -
  have "take n (tl h) = map (\<lambda>i. h ! Suc i) [0..<n]" using assms by (intro nth_equalityI) (auto simp: nth_tl)
  also have "\<dots> = map (\<lambda>i. h ! i) [1..<Suc n]" by (simp add: map_Suc_upt flip: map_map [unfolded o_def] del: upt_Suc)
  finally show ?thesis by (simp add: bag_def atLeastLessThanSuc_atLeastAtMost del: upt_Suc)
qed

lemma sift_up_ok:
  assumes "up_from i n h" and "1 \<le> i" and "i \<le> n" and "n < length h"
  shows "\<exists>h'. sift_up i h = Inr h' \<and> heap n h' \<and> bag n h' = bag n h \<and> length h' = length h"
  using assms
proof (induction i arbitrary: h rule: less_induct)
  case (less i)
  show ?case
  proof (cases "i = 1")
    case True
    then show ?thesis using less.prems sift_up.simps [of 1 h] by (auto simp: heap_def up_from_def)
  next
    case False
    then have i: "2 \<le> i" "i div 2 < i" "1 \<le> i div 2" "i div 2 \<le> n" "i div 2 < length h" "i < length h" using less.prems by auto
    let ?g = "if sync_pos (h ! (i div 2)) > sync_pos (h ! i) then h[i div 2 := h ! i, i := h ! (i div 2)] else h"
    have s: "sift_up i h = sift_up (i div 2) ?g" using i less.prems(2) False by (simp add: sift_up.simps [of i])
    have "up_from (i div 2) n ?g"
      unfolding up_from_def
    proof (intro allI impI)
      fix j assume j: "2 \<le> j \<and> j \<le> n"
      have o: "\<And>k. 2 \<le> k \<Longrightarrow> k \<le> n \<Longrightarrow> k \<noteq> i \<Longrightarrow> sync_pos (h ! (k div 2)) \<le> sync_pos (h ! k)"
        "\<And>k. 2 \<le> k \<Longrightarrow> k \<le> n \<Longrightarrow> k div 2 = i \<Longrightarrow> sync_pos (h ! (i div 2)) \<le> sync_pos (h ! k)"
        using less.prems(1) i(1) by (auto simp: up_from_def)
      have jl: "j < length h" "j div 2 < length h" "j div 2 \<noteq> j" "i div 2 \<noteq> i" using j less.prems(4) i by auto
      have "j \<noteq> i div 2 \<Longrightarrow> sync_pos (?g ! (j div 2)) \<le> sync_pos (?g ! j)"
        using o(1) [of j] o(2) [of j] j jl i by (auto simp: nth_list_update intro: order_trans)
      moreover have "sync_pos (?g ! (i div 2 div 2)) \<le> sync_pos (?g ! j)" if p: "j div 2 = i div 2" "2 \<le> i div 2"
      proof -
        have "sync_pos (h ! (i div 2 div 2)) \<le> sync_pos (h ! (i div 2))" using o(1) [of "i div 2"] p i by simp
        moreover have "j \<noteq> i \<Longrightarrow> sync_pos (h ! (i div 2)) \<le> sync_pos (h ! j)" using o(1) [of j] j p by simp
        moreover have "i div 2 div 2 \<noteq> i div 2" "i div 2 div 2 \<noteq> i" "j \<noteq> i div 2" "i div 2 div 2 < length h" using i p jl by auto
        ultimately show ?thesis using jl i by (auto simp: nth_list_update intro: order_trans)
      qed
      ultimately show "(j \<noteq> i div 2 \<longrightarrow> sync_pos (?g ! (j div 2)) \<le> sync_pos (?g ! j)) \<and>
        (j div 2 = i div 2 \<and> 2 \<le> i div 2 \<longrightarrow> sync_pos (?g ! (i div 2 div 2)) \<le> sync_pos (?g ! j))" by blast
    qed
    moreover have "length ?g = length h" by simp
    moreover have "bag n ?g = bag n h" using bag_swap [of "i div 2" n i h] i less.prems by simp
    ultimately show ?thesis using less.IH [of "i div 2" ?g] i less.prems(4) unfolding s by metis
  qed
qed

lemma down_from_swap:
  assumes o: "down_from i n h" and c: "c div 2 = i" "c \<le> n" "1 \<le> i" "n < length h" and m: "sync_pos (h ! c) < sync_pos (h ! i)"
    and b: "\<And>k. k div 2 = i \<Longrightarrow> k \<le> n \<Longrightarrow> sync_pos (h ! c) \<le> sync_pos (h ! k)"
  shows "down_from c n (h[c := h ! i, i := h ! c])"
  unfolding down_from_def
proof (intro allI impI)
  fix j assume j: "2 \<le> j \<and> j \<le> n"
  let ?g = "h[c := h ! i, i := h ! c]"
  have ne: "c \<noteq> i" "2 \<le> c" "i div 2 \<noteq> i" "i div 2 \<noteq> c" "c < length h" "i < length h" "j < length h" "j div 2 < length h" "j div 2 \<noteq> j"
    using j c by auto
  have g: "?g ! i = h ! c" "?g ! c = h ! i" "k \<noteq> i \<Longrightarrow> k \<noteq> c \<Longrightarrow> ?g ! k = h ! k" for k using ne by simp_all
  note o = o [unfolded down_from_def, rule_format]
  consider "j = c" | "j = i" | "j \<noteq> c" "j div 2 = i" | "j div 2 = c" | "j \<noteq> c" "j \<noteq> i" "j div 2 \<noteq> i" "j div 2 \<noteq> c" by blast
  then show "(j div 2 \<noteq> c \<longrightarrow> sync_pos (?g ! (j div 2)) \<le> sync_pos (?g ! j)) \<and>
    (j div 2 = c \<and> 2 \<le> c \<longrightarrow> sync_pos (?g ! (c div 2)) \<le> sync_pos (?g ! j))"
  proof cases
    case 1
    then show ?thesis using m c g ne by simp
  next
    case 2
    then show ?thesis using o [of c] c g(1) g(3) [of "i div 2"] ne j by simp
  next
    case 3
    then show ?thesis using b [of j] j g(1) g(3) [of j] ne by simp
  next
    case 4
    then have "j \<noteq> i" "j \<noteq> c" using c ne by auto
    then show ?thesis using 4 o [of j] j g(1) g(3) [of j] ne c by simp
  next
    case 5
    then show ?thesis using o [of j] j g(3) [of j] g(3) [of "j div 2"] by simp
  qed
qed

lemma sift_down_step:
  assumes "i * 2 \<le> n" and "1 \<le> i" and "n < length h"
  shows "sift_down n i h =
    (if sync_pos (h ! (i * 2)) < sync_pos (h ! i) \<and> (i * 2 + 1 \<le> n \<longrightarrow> sync_pos (h ! (i * 2)) < sync_pos (h ! (i * 2 + 1)))
     then sift_down n (i * 2) (h[i * 2 := h ! i, i := h ! (i * 2)])
     else if i * 2 + 1 \<le> n \<and> sync_pos (h ! (i * 2 + 1)) < sync_pos (h ! i)
     then sift_down n (i * 2 + 1) (h[i * 2 + 1 := h ! i, i := h ! (i * 2 + 1)])
     else Inr h)"
  using assms by (subst sift_down.simps) (simp add: Let_def)

lemma sift_down_ok:
  assumes "down_from i n h" and "1 \<le> i" and "n < length h"
  shows "\<exists>h'. sift_down n i h = Inr h' \<and> heap n h' \<and> bag n h' = bag n h \<and> length h' = length h"
  using assms
proof (induction "n - i" arbitrary: i h rule: less_induct)
  case less
  have ch: "k div 2 = i \<longleftrightarrow> k = i * 2 \<or> k = i * 2 + 1" for k by auto
  show ?case
  proof (cases "i * 2 \<le> n")
    case False
    then have "j div 2 \<noteq> i" if "j \<le> n" for j using that by (auto simp: ch)
    then have "heap n h" using less.prems(1) by (auto simp: heap_def down_from_def)
    then show ?thesis using False by (simp add: sift_down.simps [of n i])
  next
    case True
    have moved: ?thesis if c: "sift_down n i h = sift_down n c (h[c := h ! i, i := h ! c])" "c div 2 = i" "c \<le> n"
        "sync_pos (h ! c) < sync_pos (h ! i)" "\<And>k. k div 2 = i \<Longrightarrow> k \<le> n \<Longrightarrow> sync_pos (h ! c) \<le> sync_pos (h ! k)" for c
    proof -
      have "down_from c n (h[c := h ! i, i := h ! c])" using less.prems c by (intro down_from_swap)
      moreover have "n - c < n - i" "1 \<le> c" using c(2,3) less.prems(2) True by auto
      moreover have "bag n (h[c := h ! i, i := h ! c]) = bag n h" using bag_swap [of c n i h] c less.prems True calculation by simp
      ultimately show ?thesis using less.hyps [of c "h[c := h ! i, i := h ! c]"] less.prems(3) by (simp add: c(1))
    qed
    note d = sift_down_step [OF True less.prems(2,3)]
    consider (left) "sync_pos (h ! (i * 2)) < sync_pos (h ! i)" "i * 2 + 1 \<le> n \<longrightarrow> sync_pos (h ! (i * 2)) < sync_pos (h ! (i * 2 + 1))"
      | (right) "i * 2 + 1 \<le> n" "sync_pos (h ! (i * 2 + 1)) < sync_pos (h ! i)" "sync_pos (h ! (i * 2 + 1)) \<le> sync_pos (h ! (i * 2))"
      | (stay) "sync_pos (h ! i) \<le> sync_pos (h ! (i * 2))" "i * 2 + 1 \<le> n \<longrightarrow> sync_pos (h ! i) \<le> sync_pos (h ! (i * 2 + 1))"
    proof -
      have "x < y \<or> y \<le> x" "x \<le> y \<Longrightarrow> y < z \<Longrightarrow> x < z" "x < y \<Longrightarrow> y \<le> z \<Longrightarrow> x < z" "x < y \<Longrightarrow> x \<le> y" for x y z :: u64 by auto
      then show thesis using that by meson
    qed
    then show ?thesis
    proof cases
      case left
      then show ?thesis using True by (intro moved [of "i * 2"]) (auto simp: d ch)
    next
      case right
      then have "\<not> (sync_pos (h ! (i * 2)) < sync_pos (h ! (i * 2 + 1)))" by simp
      then show ?thesis using right by (intro moved [of "i * 2 + 1"]) (auto simp: d ch)
    next
      case stay
      then have "heap n h" using less.prems(1) unfolding heap_def down_from_def by (metis ch)
      moreover have "sift_down n i h = Inr h" using stay by (auto simp: d dest: leD)
      ultimately show ?thesis by simp
    qed
  qed
qed

lemma bag_Suc: "Suc n < length h \<Longrightarrow> bag (Suc n) h = add_mset (h ! Suc n) (bag n h)"
  by (cases h) (simp_all add: bag_def take_Suc_conv_app_nth)

lemma size_bag: "n < length h \<Longrightarrow> size (bag n h) = n"
  by (simp add: bag_def)

lemma drop_passed_ok:
  assumes "heap n h" and "n < length h"
  shows "\<exists>m h' R. drop_passed position n h = Inr (m, h') \<and> m \<le> n \<and> heap m h' \<and> length h' = length h \<and>
    bag n h = bag m h' + R \<and> (\<forall>x \<in># R. passed position x \<and> (\<forall>y \<in># bag m h'. sync_pos x \<le> sync_pos y)) \<and>
    (0 < m \<longrightarrow> \<not> passed position (h' ! 1))"
  using assms
proof (induction n arbitrary: h)
  case 0
  then show ?case by simp
next
  case (Suc n)
  show ?case
  proof (cases "passed position (h ! 1)")
    case False
    then show ?thesis using Suc.prems by (intro exI [of _ "Suc n"] exI [of _ h] exI [of _ "{#}"]) simp
  next
    case True
    let ?g = "h[Suc n := h ! 1, 1 := h ! Suc n]"
    have l: "1 < length h" "Suc n < length h" using Suc.prems by auto
    have g: "?g ! Suc n = h ! 1" using l by (cases n) simp_all
    have b: "bag (Suc n) h = add_mset (h ! 1) (bag n ?g)"
      using bag_swap [of "Suc n" "Suc n" 1 h] bag_Suc [of n ?g] g l by simp
    have "down_from 1 n ?g"
      using Suc.prems by (auto simp: down_from_def heap_def nth_list_update)
    from sift_down_ok [OF this] obtain k where
      k: "sift_down n 1 ?g = Inr k" "heap n k" "bag n k = bag n ?g" "length k = length h"
      using l by auto
    from Suc.IH [OF k(2)] k(4) l obtain m h' R where
      r: "drop_passed position n k = Inr (m, h')" "m \<le> n" "heap m h'" "length h' = length k" "bag n k = bag m h' + R"
      "\<forall>x \<in># R. passed position x \<and> (\<forall>y \<in># bag m h'. sync_pos x \<le> sync_pos y)" "0 < m \<longrightarrow> \<not> passed position (h' ! 1)"
      by auto
    have "sync_pos (h ! 1) \<le> sync_pos y" if "y \<in># bag (Suc n) h" for y
      using that set_bag [OF l(2)] heap_root [OF Suc.prems(1)] by auto
    moreover have c: "bag (Suc n) h = bag m h' + add_mset (h ! 1) R" using b k(3) r(5) by simp
    ultimately have "\<forall>y \<in># bag m h'. sync_pos (h ! 1) \<le> sync_pos y" by simp
    moreover have "drop_passed position (Suc n) h = Inr (m, h')" using True l k(1) r(1) by simp
    moreover note c
    ultimately show ?thesis using r k(4) True
      by (intro exI [of _ m] exI [of _ h'] exI [of _ "add_mset (h ! 1) R"]) auto
  qed
qed

section \<open>The queue\<close>

definition points :: "sync_state \<Rightarrow> sync multiset" where
  "points st = bag (nsynx st) (synx st)"

definition sync_ok :: "sync_state \<Rightarrow> bool" where
  "sync_ok st \<longleftrightarrow> (\<exists>m \<le> 31. max_synx st = 2 ^ m) \<and> length (synx st) = max_synx st + 1 \<and> nsynx st \<le> max_synx st \<and>
     heap (nsynx st) (synx st)"

text \<open>What \<open>next_sync\<close> does to a bag of points: only passed points go, the foremost first, and the answer is the foremost of the rest.\<close>

definition delivered :: "u64 \<Rightarrow> sync multiset \<Rightarrow> u64 \<times> u32 \<Rightarrow> sync multiset \<Rightarrow> bool" where
  "delivered position M a M' \<longleftrightarrow> M' \<subseteq># M \<and>
     (\<forall>x \<in># M - M'. passed position x \<and> (\<forall>y \<in># M'. sync_pos x \<le> sync_pos y)) \<and>
     (if M' = {#} then a = (0, 0)
      else \<exists>x \<in># M'. a = (sync_pos x, sync_length x) \<and> \<not> passed position x \<and> (\<forall>y \<in># M'. sync_pos x \<le> sync_pos y))"

lemma init_sync_ok: "sync_ok (init_sync mem)" "points (init_sync mem) = {#}"
  by (auto simp: sync_ok_def init_sync_def SYNC_INITIAL_CHUNK_def heap_def points_def bag_def intro: exI [of _ 12])

lemma add_sync_ok:
  assumes "sync_ok st"
  shows "\<exists>st'. add_sync mem p l st = Inr st' \<and> sync_ok st' \<and>
    points st' = (if size (points st) = SYNC_MAX_SIZE then points st
                  else add_mset \<lparr>sync_pos = p, sync_length = l\<rparr> (points st))"
proof -
  let ?h = "synx st" and ?n = "nsynx st" and ?x = "\<lparr>sync_pos = p, sync_length = l\<rparr>"
  from assms obtain m where m: "m \<le> 31" "max_synx st = 2 ^ m" and h: "length ?h = max_synx st + 1" "?n \<le> max_synx st" "heap ?n ?h"
    by (auto simp: sync_ok_def)
  have size: "size (points st) = ?n" using h by (simp add: points_def size_bag)
  have "SYNC_MAX_SIZE \<le> max_synx st \<longleftrightarrow> 31 \<le> m" "max_synx st \<le> SYNC_MAX_SIZE \<longleftrightarrow> m \<le> 31"
    unfolding SYNC_MAX_SIZE_def m(2) by (rule power_increasing_iff, simp)+
  then have top: "max_synx st \<ge> SYNC_MAX_SIZE \<longleftrightarrow> m = 31" "max_synx st \<le> SYNC_MAX_SIZE" using m(1) by auto
  show ?thesis
  proof (cases "?n = SYNC_MAX_SIZE")
    case True
    then have "add_sync mem p l st = Inr st" using h(2) top by (simp add: add_sync_def)
    then show ?thesis using True assms size by simp
  next
    case False
    let ?grow = "?n \<ge> max_synx st"
    let ?m = "if ?grow then 2 * max_synx st else max_synx st"
    let ?g = "if ?grow then ?h @ map mem [length ?h..<?m + 1] else ?h"
    have ng: "\<not> (?grow \<and> max_synx st \<ge> SYNC_MAX_SIZE)" using False h(2) top by auto
    have pos: "0 < max_synx st" using m by simp
    have l: "length ?g = ?m + 1" "?n + 1 \<le> ?m" using h pos by auto
    have m': "\<exists>k \<le> 31. ?m = 2 ^ k" using m ng top by (intro exI [of _ "if ?grow then Suc m else m"]) auto
    have same: "?g ! k = ?h ! k" if "k \<le> ?n" for k using that h by (auto simp: nth_append)
    let ?k = "?g[?n + 1 := ?x]"
    have b: "bag (?n + 1) ?k = add_mset ?x (points st)"
    proof -
      have "bag ?n ?k = bag ?n ?h" using h l by (cases ?h) (auto simp: bag_def take_update_cancel)
      then show ?thesis using bag_Suc [of ?n ?k] l by (simp add: points_def)
    qed
    have "up_from (?n + 1) (?n + 1) ?k"
      unfolding up_from_def
    proof (intro allI impI)
      fix j assume j: "2 \<le> j \<and> j \<le> ?n + 1"
      then have "j div 2 \<le> ?n" "j div 2 \<noteq> ?n + 1" by auto
      then show "(j \<noteq> ?n + 1 \<longrightarrow> sync_pos (?k ! (j div 2)) \<le> sync_pos (?k ! j)) \<and>
          (j div 2 = ?n + 1 \<and> 2 \<le> ?n + 1 \<longrightarrow> sync_pos (?k ! ((?n + 1) div 2)) \<le> sync_pos (?k ! j))"
        using h(3) j same [of j] same [of "j div 2"] by (auto simp: heap_def)
    qed
    from sift_up_ok [OF this] l obtain k' where
      k: "sift_up (?n + 1) ?k = Inr k'" "heap (?n + 1) k'" "bag (?n + 1) k' = bag (?n + 1) ?k" "length k' = ?m + 1" by auto
    let ?st = "\<lparr>synx = k', max_synx = ?m, nsynx = ?n + 1\<rparr>"
    have "add_sync mem p l st = Inr ?st"
      unfolding add_sync_def Let_def if_not_P [OF ng] using l k(1) by simp
    moreover have "sync_ok ?st" using k(2,4) l(2) m' by (simp add: sync_ok_def)
    moreover have "points ?st = add_mset ?x (points st)" using b k(3) by (simp add: points_def)
    ultimately show ?thesis using False size by simp
  qed
qed

lemma next_sync_ok:
  assumes "sync_ok st"
  shows "\<exists>a st'. next_sync position st = Inr (a, st') \<and> sync_ok st' \<and> delivered position (points st) a (points st')"
proof -
  have h: "heap (nsynx st) (synx st)" "nsynx st < length (synx st)" using assms by (auto simp: sync_ok_def)
  from drop_passed_ok [OF this, of position] obtain m h' R where
    r: "drop_passed position (nsynx st) (synx st) = Inr (m, h')" "m \<le> nsynx st" "heap m h'" "length h' = length (synx st)"
    "points st = bag m h' + R" "\<forall>x \<in># R. passed position x \<and> (\<forall>y \<in># bag m h'. sync_pos x \<le> sync_pos y)"
    "0 < m \<longrightarrow> \<not> passed position (h' ! 1)" by (auto simp: points_def)
  let ?st = "st\<lparr>synx := h', nsynx := m\<rparr>" and ?a = "if m = 0 then (0, 0) else (sync_pos (h' ! 1), sync_length (h' ! 1))"
  have l: "m < length h'" using r(2,4) h(2) by simp
  have "next_sync position st = Inr (?a, ?st)" using r(1) l by (simp add: next_sync_def Let_def)
  moreover have "sync_ok ?st" using assms r(2-4) by (auto simp: sync_ok_def)
  moreover have "delivered position (points st) ?a (points ?st)"
  proof -
    have p: "points ?st = bag m h'" by (simp add: points_def)
    have "h' ! 1 \<in># bag m h'" "\<forall>y \<in># bag m h'. sync_pos (h' ! 1) \<le> sync_pos y" if "m \<noteq> 0"
      using that set_bag [OF l] heap_root [OF r(3)] by auto
    moreover have "bag m h' = {#} \<longleftrightarrow> m = 0" using size_bag [OF l] by auto
    ultimately show ?thesis using r(5-7) unfolding delivered_def p by auto
  qed
  ultimately show ?thesis by blast
qed

inductive sync_reachable :: "(nat \<Rightarrow> sync) \<Rightarrow> sync_state \<Rightarrow> bool" for mem where
  init: "sync_reachable mem (init_sync mem)"
| add: "sync_reachable mem st \<Longrightarrow> add_sync mem p l st = Inr st' \<Longrightarrow> sync_reachable mem st'"
| ask: "sync_reachable mem st \<Longrightarrow> next_sync position st = Inr (a, st') \<Longrightarrow> sync_reachable mem st'"

lemma sync_reachable_ok: "sync_reachable mem st \<Longrightarrow> sync_ok st"
proof (induction rule: sync_reachable.induct)
  case init
  show ?case by (rule init_sync_ok)
next
  case (add st p l st')
  then show ?case using add_sync_ok [of st mem p l] by auto
next
  case (ask st position a st')
  then show ?case using next_sync_ok [of st position] by auto
qed

text \<open>
  C24. The set of synchronisation points is a queue ordered by position: in every state that the
  operations reach from the initial one, adding a point adds it to the bag of points (unless 2^31
  points are there, when it is dropped), and asking for the next point takes away only points that
  end at or before the position, the foremost first, and answers with the foremost of the points
  that are left, which does not, or with zeros. No operation reads or writes outside the array.
\<close>

theorem sync_points_correct:
  assumes "sync_reachable mem st"
  shows "(\<exists>st'. add_sync mem p l st = Inr st' \<and> sync_reachable mem st' \<and>
      points st' = (if size (points st) = SYNC_MAX_SIZE then points st
                    else add_mset \<lparr>sync_pos = p, sync_length = l\<rparr> (points st))) \<and>
    (\<exists>a st'. next_sync position st = Inr (a, st') \<and> sync_reachable mem st' \<and>
      delivered position (points st) a (points st'))"
proof
  note ok = sync_reachable_ok [OF assms]
  show "\<exists>st'. add_sync mem p l st = Inr st' \<and> sync_reachable mem st' \<and>
      points st' = (if size (points st) = SYNC_MAX_SIZE then points st
                    else add_mset \<lparr>sync_pos = p, sync_length = l\<rparr> (points st))"
    using add_sync_ok [OF ok, of mem p l] assms by (metis sync_reachable.add)
  show "\<exists>a st'. next_sync position st = Inr (a, st') \<and> sync_reachable mem st' \<and>
      delivered position (points st) a (points st')"
    using next_sync_ok [OF ok, of position] assms by (metis sync_reachable.ask)
qed

text \<open>After adding a point of 3 bytes at 5, the next point after 4 is that one.\<close>

definition zeroed :: "nat \<Rightarrow> sync" where
  "zeroed i = \<lparr>sync_pos = 0, sync_length = 0\<rparr>"

theorem sync_points_correct_witness:
  "\<exists>st st'. add_sync zeroed 5 3 (init_sync zeroed) = Inr st \<and> next_sync 4 st = Inr ((5, 3), st')"
proof -
  let ?x = "\<lparr>sync_pos = 5, sync_length = 3\<rparr> :: sync"
  obtain st where st: "add_sync zeroed 5 3 (init_sync zeroed) = Inr st" "sync_reachable zeroed st" "points st = {#?x#}"
    using sync_points_correct [OF sync_reachable.init, of zeroed 5 3] by (auto simp: init_sync_ok SYNC_MAX_SIZE_def)
  obtain a st' where n: "next_sync 4 st = Inr (a, st')" and d: "delivered 4 {#?x#} a (points st')"
    using sync_points_correct [OF st(2), of 0 0 4] unfolding st(3) by blast
  have x: "\<not> passed 4 ?x" by (simp add: passed_def)
  have sub: "points st' \<subseteq># {#?x#}" using d by (simp add: delivered_def)
  have "points st' \<noteq> {#}"
  proof
    assume "points st' = {#}"
    then show False using d x by (simp add: delivered_def)
  qed
  then obtain y where "y \<in># points st'" "a = (sync_pos y, sync_length y)" using d by (auto simp: delivered_def)
  moreover from this(1) have "y = ?x" using mset_subset_eqD [OF sub] by auto
  ultimately have "a = (5, 3)" by simp
  then show ?thesis using st(1) n by blast
qed

end
