(* ===== verification/Disp8.thy ===== *)
theory Disp8
  imports Prelude
begin

text \<open>
  Compressed displacements of EVEX instructions, \<open>x86/disp8.c\<close>: the factor of a tuple type, and the
  test whether an offset is a multiple of it.
\<close>

section \<open>The factor\<close>

datatype ttypes = FV | HV | FVM | T1S8 | T1S16 | T1S | T1F32 | T1F64 | T2 | T4 | T8 | HVM | QVM | OVM | M128 | DUP

text \<open>The value of a constant of the enumeration.\<close>

definition tuple_code :: "ttypes \<Rightarrow> nat" where
  "tuple_code t =
     (case t of FV \<Rightarrow> 1 | HV \<Rightarrow> 2 | FVM \<Rightarrow> 3 | T1S8 \<Rightarrow> 4 | T1S16 \<Rightarrow> 5 | T1S \<Rightarrow> 6 | T1F32 \<Rightarrow> 7 | T1F64 \<Rightarrow> 8
      | T2 \<Rightarrow> 9 | T4 \<Rightarrow> 10 | T8 \<Rightarrow> 11 | HVM \<Rightarrow> 12 | QVM \<Rightarrow> 13 | OVM \<Rightarrow> 14 | M128 \<Rightarrow> 15 | DUP \<Rightarrow> 16)"

text \<open>The fields of an instruction that are read; \<open>None\<close> stands for no tuple type (0).\<close>

record evex =
  evex_p1 :: u8
  evex_p2 :: u8
  evex_tuple :: "ttypes option"

definition evex_b :: "evex \<Rightarrow> bool" where
  "evex_b ins \<longleftrightarrow> evex_p2 ins AND 0x10 \<noteq> 0"

definition evex_w :: "evex \<Rightarrow> bool" where
  "evex_w ins \<longleftrightarrow> evex_p1 ins AND 0x80 \<noteq> 0"

text \<open>Two bits; the vector length 3 is none.\<close>

definition vectlen :: "evex \<Rightarrow> nat" where
  "vectlen ins = unat (drop_bit 5 (evex_p2 ins AND 0x60))"

definition entry :: "u8 list \<Rightarrow> nat \<Rightarrow> u8 result" where
  "entry row i = guard (i < length row) OutOfBounds (Inr (row ! i))"

definition get_disp8N :: "evex \<Rightarrow> u8 result" where
  "get_disp8N ins =
     (let b = evex_b ins; w = evex_w ins; vl = vectlen ins
      in case evex_tuple ins of
           None \<Rightarrow> Inr 0
         | Some tuple \<Rightarrow>
             (case tuple of
                FV \<Rightarrow> entry (if b then (if w then [8, 8, 8] else [4, 4, 4]) else [16, 32, 64]) vl
              | HV \<Rightarrow> entry (if b then [4, 4, 4] else [8, 16, 32]) vl
              | FVM \<Rightarrow> Inr (push_bit (vl + 4) 1)
              | T1S \<Rightarrow> Inr (if w then 8 else 4)
              | M128 \<Rightarrow> Inr 16
              | DUP \<Rightarrow> entry [8, 32, 64] vl
              | _ \<Rightarrow>
                  if tuple = T1S8 \<or> tuple = T1S16 then Inr (of_nat (tuple_code tuple - tuple_code T1S8 + 1))
                  else if tuple = T1F32 \<or> tuple = T1F64 then Inr (if tuple = T1F32 then 4 else 8)
                  else if tuple = T2 \<or> tuple = T4 \<or> tuple = T8
                  then Inr (if vl + 7 \<le> (of_bool w + 5) + (tuple_code tuple - tuple_code T2 + 1) then 0
                            else push_bit (tuple_code tuple - tuple_code T2 + of_bool w + 3) 1)
                  else Inr (push_bit (tuple_code OVM - tuple_code tuple + vl + 1) 1)))"

text \<open>The answer and the displacement that is stored; the division is that of 32-bit signed numbers.\<close>

definition is_disp8n :: "i32 \<Rightarrow> evex \<Rightarrow> (bool \<times> u8) result" where
  "is_disp8n off ins =
     andthen (get_disp8N ins) (\<lambda>n.
       if n \<noteq> 0 \<and> off AND (ucast n - 1) = 0
       then let disp8 = sint off sdiv int (unat n)
            in if - 128 \<le> disp8 \<and> disp8 \<le> 127 then Inr (True, word_of_int disp8) else Inr (False, 0)
       else Inr (False, 0))"

section \<open>The reference table\<close>

text \<open>
  In bytes: the vector, the element, what a tuple type takes, and the factor, which is 0 where the
  operand would fill the vector.
\<close>

definition vector_bytes :: "nat \<Rightarrow> nat" where "vector_bytes vl = 16 * 2 ^ vl"
definition element_bytes :: "bool \<Rightarrow> nat" where "element_bytes w = (if w then 8 else 4)"

definition elements :: "ttypes \<Rightarrow> nat" where
  "elements t = (case t of T2 \<Rightarrow> 2 | T4 \<Rightarrow> 4 | T8 \<Rightarrow> 8 | _ \<Rightarrow> 1)"

definition tuple_bytes :: "ttypes \<Rightarrow> bool \<Rightarrow> bool \<Rightarrow> nat \<Rightarrow> nat" where
  "tuple_bytes t b w vl =
     (let V = vector_bytes vl; E = element_bytes w
      in case t of
           FV \<Rightarrow> if b then E else V
         | HV \<Rightarrow> if b then 4 else V div 2
         | FVM \<Rightarrow> V | HVM \<Rightarrow> V div 2 | QVM \<Rightarrow> V div 4 | OVM \<Rightarrow> V div 8
         | T1S8 \<Rightarrow> 1 | T1S16 \<Rightarrow> 2 | T1S \<Rightarrow> E | T1F32 \<Rightarrow> 4 | T1F64 \<Rightarrow> 8 | M128 \<Rightarrow> 16
         | DUP \<Rightarrow> if vl = 0 then 8 else V
         | _ \<Rightarrow> if elements t * E < V then elements t * E else 0)"

lemma vectlen_less: "vectlen ins < 4"
proof -
  have "unat (w AND 3) = unat w mod 4" for w :: u8 using unat_and_low [of w 2] by (simp add: mask_eq_exp_minus_1)
  then have "vectlen ins = unat (drop_bit 5 (evex_p2 ins)) mod 4" by (simp add: vectlen_def)
  then show ?thesis by simp
qed

lemma get_disp8N_table:
  assumes "vectlen ins < 3" and "evex_tuple ins = Some t"
  shows "get_disp8N ins = Inr (of_nat (tuple_bytes t (evex_b ins) (evex_w ins) (vectlen ins)))"
proof -
  consider "vectlen ins = 0" | "vectlen ins = 1" | "vectlen ins = 2" using assms(1) by linarith
  then show ?thesis
    by cases (cases t; simp add: get_disp8N_def assms(2) Let_def entry_def tuple_bytes_def vector_bytes_def element_bytes_def
      elements_def tuple_code_def push_bit_eq_mult)+
qed

text \<open>Every factor is a power of two, also for the vector length 3 where the tables are not read.\<close>

lemma get_disp8N_power:
  assumes "get_disp8N ins = Inr n"
  shows "n = 0 \<or> (\<exists>k \<le> 7. n = push_bit k 1)"
proof -
  have "n \<in> set (0 # map (\<lambda>k. push_bit k 1) [0..<Suc 7])"
  proof (cases "evex_tuple ins")
    case None
    then show ?thesis using assms by (simp add: get_disp8N_def)
  next
    case (Some t)
    have "vectlen ins = 0 \<or> vectlen ins = 1 \<or> vectlen ins = 2 \<or> vectlen ins = 3" using vectlen_less [of ins] by linarith
    then show ?thesis using assms
      by (elim disjE) (cases t; cases "evex_b ins"; cases "evex_w ins"; simp add: get_disp8N_def Some Let_def entry_def
        tuple_code_def push_bit_eq_mult upt_rec; auto)+
  qed
  then show ?thesis by (auto simp only: set_simps set_map set_upt atLeastLessThan_iff less_Suc_eq_le)
qed

lemma sdiv_exact: "n \<noteq> 0 \<Longrightarrow> (d * n) sdiv n = (d :: int)"
  by (simp add: signed_divide_int_def sgn_mult abs_mult sgn_mult_abs mult.assoc)

lemma is_disp8n_value:
  assumes "get_disp8N ins = Inr n"
  shows "is_disp8n off ins =
    Inr (if n \<noteq> 0 \<and> (\<exists>d. - 128 \<le> d \<and> d \<le> 127 \<and> sint off = d * int (unat n))
         then (True, word_of_int (sint off div int (unat n))) else (False, 0))"
proof (cases "n = 0")
  case True
  then show ?thesis by (simp add: is_disp8n_def assms)
next
  case False
  then obtain k where k: "k \<le> 7" "n = push_bit k 1" using get_disp8N_power [OF assms] by auto
  have n: "unat n = 2 ^ k" unfolding k(2) by (rule unat_push_bit_one) (use k(1) in simp)
  have "ucast n = (push_bit k 1 :: u32)"
  proof -
    have "take_bit 32 (unat n) = unat n" using k(1) by (simp add: n take_bit_nat_eq_self)
    then have "unat (ucast n :: u32) = 2 ^ k" by (simp add: unsigned_ucast_eq n)
    also have "\<dots> = unat (push_bit k 1 :: u32)" using k(1) by (intro unat_push_bit_one [symmetric]) simp
    finally show ?thesis by (simp only: word_unat_eq_iff)
  qed
  then have "off AND (ucast n - 1) = take_bit k off"
    by (simp add: take_bit_eq_mask mask_eq_exp_minus_1 push_bit_eq_mult)
  then have "off AND (ucast n - 1) = 0 \<longleftrightarrow> 2 ^ k dvd uint off"
    by (metis take_bit_eq_0_iff unsigned_take_bit_eq unsigned_eq_0_iff)
  also have "\<dots> \<longleftrightarrow> int (unat n) dvd sint off"
  proof -
    have "sint off = uint off \<or> sint off = uint off - 2 ^ 32" by (cases off rule: sint_cases) auto
    moreover have "(2 :: int) ^ k dvd 2 ^ 32" using k by (intro le_imp_power_dvd) simp
    ultimately show ?thesis using n by (auto simp: dvd_diff_left_iff)
  qed
  finally have d: "off AND (ucast n - 1) = 0 \<longleftrightarrow> int (unat n) dvd sint off" .
  have nz: "int (unat n) \<noteq> 0" using n by simp
  show ?thesis
  proof (cases "int (unat n) dvd sint off")
    case True
    then obtain q where q: "sint off = q * int (unat n)" unfolding dvd_def by (metis mult.commute)
    have "sint off sdiv int (unat n) = q" "sint off div int (unat n) = q"
      unfolding q by (rule sdiv_exact [OF nz], rule nonzero_mult_div_cancel_right [OF nz])
    moreover have "(\<exists>d. - 128 \<le> d \<and> d \<le> 127 \<and> sint off = d * int (unat n)) \<longleftrightarrow> - 128 \<le> q \<and> q \<le> 127"
      using nz by (auto simp only: q mult_cancel_right)
    ultimately show ?thesis using False d True by (simp add: is_disp8n_def assms Let_def)
  next
    case False
    then have "\<not> (\<exists>d. - 128 \<le> d \<and> d \<le> 127 \<and> sint off = d * int (unat n))" by auto
    then show ?thesis using False d by (simp add: is_disp8n_def assms)
  qed
qed

lemma tuple_bytes_bound: "vl < 3 \<Longrightarrow> tuple_bytes t b w vl \<le> 64"
proof -
  assume "vl < 3"
  then consider "vl = 0" | "vl = 1" | "vl = 2" by linarith
  then show ?thesis
    by cases (cases t; simp add: tuple_bytes_def vector_bytes_def element_bytes_def elements_def Let_def)+
qed



text \<open>The tables have no row for the vector length 3.\<close>

lemma vectlen_3:
  "vectlen ins = 3 \<Longrightarrow> evex_tuple ins = Some t \<Longrightarrow> t \<in> {FV, HV, DUP} \<Longrightarrow> get_disp8N ins = Inl OutOfBounds"
  by (auto simp: get_disp8N_def entry_def Let_def)

end
