(* ===== verification/Md5.thy ===== *)
theory Md5
  imports Prelude
begin

text \<open>
  The MD5 message digest, \<open>nasmlib/md5c.c\<close>: a message may be given in pieces, and the digest is that
  of the padded message by the reference definition.
\<close>

section \<open>The code\<close>

text \<open>The state: four words, the number of bits so far, and the block that is being filled.\<close>

record md5_ctx =
  md5_buf :: "u32 \<times> u32 \<times> u32 \<times> u32"
  md5_bits :: "u32 \<times> u32"
  md5_in :: bytes

definition F1 :: "u32 \<Rightarrow> u32 \<Rightarrow> u32 \<Rightarrow> u32" where "F1 x y z = z XOR (x AND (y XOR z))"
definition F2 :: "u32 \<Rightarrow> u32 \<Rightarrow> u32 \<Rightarrow> u32" where "F2 x y z = F1 z x y"
definition F3 :: "u32 \<Rightarrow> u32 \<Rightarrow> u32 \<Rightarrow> u32" where "F3 x y z = x XOR y XOR z"
definition F4 :: "u32 \<Rightarrow> u32 \<Rightarrow> u32 \<Rightarrow> u32" where "F4 x y z = y XOR (x OR NOT z)"

definition MD5STEP :: "(u32 \<Rightarrow> u32 \<Rightarrow> u32 \<Rightarrow> u32) \<Rightarrow> u32 \<Rightarrow> u32 \<Rightarrow> u32 \<Rightarrow> u32 \<Rightarrow> u32 \<Rightarrow> nat \<Rightarrow> u32" where
  "MD5STEP f w x y z data s =
     (let w = w + (f x y z + data); w = (push_bit s w OR drop_bit (32 - s) w) in w + x)"

text \<open>
  The steps in the order of the code: the function, the word of the block, the constant and the
  rotation. The words that a step reads are those of the step before it moved on by one, and
  after four steps they are back in place.
\<close>

definition md5_steps :: "((u32 \<Rightarrow> u32 \<Rightarrow> u32 \<Rightarrow> u32) \<times> nat \<times> u32 \<times> nat) list" where
  "md5_steps =
    [(F1, 0, 0xd76aa478, 7), (F1, 1, 0xe8c7b756, 12), (F1, 2, 0x242070db, 17), (F1, 3, 0xc1bdceee, 22),
     (F1, 4, 0xf57c0faf, 7), (F1, 5, 0x4787c62a, 12), (F1, 6, 0xa8304613, 17), (F1, 7, 0xfd469501, 22),
     (F1, 8, 0x698098d8, 7), (F1, 9, 0x8b44f7af, 12), (F1, 10, 0xffff5bb1, 17), (F1, 11, 0x895cd7be, 22),
     (F1, 12, 0x6b901122, 7), (F1, 13, 0xfd987193, 12), (F1, 14, 0xa679438e, 17), (F1, 15, 0x49b40821, 22),
     (F2, 1, 0xf61e2562, 5), (F2, 6, 0xc040b340, 9), (F2, 11, 0x265e5a51, 14), (F2, 0, 0xe9b6c7aa, 20),
     (F2, 5, 0xd62f105d, 5), (F2, 10, 0x02441453, 9), (F2, 15, 0xd8a1e681, 14), (F2, 4, 0xe7d3fbc8, 20),
     (F2, 9, 0x21e1cde6, 5), (F2, 14, 0xc33707d6, 9), (F2, 3, 0xf4d50d87, 14), (F2, 8, 0x455a14ed, 20),
     (F2, 13, 0xa9e3e905, 5), (F2, 2, 0xfcefa3f8, 9), (F2, 7, 0x676f02d9, 14), (F2, 12, 0x8d2a4c8a, 20),
     (F3, 5, 0xfffa3942, 4), (F3, 8, 0x8771f681, 11), (F3, 11, 0x6d9d6122, 16), (F3, 14, 0xfde5380c, 23),
     (F3, 1, 0xa4beea44, 4), (F3, 4, 0x4bdecfa9, 11), (F3, 7, 0xf6bb4b60, 16), (F3, 10, 0xbebfbc70, 23),
     (F3, 13, 0x289b7ec6, 4), (F3, 0, 0xeaa127fa, 11), (F3, 3, 0xd4ef3085, 16), (F3, 6, 0x04881d05, 23),
     (F3, 9, 0xd9d4d039, 4), (F3, 12, 0xe6db99e5, 11), (F3, 15, 0x1fa27cf8, 16), (F3, 2, 0xc4ac5665, 23),
     (F4, 0, 0xf4292244, 6), (F4, 7, 0x432aff97, 10), (F4, 14, 0xab9423a7, 15), (F4, 5, 0xfc93a039, 21),
     (F4, 12, 0x655b59c3, 6), (F4, 3, 0x8f0ccc92, 10), (F4, 10, 0xffeff47d, 15), (F4, 1, 0x85845dd1, 21),
     (F4, 8, 0x6fa87e4f, 6), (F4, 15, 0xfe2ce6e0, 10), (F4, 6, 0xa3014314, 15), (F4, 13, 0x4e0811a1, 21),
     (F4, 4, 0xf7537e82, 6), (F4, 11, 0xbd3af235, 10), (F4, 2, 0x2ad7d2bb, 15), (F4, 9, 0xeb86d391, 21)]"

fun md5_round :: "u32 list \<Rightarrow> (u32 \<Rightarrow> u32 \<Rightarrow> u32 \<Rightarrow> u32) \<times> nat \<times> u32 \<times> nat \<Rightarrow> u32 \<times> u32 \<times> u32 \<times> u32 \<Rightarrow> u32 \<times> u32 \<times> u32 \<times> u32" where
  "md5_round inp (f, k, c, s) (a, b, x, d) = (d, MD5STEP f a b x d (inp ! k + c) s, b, x)"

definition MD5Transform :: "u32 list \<Rightarrow> u32 \<times> u32 \<times> u32 \<times> u32 \<Rightarrow> u32 \<times> u32 \<times> u32 \<times> u32" where
  "MD5Transform inp buf =
     (case fold (md5_round inp) md5_steps buf of (a, b, c, d) \<Rightarrow>
        case buf of (a0, b0, c0, d0) \<Rightarrow> (a0 + a, b0 + b, c0 + c, d0 + d))"

text \<open>\<open>byteReverse\<close>, on machines that need it: bytes as words, the lowest first.\<close>

fun words_of :: "bytes \<Rightarrow> u32 list" where
  "words_of (a # b # c # d # bs) =
     (push_bit 16 (push_bit 8 (ucast d) OR ucast c) OR (push_bit 8 (ucast b) OR ucast a)) # words_of bs"
| "words_of bs = []"

definition MD5Init :: "bytes \<Rightarrow> md5_ctx" where
  "MD5Init inp = \<lparr>md5_buf = (0x67452301, 0xefcdab89, 0x98badcfe, 0x10325476), md5_bits = (0, 0), md5_in = inp\<rparr>"

definition md5_block :: "bytes \<Rightarrow> md5_ctx \<Rightarrow> md5_ctx" where
  "md5_block block ctx = ctx\<lparr>md5_in := block, md5_buf := MD5Transform (words_of block) (md5_buf ctx)\<rparr>"

function md5_blocks :: "bytes \<Rightarrow> md5_ctx \<Rightarrow> md5_ctx" where
  "md5_blocks buf ctx =
     (if length buf \<ge> 64 then md5_blocks (drop 64 buf) (md5_block (take 64 buf) ctx)
      else ctx\<lparr>md5_in := splice_at 0 buf (md5_in ctx)\<rparr>)"
  by auto
termination by (relation "measure (\<lambda>(buf, ctx). length buf)") auto

declare md5_blocks.simps [simp del]

definition md5_count :: "u32 \<Rightarrow> u32 \<times> u32 \<Rightarrow> u32 \<times> u32" where
  "md5_count len bits =
     (case bits of (t, hi) \<Rightarrow>
        let lo = t + push_bit 3 len;
            hi = (if lo < t then hi + 1 else hi)
        in (lo, hi + drop_bit 29 len))"

definition MD5Update :: "bytes \<Rightarrow> md5_ctx \<Rightarrow> md5_ctx" where
  "MD5Update buf ctx =
     (let t = unat (drop_bit 3 (fst (md5_bits ctx)) AND 0x3F);
          ctx = ctx\<lparr>md5_bits := md5_count (of_nat (length buf)) (md5_bits ctx)\<rparr>
      in if t \<noteq> 0
         then let n = 64 - t
              in if length buf < n then ctx\<lparr>md5_in := splice_at t buf (md5_in ctx)\<rparr>
                 else md5_blocks (drop n buf) (md5_block (splice_at t (take n buf) (md5_in ctx)) ctx)
         else md5_blocks buf ctx)"

definition MD5Final :: "md5_ctx \<Rightarrow> bytes" where
  "MD5Final ctx =
     (let count = unat (drop_bit 3 (fst (md5_bits ctx)) AND 0x3F);
          inp = splice_at count [0x80] (md5_in ctx);
          p = count + 1;
          count = 64 - 1 - count;
          ctx = (if count < 8 then md5_block (splice_at p (replicate count 0) inp) ctx else ctx);
          inp = (if count < 8 then splice_at 0 (replicate 56 0) (md5_in ctx)
                 else splice_at p (replicate (count - 8) 0) inp);
          w = (words_of inp)[14 := fst (md5_bits ctx), 15 := snd (md5_bits ctx)]
      in case MD5Transform w (md5_buf ctx) of (a, b, c, d) \<Rightarrow>
           le_bytes 4 a @ le_bytes 4 b @ le_bytes 4 c @ le_bytes 4 d)"

section \<open>The reference\<close>

text \<open>The message, a byte 0x80, zeros up to 56 modulo 64 and the number of bits modulo 2^64.\<close>

definition md5_padded :: "bytes \<Rightarrow> bytes" where
  "md5_padded m =
     m @ [0x80] @ replicate ((119 - length m mod 64) mod 64) 0 @ le_bytes 8 (of_nat (8 * length m) :: u64)"

fun md5_chain :: "bytes \<Rightarrow> u32 \<times> u32 \<times> u32 \<times> u32 \<Rightarrow> u32 \<times> u32 \<times> u32 \<times> u32" where
  "md5_chain m st = (if length m < 64 then st else md5_chain (drop 64 m) (MD5Transform (words_of (take 64 m)) st))"

declare md5_chain.simps [simp del]

definition md5_digest :: "bytes \<Rightarrow> bytes" where
  "md5_digest m =
     (case md5_chain (md5_padded m) (0x67452301, 0xefcdab89, 0x98badcfe, 0x10325476) of (a, b, c, d) \<Rightarrow>
        le_bytes 4 a @ le_bytes 4 b @ le_bytes 4 c @ le_bytes 4 d)"

section \<open>Words and blocks\<close>

lemma words_of_append: "4 dvd length a \<Longrightarrow> words_of (a @ b) = words_of a @ words_of b"
proof (induction a rule: words_of.induct)
  case (1 a b c d bs)
  have "4 dvd length bs" using dvd_diff_nat [OF "1.prems" dvd_refl] by simp
  then show ?case using "1.IH" by simp
qed (auto dest: dvd_imp_le)

lemma length_words_of: "length (words_of bs) = length bs div 4"
  by (induction bs rule: words_of.induct) (simp_all add: div_if)

lemma words_of_le_bytes:
  "words_of (le_bytes 8 v) = [ucast v, ucast (drop_bit 32 v)]" for v :: u64
proof -
  have l: "le_bytes 8 v = [ucast v, ucast (drop_bit 8 v), ucast (drop_bit 16 v), ucast (drop_bit 24 v),
      ucast (drop_bit 32 v), ucast (drop_bit 40 v), ucast (drop_bit 48 v), ucast (drop_bit 56 v)]"
    by (simp add: le_bytes_def upt_rec)
  have w: "push_bit 16 (push_bit 8 (ucast (ucast (drop_bit 24 x) :: u8)) OR ucast (ucast (drop_bit 16 x) :: u8)) OR
      (push_bit 8 (ucast (ucast (drop_bit 8 x) :: u8)) OR ucast (ucast x :: u8)) = (ucast x :: u32)" for x :: u64
  proof (rule bit_word_eqI)
    fix n assume "n < LENGTH(32)"
    then consider "n < 8" | k where "n = k + 8" "k < 8" | k where "n = k + 16" "k < 8" | k where "n = k + 24" "k < 8"
    proof -
      assume n: "n < LENGTH(32)"
      have "n < 8 \<or> (8 \<le> n \<and> n - 8 < 8) \<or> (16 \<le> n \<and> n - 16 < 8) \<or> (24 \<le> n \<and> n - 24 < 8)" using n by auto
      then show thesis using that by (metis le_add_diff_inverse2)
    qed
    then show "bit (push_bit 16 (push_bit 8 (ucast (ucast (drop_bit 24 x) :: u8)) OR ucast (ucast (drop_bit 16 x) :: u8)) OR
      (push_bit 8 (ucast (ucast (drop_bit 8 x) :: u8)) OR ucast (ucast x :: u8)) :: u32) n = bit (ucast x :: u32) n"
      by cases (auto simp: bit_simps ac_simps)
  qed
  show ?thesis unfolding l using w [of v] w [of "drop_bit 32 v"] by simp
qed

lemma md5_chain_append:
  "64 dvd length m \<Longrightarrow> md5_chain (m @ x) st = md5_chain x (md5_chain m st)"
proof (induction m st rule: md5_chain.induct)
  case (1 m st)
  show ?case
  proof (cases "length m < 64")
    case True
    then have "m = []" using "1.prems" by (auto dest: dvd_imp_le)
    then show ?thesis by (simp add: md5_chain.simps [of "[]"])
  next
    case False
    then have "64 dvd length (drop 64 m)" using "1.prems" by (simp add: dvd_diff_nat)
    then show ?thesis using "1.IH" False
      by (simp add: md5_chain.simps [of m] md5_chain.simps [of "m @ x"])
  qed
qed

lemma md5_chain_short: "length m < 64 \<Longrightarrow> md5_chain m st = st"
  by (simp add: md5_chain.simps)

lemma md5_chain_block: "length m = 64 \<Longrightarrow> md5_chain m st = MD5Transform (words_of m) st"
  by (simp add: md5_chain.simps)

section \<open>The state after a message\<close>

definition md5_rest :: "bytes \<Rightarrow> bytes" where
  "md5_rest m = drop (length m - length m mod 64) m"

definition md5_whole :: "bytes \<Rightarrow> bytes" where
  "md5_whole m = take (length m - length m mod 64) m"

lemma md5_split: "m = md5_whole m @ md5_rest m" "64 dvd length (md5_whole m)" "length (md5_rest m) = length m mod 64"
  by (simp_all add: md5_whole_def md5_rest_def dvd_minus_mod min.absorb2)

definition absorbed :: "bytes \<Rightarrow> md5_ctx \<Rightarrow> bool" where
  "absorbed m ctx \<longleftrightarrow>
     md5_buf ctx = md5_chain m (0x67452301, 0xefcdab89, 0x98badcfe, 0x10325476) \<and>
     unat (fst (md5_bits ctx)) = 8 * length m mod 2 ^ 32 \<and>
     unat (snd (md5_bits ctx)) = 8 * length m div 2 ^ 32 mod 2 ^ 32 \<and>
     length (md5_in ctx) = 64 \<and> take (length m mod 64) (md5_in ctx) = md5_rest m"

lemma fill_level:
  assumes "absorbed m ctx"
  shows "unat (drop_bit 3 (fst (md5_bits ctx)) AND 0x3F) = length m mod 64"
proof -
  have "unat (w AND 0x3F) = unat w mod 64" for w :: u32 using unat_and_low [of w 6] by (simp add: mask_eq_exp_minus_1)
  then have "unat (drop_bit 3 (fst (md5_bits ctx)) AND 0x3F) = 8 * length m mod 2 ^ 32 div 8 mod 64"
    using assms by (simp add: absorbed_def unat_drop_bit)
  also have "8 * length m mod 2 ^ 32 div 8 = length m mod 2 ^ 29" 
    using mult_mod_right [of 8 "length m" "2 ^ 29"] by simp
  also have "length m mod 2 ^ 29 mod 64 = length m mod 64" by (rule mod_mod_cancel) simp
  finally show ?thesis .
qed

lemma carry:
  assumes "(t :: nat) < M" and "r < M"
  shows "(t + r) mod M < t \<longleftrightarrow> M \<le> t + r" and "(t + r) div M = of_bool (M \<le> t + r)"
proof -
  have "(t + r) mod M = (if M \<le> t + r then t + r - M else t + r)" using assms by (simp add: mod_if)
  then show "(t + r) mod M < t \<longleftrightarrow> M \<le> t + r" using assms by auto
  show "(t + r) div M = of_bool (M \<le> t + r)"
  proof (cases "M \<le> t + r")
    case True
    then have "(t + r) div M = Suc ((t + r - M) div M)" using assms by (simp add: le_div_geq)
    then show ?thesis using True assms by simp
  qed (use assms in simp)
qed

lemma md5_count_ok:
  assumes t: "unat (fst b) = x mod 2 ^ 32" and h: "unat (snd b) = x div 2 ^ 32 mod 2 ^ 32" and n: "n < 2 ^ 32"
  shows "unat (fst (md5_count (of_nat n) b)) = (x + 8 * n) mod 2 ^ 32" (is ?lo)
    and "unat (snd (md5_count (of_nat n) b)) = (x + 8 * n) div 2 ^ 32 mod 2 ^ 32" (is ?hi)
proof -
  obtain lo hi where b: "b = (lo, hi)" by (cases b)
  let ?r = "8 * n mod 2 ^ 32" and ?q = "8 * n div 2 ^ 32" and ?t = "x mod 2 ^ 32"
  have u: "unat (of_nat n :: u32) = n" using n by (simp add: unat_of_nat)
  have r: "unat (push_bit 3 (of_nat n) :: u32) = ?r"
    by (simp add: push_bit_eq_mult unat_word_ariths u mult.commute)
  have q: "unat (drop_bit 29 (of_nat n) :: u32) = ?q"
    by (simp add: unat_drop_bit u)
  have lo: "unat (lo + push_bit 3 (of_nat n)) = (?t + ?r) mod 2 ^ 32" using t by (simp add: b unat_word_ariths r)
  then show ?lo by (simp add: b md5_count_def Let_def mod_add_eq)
  have c: "lo + push_bit 3 (of_nat n) < lo \<longleftrightarrow> 2 ^ 32 \<le> ?t + ?r"
    using carry(1) [of ?t "2 ^ 32" ?r] lo t by (simp only: b fst_conv word_less_nat_alt) simp
  have "(x + 8 * n) div 2 ^ 32 = x div 2 ^ 32 + ?q + (?t + ?r) div 2 ^ 32" by (rule div_add1_eq)
  also have "(?t + ?r) div 2 ^ 32 = of_bool (2 ^ 32 \<le> ?t + ?r)" by (rule carry(2)) simp_all
  finally have s: "(x + 8 * n) div 2 ^ 32 = x div 2 ^ 32 + ?q + of_bool (2 ^ 32 \<le> ?t + ?r)" .
  have "hi = of_nat (x div 2 ^ 32)" using h by (simp only: b snd_conv word_unat_eq_iff unat_of_nat) simp
  moreover have "drop_bit 29 (of_nat n) = (of_nat ?q :: u32)" 
    unfolding word_unat_eq_iff q unat_of_nat using n by (intro mod_less [symmetric]) (simp add: less_mult_imp_div_less)
  ultimately have "snd (md5_count (of_nat n) b) = of_nat (x div 2 ^ 32 + ?q + of_bool (2 ^ 32 \<le> ?t + ?r))"
    unfolding md5_count_def b prod.case Let_def c snd_conv of_nat_add by (simp del: of_nat_div)
  then show ?hi unfolding s by (simp only: unat_of_nat) simp
qed

lemma md5_rest_append: "64 dvd length w \<Longrightarrow> md5_rest (w @ x) = md5_rest x"
proof -
  assume "64 dvd length w"
  then have "length (w @ x) mod 64 = length x mod 64" by auto
  moreover have "length x mod 64 \<le> length x" by (rule mod_less_eq_dividend)
  ultimately show ?thesis by (simp add: md5_rest_def)
qed

lemma md5_rest_short: "length x < 64 \<Longrightarrow> md5_rest x = x"
  by (simp add: md5_rest_def)

lemma md5_chain_rest: "md5_chain (md5_whole m @ x) st = md5_chain x (md5_chain m st)"
proof -
  have "md5_chain m st = md5_chain (md5_rest m) (md5_chain (md5_whole m) st)"
    by (subst md5_split(1)) (rule md5_chain_append [OF md5_split(2)])
  also have "\<dots> = md5_chain (md5_whole m) st" by (rule md5_chain_short) (simp add: md5_split(3))
  finally show ?thesis using md5_chain_append [OF md5_split(2)] by simp
qed

lemma md5_blocks_ok:
  "length (md5_in ctx) = 64 \<Longrightarrow>
    md5_buf (md5_blocks x ctx) = md5_chain x (md5_buf ctx) \<and> md5_bits (md5_blocks x ctx) = md5_bits ctx \<and>
    length (md5_in (md5_blocks x ctx)) = 64 \<and> take (length x mod 64) (md5_in (md5_blocks x ctx)) = md5_rest x"
proof (induction x ctx rule: md5_blocks.induct)
  case (1 x ctx)
  show ?case
  proof (cases "64 \<le> length x")
    case True
    have "length x mod 64 = length (drop 64 x) mod 64" using True by (simp add: le_mod_geq)
    moreover have "md5_rest x = md5_rest (drop 64 x)"
      using md5_rest_append [of "take 64 x" "drop 64 x"] True by simp
    ultimately show ?thesis using "1.IH" True
      by (simp add: md5_blocks.simps [of x] md5_chain.simps [of x] md5_block_def)
  next
    case False
    then show ?thesis using "1.prems"
      by (simp add: md5_blocks.simps [of x] md5_chain_short md5_rest_short splice_at_def)
  qed
qed

lemma absorbed_init: "length inp = 64 \<Longrightarrow> absorbed [] (MD5Init inp)"
  by (simp add: absorbed_def MD5Init_def md5_chain_short md5_rest_short)

lemma absorbed_update:
  assumes a: "absorbed m ctx" and d: "length x < 2 ^ 32"
  shows "absorbed (m @ x) (MD5Update x ctx)"
proof -
  let ?r = "length m mod 64" and ?ctx = "ctx\<lparr>md5_bits := md5_count (of_nat (length x)) (md5_bits ctx)\<rparr>"
  let ?iv = "(0x67452301, 0xefcdab89, 0x98badcfe, 0x10325476) :: u32 \<times> u32 \<times> u32 \<times> u32"
  from a have buf: "md5_buf ctx = md5_chain m ?iv" and len: "length (md5_in ctx) = 64" and rest: "take ?r (md5_in ctx) = md5_rest m"
    by (simp_all add: absorbed_def)
  have split: "m @ x = md5_whole m @ (md5_rest m @ x)" using md5_split(1) [of m] by simp
  have "8 * length (m @ x) = 8 * length m + 8 * length x" by simp
  then have bits: "unat (fst (md5_bits ?ctx)) = 8 * length (m @ x) mod 2 ^ 32"
      "unat (snd (md5_bits ?ctx)) = 8 * length (m @ x) div 2 ^ 32 mod 2 ^ 32"
    using md5_count_ok [OF _ _ d, of "md5_bits ctx" "8 * length m"] a by (simp_all add: absorbed_def)
  have chain: "md5_chain (m @ x) ?iv = md5_chain (md5_rest m @ x) (md5_buf ctx)"
    unfolding split buf by (rule md5_chain_rest)
  have tail: "md5_rest (m @ x) = md5_rest (md5_rest m @ x)"
    unfolding split by (rule md5_rest_append [OF md5_split(2)])
  have lm: "length (m @ x) mod 64 = length (md5_rest m @ x) mod 64" by (simp add: md5_split(3) mod_add_left_eq)
  have up: "MD5Update x ctx = (if ?r \<noteq> 0
      then if length x < 64 - ?r then ?ctx\<lparr>md5_in := splice_at ?r x (md5_in ctx)\<rparr>
           else md5_blocks (drop (64 - ?r) x) (md5_block (splice_at ?r (take (64 - ?r) x) (md5_in ctx)) ?ctx)
      else md5_blocks x ?ctx)"
    by (simp only: MD5Update_def fill_level [OF a] Let_def) simp
  consider "?r = 0" | "?r \<noteq> 0" "length x < 64 - ?r" | "?r \<noteq> 0" "64 - ?r \<le> length x" by linarith
  then show ?thesis
  proof cases
    case 1
    then have "md5_rest m = []" using md5_split(3) [of m] by simp
    then show ?thesis using 1 md5_blocks_ok [of ?ctx x] len bits chain tail lm
      by (simp add: absorbed_def up)
  next
    case 2
    have l: "length (md5_rest m @ x) = ?r + length x" "?r + length x < 64" using 2 by (simp_all add: md5_split(3))
    have "take (?r + length x) (splice_at ?r x (md5_in ctx)) = md5_rest m @ x"
      using 2 len rest by (simp add: splice_at_def min_def md5_split(3))
    moreover have "length (m @ x) mod 64 = ?r + length x" unfolding lm l(1) using l(2) by simp
    ultimately show ?thesis using 2 len bits chain tail buf md5_chain_short [of "md5_rest m @ x"] md5_rest_short [of "md5_rest m @ x"] l
      by (simp add: absorbed_def up)
  next
    case 3
    let ?b = "splice_at ?r (take (64 - ?r) x) (md5_in ctx)" and ?y = "drop (64 - ?r) x"
    have r: "?r < 64" by simp
    have b: "?b = md5_rest m @ take (64 - ?r) x" "length ?b = 64"
      using 3 len rest r by (simp_all add: splice_at_def md5_split(3))
    let ?u = "md5_blocks ?y (md5_block ?b ?ctx)"
    have u: "md5_buf ?u = md5_chain ?y (MD5Transform (words_of ?b) (md5_buf ctx))" "md5_bits ?u = md5_bits ?ctx"
      "length (md5_in ?u) = 64" "take (length ?y mod 64) (md5_in ?u) = md5_rest ?y"
      using md5_blocks_ok [of "md5_block ?b ?ctx" ?y] b(2) by (simp_all add: md5_block_def)
    have whole: "md5_chain (w @ ?y) st = md5_chain ?y (MD5Transform (words_of w) st)" "md5_rest (w @ ?y) = md5_rest ?y"
      "length (w @ ?y) mod 64 = length ?y mod 64" if "length w = 64" for w st
      using that by (simp_all add: md5_chain_append md5_chain_block md5_rest_append)
    have e: "md5_rest m @ x = ?b @ ?y" unfolding b by simp
    have "md5_chain (m @ x) ?iv = md5_chain ?y (MD5Transform (words_of ?b) (md5_buf ctx))"
        "md5_rest (m @ x) = md5_rest ?y" "length (m @ x) mod 64 = length ?y mod 64"
      by (simp_all only: chain tail lm e whole [OF b(2)])
    moreover have "MD5Update x ctx = ?u" using 3 up by simp
    ultimately show ?thesis using u bits by (simp only: absorbed_def simp_thms)
  qed
qed

lemma update_last_two: "length A = n \<Longrightarrow> (A @ [a, b])[n := x, Suc n := y] = A @ [x, y]"
  by (induction A arbitrary: n) auto

lemma words_of_length:
  assumes "length inp = 64"
  shows "(words_of inp)[14 := lo, 15 := hi] = words_of (take 56 inp) @ [lo, hi]"
proof -
  let ?A = "words_of (take 56 inp)" and ?B = "words_of (drop 56 inp)"
  have "words_of (take 56 inp @ drop 56 inp) = ?A @ ?B" using assms by (intro words_of_append) simp
  then have "words_of inp = ?A @ ?B" by (simp only: append_take_drop_id)
  moreover have "length ?B = 2" "length ?A = 14" using assms by (simp_all add: length_words_of)
  moreover have "\<exists>a b. l = [a, b]" if "length l = 2" for l :: "u32 list"
    using that by (cases l; cases "tl l") auto
  ultimately obtain a b where "words_of inp = ?A @ [a, b]" by metis
  then show ?thesis using update_last_two [of ?A 14 a b lo hi] \<open>length ?A = 14\<close> by simp
qed

lemma take_splice: "p \<le> length m \<Longrightarrow> n = p + length xs \<Longrightarrow> take n (splice_at p xs m) = take p m @ xs"
  by (simp add: splice_at_def)

lemma md5_final:
  assumes a: "absorbed m ctx"
  shows "MD5Final ctx = md5_digest m"
proof -
  define r where "r = length m mod 64"
  let ?iv = "(0x67452301, 0xefcdab89, 0x98badcfe, 0x10325476) :: u32 \<times> u32 \<times> u32 \<times> u32"
  let ?v = "of_nat (8 * length m) :: u64"
  have rl: "r < 64" by (simp add: r_def)
  from a have buf: "md5_buf ctx = md5_chain m ?iv" and len: "length (md5_in ctx) = 64" and rest: "take r (md5_in ctx) = md5_rest m"
    by (simp_all add: absorbed_def r_def)
  have ext: "x = y" if "unat x = unat y" for x y :: u32 using that by (simp only: word_unat_eq_iff)
  have v: "unat ?v = 8 * length m mod 2 ^ 64" by (simp only: unat_of_nat) simp
  have bits: "[fst (md5_bits ctx), snd (md5_bits ctx)] = words_of (le_bytes 8 ?v)"
  proof -
    have u: "unat (ucast w :: u32) = unat w mod 2 ^ 32" for w :: u64 by (simp add: unsigned_ucast_eq take_bit_nat_def)
    have "8 * length m mod 2 ^ 64 mod 2 ^ 32 = 8 * length m mod 2 ^ 32" by (rule mod_mod_cancel) (rule le_imp_power_dvd, simp)
    then have "fst (md5_bits ctx) = ucast ?v"
      using a unfolding absorbed_def by (intro ext) (simp only: u v)
    moreover have "8 * length m mod 2 ^ 64 div 2 ^ 32 mod 2 ^ 32 = 8 * length m div 2 ^ 32 mod 2 ^ 32"
    proof -
      have "(x :: nat) mod (b * b) div b mod b = x div b mod b" if "0 < b" for x b
        using that by (simp add: mod_mult2_eq)
      from this [of "2 ^ 32" "8 * length m"] show ?thesis by (simp add: power_mult_distrib flip: power_add)
    qed
    then have "snd (md5_bits ctx) = ucast (drop_bit 32 ?v)"
      using a unfolding absorbed_def by (intro ext) (simp only: u v unat_drop_bit)
    ultimately show ?thesis by (simp only: words_of_le_bytes)
  qed
  let ?z = "(119 - r) mod 64" and ?l8 = "le_bytes 8 ?v"
  have p: "md5_chain (md5_padded m) ?iv = md5_chain (md5_rest m @ [0x80] @ replicate ?z 0 @ ?l8) (md5_buf ctx)"
  proof -
    have "md5_padded m = (md5_whole m @ md5_rest m) @ [0x80] @ replicate ?z 0 @ ?l8"
      unfolding md5_split(1) [symmetric] md5_padded_def r_def by (rule refl)
    then have "md5_padded m = md5_whole m @ (md5_rest m @ [0x80] @ replicate ?z 0 @ ?l8)" by (simp only: append_assoc)
    then show ?thesis unfolding buf by (simp only: md5_chain_rest)
  qed
  have lr: "length (md5_rest m) = r" by (simp add: md5_split(3) r_def)
  let ?i1 = "splice_at r [0x80] (md5_in ctx)"
  have i1: "length ?i1 = 64" "take (r + 1) ?i1 = md5_rest m @ [0x80]"
    using len rest lr rl by (simp_all add: splice_at_def)
  have fin: "MD5Transform ((words_of inp)[14 := fst (md5_bits ctx), 15 := snd (md5_bits ctx)]) st = md5_chain (take 56 inp @ ?l8) st"
    if "length inp = 64" for inp st
    using that bits words_of_append [of "take 56 inp" ?l8]
    by (simp add: words_of_length md5_chain_block)
  have lvl: "unat (drop_bit 3 (fst (md5_bits ctx)) AND 0x3F) = r" unfolding r_def by (rule fill_level [OF a])
  have "(case md5_chain (md5_padded m) ?iv of (a, b, c, d) \<Rightarrow> le_bytes 4 a @ le_bytes 4 b @ le_bytes 4 c @ le_bytes 4 d) = MD5Final ctx"
  proof (cases "64 - 1 - r < 8")
    case False
    let ?i = "splice_at (r + 1) (replicate (64 - 1 - r - 8) 0) ?i1"
    have "119 - r = 55 - r + 64" using False by linarith
    then have "?z = (55 - r + 64) mod 64" by (simp only:)
    also have "\<dots> = 55 - r" by (subst mod_add_self2, rule mod_less) linarith
    finally have z: "?z = 55 - r" .
    have n: "64 - 1 - r - 8 = 55 - r" by linarith
    have l: "length ?i = 64" using False i1(1) by (subst length_splice_at) auto
    have "take 56 ?i = take (r + 1) ?i1 @ replicate (64 - 1 - r - 8) 0"
      using False i1(1) by (intro take_splice) auto
    then have t: "take 56 ?i @ ?l8 = md5_rest m @ [0x80] @ replicate ?z 0 @ ?l8" unfolding i1(2) n z by simp
    show ?thesis unfolding p MD5Final_def Let_def lvl if_not_P [OF False] fin [OF l] t by (rule refl)
  next
    case True
    let ?b = "splice_at (r + 1) (replicate (64 - 1 - r) 0) ?i1"
    let ?ctx = "md5_block ?b ctx"
    let ?i = "splice_at 0 (replicate 56 0) (md5_in ?ctx)"
    have z: "?z = 64 - 1 - r + 56" using True rl by simp
    have b: "?b = md5_rest m @ [0x80] @ replicate (64 - 1 - r) 0" "length ?b = 64"
    proof -
      show l: "length ?b = 64" using i1(1) rl by (subst length_splice_at) auto
      have "take 64 ?b = take (r + 1) ?i1 @ replicate (64 - 1 - r) 0" using i1(1) rl by (intro take_splice) auto
      then show "?b = md5_rest m @ [0x80] @ replicate (64 - 1 - r) 0" using l unfolding i1(2) by simp
    qed
    have lb: "length (md5_in ?ctx) = 64" using b(2) by (simp add: md5_block_def)
    have i: "take 56 ?i = replicate 56 0" "length ?i = 64"
      using take_splice [of 0 "md5_in ?ctx" 56 "replicate 56 0"] lb by (simp, subst length_splice_at) simp_all
    have "md5_chain (md5_rest m @ [0x80] @ replicate ?z 0 @ ?l8) (md5_buf ctx) = md5_chain (?b @ replicate 56 0 @ ?l8) (md5_buf ctx)"
      unfolding z replicate_add b(1) by simp
    also have "\<dots> = md5_chain (replicate 56 0 @ ?l8) (md5_buf ?ctx)"
      using b(2) by (simp add: md5_chain_append md5_chain_block md5_block_def)
    finally have t: "md5_chain (md5_rest m @ [0x80] @ replicate ?z 0 @ ?l8) (md5_buf ctx) = md5_chain (take 56 ?i @ ?l8) (md5_buf ?ctx)"
      unfolding i(1) .
    have same: "md5_bits ?ctx = md5_bits ctx" by (simp add: md5_block_def)
    show ?thesis unfolding p t MD5Final_def Let_def lvl if_P [OF True] same fin [OF i(2)] by (rule refl)
  qed
  then show ?thesis by (simp add: md5_digest_def)
qed

text \<open>
  C25. The digest does not depend on the pieces: a message that is given to \<open>MD5Update\<close> piece by
  piece, each of a length that an \<open>unsigned\<close> holds, gets the digest of the whole message by the
  reference definition, whatever the block held at first.
\<close>

theorem md5_streaming:
  assumes "\<forall>x \<in> set pieces. length x < 2 ^ 32" and "length inp = 64"
  shows "MD5Final (fold MD5Update pieces (MD5Init inp)) = md5_digest (concat pieces)"
proof -
  have "absorbed (m @ concat pieces) (fold MD5Update pieces ctx)"
    if "absorbed m ctx" "\<forall>x \<in> set pieces. length x < 2 ^ 32" for m ctx and pieces :: "bytes list"
    using that
  proof (induction pieces arbitrary: m ctx)
    case (Cons x pieces)
    then show ?case using absorbed_update [of m ctx x] by (metis append_assoc concat.simps(2) fold_simps(2) list.set_intros)
  qed simp
  from this [OF absorbed_init [OF assms(2)] assms(1)] show ?thesis using md5_final by simp
qed

theorem md5_streaming_witness:
  "MD5Final (fold MD5Update [bytes_of ''a'', bytes_of ''bc''] (MD5Init (replicate 64 0))) = md5_digest (bytes_of ''abc'')"
  using md5_streaming [of "[bytes_of ''a'', bytes_of ''bc'']" "replicate 64 0"] by (simp add: bytes_of_def)

end
