(* ===== verification/Md5Vector.thy ===== *)
theory Md5Vector
  imports Md5
begin

text \<open>A test vector of the standard, which ties the tables to the algorithm.\<close>

lemma md5_abc:
  "md5_digest (bytes_of ''abc'') =
     [0x90, 0x01, 0x50, 0x98, 0x3c, 0xd2, 0x4f, 0xb0, 0xd6, 0x96, 0x3f, 0x7d, 0x28, 0xe1, 0x7f, 0x72]"
  by code_simp

end
