(* ===== verification/PermText.thy ===== *)
theory PermText
  imports Prelude
begin

text \<open>
  The permanent text storage of \<open>asm/labels.c\<close>: blocks of bytes from which strings are cut one
  after the other and which are freed only all together.
\<close>

section \<open>Model\<close>

text \<open>A block, and the chain of blocks up to \<open>perm_tail\<close>, the last. A pointer is a block and an offset.\<close>

record permts =
  pt_size :: u32
  pt_usage :: u32
  pt_data :: bytes

type_synonym perm_ptr = "nat \<times> nat"

definition PERMTS_SIZE :: nat where "PERMTS_SIZE = 16384"

text \<open>The contents of fresh memory are a parameter, by the number of the block.\<close>

definition permts_init :: "(nat \<Rightarrow> nat \<Rightarrow> u8) \<Rightarrow> permts list" where
  "permts_init mem = [\<lparr>pt_size = of_nat PERMTS_SIZE, pt_usage = 0, pt_data = map (mem 0) [0..<PERMTS_SIZE]\<rparr>]"

definition perm_alloc :: "(nat \<Rightarrow> nat \<Rightarrow> u8) \<Rightarrow> u64 \<Rightarrow> permts list \<Rightarrow> perm_ptr \<times> permts list" where
  "perm_alloc mem len ts =
     (let full = ucast (pt_size (last ts) - pt_usage (last ts)) < len;
          alloc_len = (if len > of_nat PERMTS_SIZE then len else of_nat PERMTS_SIZE);
          ts = (if full
                then ts @ [\<lparr>pt_size = ucast alloc_len, pt_usage = 0, pt_data = map (mem (length ts)) [0..<unat alloc_len]\<rparr>]
                else ts);
          p = (length ts - 1, unat (pt_usage (last ts)));
          used = (last ts)\<lparr>pt_usage := pt_usage (last ts) + ucast len\<rparr>
      in (p, ts[length ts - 1 := used]))"

text \<open>\<open>memcpy\<close> to a pointer.\<close>

definition perm_write :: "perm_ptr \<Rightarrow> bytes \<Rightarrow> permts list \<Rightarrow> permts list result" where
  "perm_write p s ts =
     (case p of (b, o') \<Rightarrow>
        guard (b < length ts \<and> o' + length s \<le> length (pt_data (ts ! b))) OutOfBounds
          (Inr (ts[b := (ts ! b)\<lparr>pt_data := splice_at o' s (pt_data (ts ! b))\<rparr>])))"

definition perm_copy :: "(nat \<Rightarrow> nat \<Rightarrow> u8) \<Rightarrow> bytes \<Rightarrow> permts list \<Rightarrow> (perm_ptr \<times> permts list) result" where
  "perm_copy mem s ts =
     (let (p, ts) = perm_alloc mem (of_nat (length s + 1)) ts
      in andthen (perm_write p (s @ [0]) ts) (\<lambda>ts. Inr (p, ts)))"

definition perm_copy3 :: "(nat \<Rightarrow> nat \<Rightarrow> u8) \<Rightarrow> bytes \<Rightarrow> bytes \<Rightarrow> bytes \<Rightarrow> permts list \<Rightarrow> (perm_ptr \<times> permts list) result" where
  "perm_copy3 mem s1 s2 s3 ts =
     (let l1 = length s1; l2 = length s2; l3 = length s3 + 1;
          ((b, o'), ts) = perm_alloc mem (of_nat (l1 + l2 + l3)) ts
      in andthen (perm_write (b, o') s1 ts) (\<lambda>ts.
         andthen (perm_write (b, o' + l1) s2 ts) (\<lambda>ts.
         andthen (perm_write (b, o' + l1 + l2) (s3 @ [0]) ts) (\<lambda>ts. Inr ((b, o'), ts)))))"

text \<open>The string at a pointer.\<close>

definition perm_string :: "permts list \<Rightarrow> perm_ptr \<Rightarrow> bytes option" where
  "perm_string ts p =
     (case p of (b, o') \<Rightarrow>
        if b < length ts \<and> 0 \<in> set (drop o' (pt_data (ts ! b)))
        then Some (takeWhile (\<lambda>c. c \<noteq> 0) (drop o' (pt_data (ts ! b)))) else None)"

section \<open>Strings stay where they are\<close>

definition permts_ok :: "permts list \<Rightarrow> bool" where
  "permts_ok ts \<longleftrightarrow> ts \<noteq> [] \<and> (\<forall>t \<in> set ts. length (pt_data t) = unat (pt_size t) \<and> unat (pt_usage t) \<le> unat (pt_size t))"

text \<open>A later state keeps the used part of every block.\<close>

definition perm_keeps :: "permts list \<Rightarrow> permts list \<Rightarrow> bool" where
  "perm_keeps ts ts' \<longleftrightarrow> length ts \<le> length ts' \<and>
     (\<forall>b < length ts. unat (pt_usage (ts ! b)) \<le> unat (pt_usage (ts' ! b)) \<and>
        take (unat (pt_usage (ts ! b))) (pt_data (ts' ! b)) = take (unat (pt_usage (ts ! b))) (pt_data (ts ! b)))"

text \<open>A string that ends in the used part.\<close>

definition perm_holds :: "permts list \<Rightarrow> perm_ptr \<Rightarrow> bytes \<Rightarrow> bool" where
  "perm_holds ts p s \<longleftrightarrow> (case p of (b, o') \<Rightarrow> b < length ts \<and> o' + length s < unat (pt_usage (ts ! b)) \<and>
     take (length s + 1) (drop o' (pt_data (ts ! b))) = s @ [0])"

lemma permts_init_ok: "permts_ok (permts_init mem)"
  by (simp add: permts_ok_def permts_init_def PERMTS_SIZE_def)

lemma perm_keeps_refl: "perm_keeps ts ts"
  by (simp add: perm_keeps_def)

lemma take_agree: "take (m :: nat) d = take m e \<Longrightarrow> n \<le> m \<Longrightarrow> take n d = take n e"
  by (metis min.absorb1 take_take)

lemma perm_keeps_trans:
  assumes a: "perm_keeps ts ts'" and b: "perm_keeps ts' ts''"
  shows "perm_keeps ts ts''"
  unfolding perm_keeps_def
proof (intro conjI allI impI)
  show "length ts \<le> length ts''" using a b by (simp add: perm_keeps_def)
  fix k assume k: "k < length ts"
  then have k': "k < length ts'" using a by (simp add: perm_keeps_def)
  have 1: "unat (pt_usage (ts ! k)) \<le> unat (pt_usage (ts' ! k))"
      "take (unat (pt_usage (ts ! k))) (pt_data (ts' ! k)) = take (unat (pt_usage (ts ! k))) (pt_data (ts ! k))"
    using a k by (simp_all add: perm_keeps_def)
  have 2: "unat (pt_usage (ts' ! k)) \<le> unat (pt_usage (ts'' ! k))"
      "take (unat (pt_usage (ts' ! k))) (pt_data (ts'' ! k)) = take (unat (pt_usage (ts' ! k))) (pt_data (ts' ! k))"
    using b k' by (simp_all add: perm_keeps_def)
  show "unat (pt_usage (ts ! k)) \<le> unat (pt_usage (ts'' ! k))" using 1(1) 2(1) by (rule order_trans)
  show "take (unat (pt_usage (ts ! k))) (pt_data (ts'' ! k)) = take (unat (pt_usage (ts ! k))) (pt_data (ts ! k))"
    using take_agree [OF 2(2) 1(1)] 1(2) by simp
qed

lemma perm_holds_keeps:
  assumes h: "perm_holds ts p s" and k: "perm_keeps ts ts'"
  shows "perm_holds ts' p s"
proof -
  obtain b o' where p: "p = (b, o')" by force
  let ?u = "unat (pt_usage (ts ! b))"
  from h have b: "b < length ts" "o' + length s < ?u" "take (length s + 1) (drop o' (pt_data (ts ! b))) = s @ [0]"
    by (simp_all add: perm_holds_def p)
  have t: "take ?u (pt_data (ts' ! b)) = take ?u (pt_data (ts ! b))" "?u \<le> unat (pt_usage (ts' ! b))" "b < length ts'"
    using k b(1) by (auto simp: perm_keeps_def)
  have "take (length s + 1) (drop o' d) = take (length s + 1) (drop o' (take ?u d))" for d :: bytes
    using b(2) by (simp add: drop_take min_def)
  then have "take (length s + 1) (drop o' (pt_data (ts' ! b))) = s @ [0]" using t(1) b(3) by metis
  then show ?thesis using t b by (simp add: perm_holds_def p)
qed

lemma perm_holds_string:
  assumes "perm_holds ts p s" and "cstring s"
  shows "perm_string ts p = Some s"
proof -
  obtain b o' where p: "p = (b, o')" by force
  let ?d = "drop o' (pt_data (ts ! b))"
  have "?d = take (length s + 1) ?d @ drop (length s + 1) ?d" by (rule append_take_drop_id [symmetric])
  also have "take (length s + 1) ?d = s @ [0]" using assms(1) by (simp add: perm_holds_def p)
  finally obtain r where d: "?d = s @ 0 # r" by simp
  have "takeWhile (\<lambda>c. c \<noteq> 0) (s @ 0 # r) = s"
    using assms(2) by (subst takeWhile_append2) (auto simp: cstring_def)
  then show ?thesis using assms(1) by (simp add: perm_string_def perm_holds_def p d)
qed

text \<open>An allocation returns a place behind everything used, within the data of its block.\<close>

lemma perm_alloc_cases:
  assumes ok: "permts_ok ts" and n: "0 < n" "n < 2 ^ 32"
  obtains (old) "perm_alloc mem (of_nat n) ts =
      ((length ts - 1, unat (pt_usage (last ts))), ts[length ts - 1 := (last ts)\<lparr>pt_usage := pt_usage (last ts) + of_nat n\<rparr>])"
      "unat (pt_usage (last ts)) + n \<le> unat (pt_size (last ts))" "unat (pt_usage (last ts) + of_nat n) = unat (pt_usage (last ts)) + n"
  | (new) t where "perm_alloc mem (of_nat n) ts = ((length ts, 0), ts @ [t])" "unat (pt_usage t) = n"
      "n \<le> unat (pt_size t)" "length (pt_data t) = unat (pt_size t)"
proof -
  let ?t = "last ts"
  have ne: "ts \<noteq> []" and t: "unat (pt_usage ?t) \<le> unat (pt_size ?t)" using ok by (auto simp: permts_ok_def)
  have small: "m < 2 ^ 32 \<Longrightarrow> unat (of_nat m :: u32) = m" "m < 2 ^ 32 \<Longrightarrow> unat (of_nat m :: u64) = m" for m by (simp_all add: unat_of_nat)
  have uc: "ucast (of_nat m :: u64) = (of_nat m :: u32)" if "m < 2 ^ 32" for m
    using that small [of m] by (simp add: word_unat_eq_iff unsigned_ucast_eq take_bit_nat_eq_self)
  have lt: "unat w < 2 ^ 32" for w :: u32 using unsigned_less [of w, where 'a = nat] by simp
  let ?free = "pt_size ?t - pt_usage ?t"
  have "unat ?free = unat (pt_size ?t) - unat (pt_usage ?t)" using t by (simp add: unat_sub word_le_nat_alt)
  then have "unat (ucast ?free :: u64) = unat (pt_size ?t) - unat (pt_usage ?t)" using lt [of ?free] by (simp add: unsigned_ucast_eq take_bit_nat_eq_self)
  then have full: "ucast ?free < (of_nat n :: u64) \<longleftrightarrow> unat (pt_size ?t) - unat (pt_usage ?t) < n"
    using small n by (simp add: word_less_nat_alt)
  show thesis
  proof (cases "unat (pt_size ?t) - unat (pt_usage ?t) < n")
    case False
    have "unat (pt_usage ?t) + n < 2 ^ 32" using False t lt [of "pt_size ?t"] by simp
    then have "unat (pt_usage ?t + of_nat n) = unat (pt_usage ?t) + n" using small n by (simp add: unat_word_ariths)
    moreover have "unat (pt_usage ?t) + n \<le> unat (pt_size ?t)" using False t by simp
    ultimately show thesis using old False full n by (simp add: perm_alloc_def Let_def uc)
  next
    case True
    let ?l = "max n PERMTS_SIZE"
    have l: "?l < 2 ^ 32" using n by (simp add: PERMTS_SIZE_def)
    have al: "(if (of_nat n :: u64) > of_nat PERMTS_SIZE then of_nat n else of_nat PERMTS_SIZE) = (of_nat ?l :: u64)"
      using small n by (auto simp: word_less_nat_alt PERMTS_SIZE_def max_def)
    let ?n = "\<lparr>pt_size = of_nat ?l, pt_usage = of_nat n, pt_data = map (mem (length ts)) [0..<?l]\<rparr>"
    have "perm_alloc mem (of_nat n) ts = ((length ts, 0), ts @ [?n])"
      unfolding perm_alloc_def al using True full n uc [OF l] uc [OF n(2)] small [OF l] by (simp add: Let_def)
    then show thesis using new [of ?n] n l small by simp
  qed
qed

text \<open>Filling what was just allocated.\<close>

lemma perm_write_append:
  assumes "o' + length x + length y \<le> length (pt_data (ts ! b))" and "b < length ts"
  shows "andthen (perm_write (b, o') x ts) (perm_write (b, o' + length x) y) = perm_write (b, o') (x @ y) ts"
  using assms splice_at_append [of o' "pt_data (ts ! b)" x y] by (simp add: perm_write_def)

lemma perm_fill:
  assumes ok: "permts_ok ts" and w: "w \<noteq> []" "length w < 2 ^ 32"
  shows "\<exists>b o' ts1 ts'. perm_alloc mem (of_nat (length w)) ts = ((b, o'), ts1) \<and> perm_write (b, o') w ts1 = Inr ts' \<and>
    o' + length w \<le> length (pt_data (ts1 ! b)) \<and> b < length ts1 \<and>
    permts_ok ts' \<and> perm_keeps ts ts' \<and> b < length ts' \<and> o' + length w \<le> unat (pt_usage (ts' ! b)) \<and>
    take (length w) (drop o' (pt_data (ts' ! b))) = w"
proof -
  have n: "0 < length w" using w by simp
  have ne: "ts \<noteq> []" using ok by (simp add: permts_ok_def)
  then have lst: "last ts = ts ! (length ts - 1)" "length ts - 1 < length ts" by (simp_all add: last_conv_nth)
  from ok n w(2) show ?thesis
  proof (cases rule: perm_alloc_cases [where mem = mem])
    case old
    let ?t = "last ts" and ?k = "length ts - 1"
    let ?t' = "?t\<lparr>pt_usage := pt_usage ?t + of_nat (length w), pt_data := splice_at (unat (pt_usage ?t)) w (pt_data ?t)\<rparr>"
    have d: "length (pt_data ?t) = unat (pt_size ?t)" using ok ne by (simp add: permts_ok_def)
    have wr: "perm_write (?k, unat (pt_usage ?t)) w (ts[?k := ?t\<lparr>pt_usage := pt_usage ?t + of_nat (length w)\<rparr>]) = Inr (ts[?k := ?t'])"
      using lst(2) old(2) d by (simp add: perm_write_def)
    have "permts_ok (ts[?k := ?t'])"
      using ok old(2,3) d by (auto simp: permts_ok_def dest!: set_update_subset_insert [THEN subsetD])
    moreover have "perm_keeps ts (ts[?k := ?t'])"
      using old(2,3) d lst by (auto simp: perm_keeps_def nth_list_update splice_at_def)
    ultimately show ?thesis using old d wr lst(2)
      by (intro exI [of _ ?k] exI [of _ "unat (pt_usage ?t)"]) (simp add: splice_at_def)
  next
    case (new t)
    let ?t' = "t\<lparr>pt_data := splice_at 0 w (pt_data t)\<rparr>"
    have wr: "perm_write (length ts, 0) w (ts @ [t]) = Inr (ts @ [?t'])" using new by (simp add: perm_write_def)
    have "permts_ok (ts @ [?t'])" using ok new by (auto simp: permts_ok_def)
    moreover have "perm_keeps ts (ts @ [?t'])" by (simp add: perm_keeps_def nth_append)
    ultimately show ?thesis using new wr
      by (intro exI [of _ "length ts"] exI [of _ 0]) (simp add: splice_at_def)
  qed
qed

lemma perm_copy_ok:
  assumes ok: "permts_ok ts" and l: "length s + 1 < 2 ^ 32"
  shows "\<exists>p ts'. perm_copy mem s ts = Inr (p, ts') \<and> permts_ok ts' \<and> perm_keeps ts ts' \<and> perm_holds ts' p s"
proof -
  from perm_fill [OF ok, of "s @ [0]" mem] l obtain b o' ts1 ts' where
    "perm_alloc mem (of_nat (length s + 1)) ts = ((b, o'), ts1)" "perm_write (b, o') (s @ [0]) ts1 = Inr ts'"
    "permts_ok ts'" "perm_keeps ts ts'" "b < length ts'" "o' + (length s + 1) \<le> unat (pt_usage (ts' ! b))"
    "take (length s + 1) (drop o' (pt_data (ts' ! b))) = s @ [0]" by auto
  then show ?thesis by (simp add: perm_copy_def Let_def perm_holds_def)
qed

lemma perm_copy3_ok:
  assumes ok: "permts_ok ts" and l: "length s1 + length s2 + length s3 + 1 < 2 ^ 32"
  shows "\<exists>p ts'. perm_copy3 mem s1 s2 s3 ts = Inr (p, ts') \<and> permts_ok ts' \<and> perm_keeps ts ts' \<and> perm_holds ts' p (s1 @ s2 @ s3)"
proof -
  let ?w = "s1 @ s2 @ s3 @ [0]"
  from perm_fill [OF ok, of ?w mem] l obtain b o' ts1 ts' where
    a: "perm_alloc mem (of_nat (length s1 + length s2 + (length s3 + 1))) ts = ((b, o'), ts1)" and
    w: "perm_write (b, o') ?w ts1 = Inr ts'" and fit: "o' + length ?w \<le> length (pt_data (ts1 ! b))" "b < length ts1" and
    r: "permts_ok ts'" "perm_keeps ts ts'" "b < length ts'" "o' + length ?w \<le> unat (pt_usage (ts' ! b))"
      "take (length ?w) (drop o' (pt_data (ts' ! b))) = ?w" by (auto simp: add.assoc)
  have "andthen (perm_write (b, o') s1 ts1) (\<lambda>t. andthen (perm_write (b, o' + length s1) s2 t) (perm_write (b, o' + length s1 + length s2) (s3 @ [0]))) = Inr ts'"
  proof -
    have "andthen (andthen (perm_write (b, o') s1 ts1) (perm_write (b, o' + length s1) s2)) (perm_write (b, o' + length (s1 @ s2)) (s3 @ [0])) = Inr ts'"
      using perm_write_append [of o' s1 s2 ts1 b] perm_write_append [of o' "s1 @ s2" "s3 @ [0]" ts1 b] fit w by simp
    then show ?thesis by (cases "perm_write (b, o') s1 ts1") (simp_all add: add.assoc)
  qed
  then have "perm_copy3 mem s1 s2 s3 ts = Inr ((b, o'), ts')"
    unfolding perm_copy3_def Let_def a by (auto simp: andthen_eq_Inr)
  then show ?thesis using r by (simp add: perm_holds_def)
qed

section \<open>Properties\<close>

datatype perm_request = Copy bytes | Copy3 bytes bytes bytes

fun perm_text :: "perm_request \<Rightarrow> bytes" where
  "perm_text (Copy s) = s"
| "perm_text (Copy3 s1 s2 s3) = s1 @ s2 @ s3"

fun perm_serve :: "(nat \<Rightarrow> nat \<Rightarrow> u8) \<Rightarrow> perm_request \<Rightarrow> permts list \<Rightarrow> (perm_ptr \<times> permts list) result" where
  "perm_serve mem (Copy s) ts = perm_copy mem s ts"
| "perm_serve mem (Copy3 s1 s2 s3) ts = perm_copy3 mem s1 s2 s3 ts"

fun perm_run :: "(nat \<Rightarrow> nat \<Rightarrow> u8) \<Rightarrow> perm_request list \<Rightarrow> permts list \<Rightarrow> (perm_ptr list \<times> permts list) result" where
  "perm_run mem [] ts = Inr ([], ts)"
| "perm_run mem (r # rs) ts =
     andthen (perm_serve mem r ts) (\<lambda>(p, ts). andthen (perm_run mem rs ts) (\<lambda>(ps, ts). Inr (p # ps, ts)))"

lemma perm_serve_ok:
  assumes "permts_ok ts" and "length (perm_text r) + 1 < 2 ^ 32"
  shows "\<exists>p ts'. perm_serve mem r ts = Inr (p, ts') \<and> permts_ok ts' \<and> perm_keeps ts ts' \<and> perm_holds ts' p (perm_text r)"
  using assms perm_copy_ok [of ts] perm_copy3_ok [of ts] by (cases r) (auto simp: add.assoc)

lemma perm_run_ok:
  assumes "permts_ok ts" and "\<forall>r \<in> set rs. length (perm_text r) + 1 < 2 ^ 32"
  shows "\<exists>ps ts'. perm_run mem rs ts = Inr (ps, ts') \<and> permts_ok ts' \<and> perm_keeps ts ts' \<and>
    list_all2 (\<lambda>p r. perm_holds ts' p (perm_text r)) ps rs"
  using assms
proof (induction rs arbitrary: ts)
  case Nil
  then show ?case by (simp add: perm_keeps_refl)
next
  case (Cons r rs)
  from perm_serve_ok [OF Cons.prems(1)] Cons.prems(2) obtain p ts1 where
    p: "perm_serve mem r ts = Inr (p, ts1)" "permts_ok ts1" "perm_keeps ts ts1" "perm_holds ts1 p (perm_text r)" by (meson list.set_intros(1))
  from Cons.IH [OF p(2)] Cons.prems(2) obtain ps ts' where
    "perm_run mem rs ts1 = Inr (ps, ts')" "permts_ok ts'" "perm_keeps ts1 ts'" "list_all2 (\<lambda>p r. perm_holds ts' p (perm_text r)) ps rs"
    by auto
  then show ?case using p perm_keeps_trans perm_holds_keeps by (auto intro!: exI)
qed

text \<open>
  C31. Strings that are put into the permanent storage, one by one or as the concatenation of
  three, stay there: after any sequence of requests every pointer that was handed out still reads
  as the string it was handed out for, and no write left the memory of its block.
\<close>

theorem perm_text_stable:
  assumes "\<forall>r \<in> set rs. cstring (perm_text r) \<and> length (perm_text r) + 1 < 2 ^ 32"
  shows "\<exists>ps ts. perm_run mem rs (permts_init mem) = Inr (ps, ts) \<and> map (perm_string ts) ps = map (Some \<circ> perm_text) rs"
proof -
  from perm_run_ok [OF permts_init_ok] assms obtain ps ts where
    r: "perm_run mem rs (permts_init mem) = Inr (ps, ts)" "list_all2 (\<lambda>p r. perm_holds ts p (perm_text r)) ps rs" by meson
  have "list_all2 (\<lambda>p r. perm_string ts p = Some (perm_text r)) ps rs"
    using r(2) assms by (auto simp: list_all2_conv_all_nth intro!: perm_holds_string)
  then have "map (perm_string ts) ps = map (Some \<circ> perm_text) rs"
    by (auto simp: list_all2_conv_all_nth intro!: nth_equalityI)
  then show ?thesis using r(1) by blast
qed

theorem perm_text_stable_witness:
  "\<exists>p q ts. perm_run (\<lambda>_ _. 255) [Copy [0x61], Copy3 [0x5f] [0x61] []] (permts_init (\<lambda>_ _. 255)) = Inr ([p, q], ts) \<and>
     perm_string ts p = Some [0x61] \<and> perm_string ts q = Some [0x5f, 0x61]"
proof -
  obtain ps ts where r: "perm_run (\<lambda>_ _. 255) [Copy [0x61], Copy3 [0x5f] [0x61] []] (permts_init (\<lambda>_ _. 255)) = Inr (ps, ts)"
      "map (perm_string ts) ps = [Some [0x61], Some [0x5f, 0x61]]"
    using perm_text_stable [of "[Copy [0x61], Copy3 [0x5f] [0x61] []]" "\<lambda>_ _. 255"] by (auto simp: cstring_def)
  then show ?thesis by (auto simp: map_eq_Cons_conv)
qed

end
