(* ===== verification/Segments.thy ===== *)
theory Segments
  imports Raa Vectors
begin

text \<open>
  The assembly position, \<open>asm/nasm.c\<close>, over the random access array: every segment and the
  absolute segment keep their own offset while the assembler switches between them. With the
  segment numbers of \<open>asm/segalloc.c\<close>.
\<close>

section \<open>Model\<close>

text \<open>
  \<open>location\<close>, the offset of \<open>absolute\<close>, the flag \<open>in_absolute\<close> and the offsets of the segments that
  are not current.
\<close>

record place =
  here_seg :: i32
  here_off :: i64
  abs_off :: i64
  in_abs :: bool
  offsets :: real_raa

definition switch_segment :: "i32 \<Rightarrow> place \<Rightarrow> (i64 \<times> place) result" where
  "switch_segment seg pl =
     (let pl = pl\<lparr>here_seg := seg\<rparr>
      in if seg = NO_SEG then Inr (abs_off pl, pl\<lparr>here_off := abs_off pl, in_abs := True\<rparr>)
         else andthen (raa_read (offsets pl) seg) (\<lambda>ofs. Inr (ofs, pl\<lparr>here_off := ofs, in_abs := False\<rparr>)))"

definition set_curr_offs :: "i64 \<Rightarrow> place \<Rightarrow> place result" where
  "set_curr_offs l_off pl =
     (if in_abs pl then Inr (pl\<lparr>abs_off := l_off\<rparr>)
      else andthen (real_raa_write (offsets pl) (here_seg pl) l_off) (\<lambda>r. Inr (pl\<lparr>offsets := r\<rparr>)))"

definition increment_offset :: "i64 \<Rightarrow> place \<Rightarrow> place result" where
  "increment_offset delta pl =
     (if delta = 0 then Inr pl
      else let pl = pl\<lparr>here_off := here_off pl + delta\<rparr> in set_curr_offs (here_off pl) pl)"

text \<open>The start of a pass: the offsets are forgotten and the segment is the one of the output format.\<close>

definition start_pass :: "i32 \<Rightarrow> place \<Rightarrow> place result" where
  "start_pass seg pl =
     andthen (switch_segment seg (pl\<lparr>in_abs := False, offsets := real_raa_init, here_seg := NO_SEG, here_off := 0\<rparr>)) (\<lambda>(_, pl). Inr pl)"

definition seg_alloc :: "i32 \<Rightarrow> i32 \<times> i32" where
  "seg_alloc next_seg = (next_seg, next_seg + 2)"

section \<open>Every segment keeps its position\<close>

text \<open>The segments that can be positions: the absolute one and those that the array holds.\<close>

definition usable :: "i32 \<Rightarrow> bool" where
  "usable seg \<longleftrightarrow> seg = NO_SEG \<or> unat seg < 2 ^ 30"

datatype move = Switch i32 | Advance i64

fun make_move :: "move \<Rightarrow> place \<Rightarrow> place result" where
  "make_move (Switch seg) pl = andthen (switch_segment seg pl) (\<lambda>(_, pl). Inr pl)"
| "make_move (Advance d) pl = increment_offset d pl"

text \<open>The abstract state: the current segment and an offset for each.\<close>

fun abs_move :: "move \<Rightarrow> i32 \<times> (i32 \<Rightarrow> i64) \<Rightarrow> i32 \<times> (i32 \<Rightarrow> i64)" where
  "abs_move (Switch seg) (cur, pos) = (seg, pos)"
| "abs_move (Advance d) (cur, pos) = (cur, pos(cur := pos cur + d))"

definition position :: "place \<Rightarrow> i32 \<Rightarrow> i64" where
  "position pl seg = (if seg = NO_SEG then abs_off pl else projr (raa_read (offsets pl) seg))"

definition place_ok :: "place \<Rightarrow> bool" where
  "place_ok pl \<longleftrightarrow> raa_ok (offsets pl) \<and> usable (here_seg pl) \<and> (in_abs pl \<longleftrightarrow> here_seg pl = NO_SEG) \<and>
     here_off pl = position pl (here_seg pl)"

definition moves_valid :: "move list \<Rightarrow> bool" where
  "moves_valid ms \<longleftrightarrow> (\<forall>seg. Switch seg \<in> set ms \<longrightarrow> usable seg)"

lemma switch_segment_ok:
  assumes "place_ok pl" and "usable seg"
  shows "\<exists>pl'. switch_segment seg pl = Inr (position pl seg, pl') \<and> place_ok pl' \<and> here_seg pl' = seg \<and> position pl' = position pl"
proof (cases "seg = NO_SEG")
  case True
  then show ?thesis using assms by (auto simp: switch_segment_def Let_def place_ok_def position_def fun_eq_iff)
next
  case False
  obtain ofs where "raa_read (offsets pl) seg = Inr ofs" using assms(1) raa_read_get by (auto simp: place_ok_def)
  then show ?thesis using assms False
    by (auto simp: switch_segment_def Let_def place_ok_def position_def fun_eq_iff)
qed

lemma increment_offset_ok:
  assumes ok: "place_ok pl"
  shows "\<exists>pl'. increment_offset d pl = Inr pl' \<and> place_ok pl' \<and> here_seg pl' = here_seg pl \<and>
    position pl' = (position pl)(here_seg pl := position pl (here_seg pl) + d)"
proof (cases "d = 0 \<or> here_seg pl = NO_SEG")
  case True
  then show ?thesis using ok
    by (auto simp: increment_offset_def set_curr_offs_def Let_def place_ok_def position_def fun_eq_iff)
next
  case False
  then have u: "unat (here_seg pl) < 2 ^ 30" "raa_ok (offsets pl)" using ok by (auto simp: place_ok_def usable_def)
  from raa.write_read [OF u(2,1), of "here_off pl + d"] obtain r where
    "real_raa_write (offsets pl) (here_seg pl) (here_off pl + d) = Inr r" "raa_ok r"
    "\<forall>q. raa_read r q = (if q = here_seg pl then Inr (here_off pl + d) else raa_read (offsets pl) q)" by blast
  then show ?thesis using ok False
    by (auto simp: increment_offset_def set_curr_offs_def Let_def place_ok_def position_def fun_eq_iff)
qed

lemma moves_ok:
  assumes "place_ok pl" and "moves_valid ms"
  shows "\<exists>pl'. steps (\<lambda>pl m. make_move m pl) pl ms = Inr pl' \<and> place_ok pl' \<and>
    (here_seg pl', position pl') = fold abs_move ms (here_seg pl, position pl)"
  using assms
proof (induction ms arbitrary: pl)
  case (Cons m ms)
  have v: "moves_valid ms" using Cons.prems(2) by (simp add: moves_valid_def)
  have "\<exists>pl1. make_move m pl = Inr pl1 \<and> place_ok pl1 \<and> (here_seg pl1, position pl1) = abs_move m (here_seg pl, position pl)"
    using Cons.prems switch_segment_ok [of pl] increment_offset_ok [of pl]
    by (cases m) (fastforce simp: moves_valid_def)+
  then obtain pl1 where 1: "make_move m pl = Inr pl1" "place_ok pl1" "(here_seg pl1, position pl1) = abs_move m (here_seg pl, position pl)" by blast
  from Cons.IH [OF 1(2) v] 1 show ?case by auto
qed simp

lemma start_pass_ok:
  assumes "usable seg"
  shows "\<exists>pl'. start_pass seg pl = Inr pl' \<and> place_ok pl' \<and> here_seg pl' = seg \<and> position pl' = (\<lambda>_. 0)(NO_SEG := abs_off pl)"
  using assms raa_read_fresh raa_ok_init
  by (auto simp: start_pass_def switch_segment_def Let_def place_ok_def position_def fun_eq_iff)

text \<open>
  C28. In a pass every segment keeps its own position: after any sequence of switches to usable
  segments and of advances the current offset is the current segment's, and the offset of a segment is the sum of
  the advances made in it; the absolute segment goes on from where it was.
\<close>

theorem segments_keep_offsets:
  assumes "usable seg" and "moves_valid ms"
  shows "\<exists>pl0 pl' pos. start_pass seg pl = Inr pl0 \<and> steps (\<lambda>pl m. make_move m pl) pl0 ms = Inr pl' \<and>
    fold abs_move ms (seg, (\<lambda>_. 0)(NO_SEG := abs_off pl)) = (here_seg pl', pos) \<and> here_off pl' = pos (here_seg pl') \<and>
    (\<forall>s. usable s \<longrightarrow> (\<exists>pl''. switch_segment s pl' = Inr (pos s, pl'')))"
proof -
  from start_pass_ok [OF assms(1)] obtain pl0 where
    0: "start_pass seg pl = Inr pl0" "place_ok pl0" "here_seg pl0 = seg" "position pl0 = (\<lambda>_. 0)(NO_SEG := abs_off pl)" by blast
  from moves_ok [OF 0(2) assms(2)] obtain pl' where
    1: "steps (\<lambda>pl m. make_move m pl) pl0 ms = Inr pl'" "place_ok pl'" "(here_seg pl', position pl') = fold abs_move ms (here_seg pl0, position pl0)"
    by blast
  show ?thesis
  proof (intro exI conjI allI impI)
    show "fold abs_move ms (seg, (\<lambda>_. 0)(NO_SEG := abs_off pl)) = (here_seg pl', position pl')" using 0 1 by simp
    show "here_off pl' = position pl' (here_seg pl')" using 1(2) by (simp add: place_ok_def)
    show "switch_segment s pl' = Inr (position pl' s, snd (projr (switch_segment s pl')))" if "usable s" for s
      using switch_segment_ok [OF 1(2) that] by auto
  qed (fact 0(1) 1(1))+
qed

theorem segments_keep_offsets_witness:
  "\<exists>pl0 pl'. start_pass 2 \<lparr>here_seg = 0, here_off = 0, abs_off = 0, in_abs = False, offsets = real_raa_init\<rparr> = Inr pl0 \<and>
    steps (\<lambda>pl m. make_move m pl) pl0 [Advance 5, Switch 4, Advance 1, Switch 2, Advance 3] = Inr pl' \<and> here_off pl' = 8"
proof -
  have "usable 2" "moves_valid [Advance 5, Switch 4, Advance 1, Switch 2, Advance 3]"
    by (auto simp: usable_def moves_valid_def)
  from segments_keep_offsets [OF this, of "\<lparr>here_seg = 0, here_off = 0, abs_off = 0, in_abs = False, offsets = real_raa_init\<rparr>"]
  show ?thesis by auto
qed

end
