(* ===== verification/Labels.thy ===== *)
theory Labels
  imports HashTbl Segments
begin

text \<open>
  The symbol table, \<open>asm/labels.c\<close>: labels in blocks, found by their full names in a hash table,
  with the declarations, the definitions, the mangling of names and the calls of the output format.
  Strings are values here; that their storage keeps them is shown in \<open>PermText\<close>.
\<close>

section \<open>Names\<close>

definition islocal :: "bool \<Rightarrow> bytes \<Rightarrow> bool" where
  "islocal tasm l \<longleftrightarrow> tasm \<and> cchar l 0 = 0x40 \<and> cchar l 1 = 0x40 \<or> cchar l 0 = 0x2E \<and> cchar l 1 \<noteq> 0x2E"

definition ismagic :: "bytes \<Rightarrow> bool" where
  "ismagic l \<longleftrightarrow> cchar l 0 = 0x2E \<and> cchar l 1 = 0x2E \<and> cchar l 2 \<noteq> 0x40"

definition set_prevlabel :: "bool \<Rightarrow> bytes \<Rightarrow> bool" where
  "set_prevlabel tasm l \<longleftrightarrow> \<not> (tasm \<and> cchar l 0 = 0x40 \<and> cchar l 1 = 0x40) \<and> cchar l 0 \<noteq> 0x2E"

section \<open>State\<close>

datatype label_type = LBL_LOCAL | LBL_GLOBAL | LBL_STATIC | LBL_EXTERN | LBL_COMMON | LBL_SPECIAL | LBL_BACKEND

record label_defn =
  lb_segment :: i32
  lb_subsection :: i32
  lb_offset :: i64
  lb_size :: i64
  lb_label :: bytes
  lb_mangled :: "bytes option"
  lb_special :: "bytes option"
  lb_type :: label_type
  lb_mangled_type :: label_type
  lb_defined :: bool

text \<open>
  \<open>union label\<close>: a free place, the last place of a block, which links to the next block, or a
  label. Blocks are in the order of their links; a pointer is a block and a place in it.
\<close>

datatype label_slot = END_LIST | END_BLOCK | Defn label_defn

type_synonym label_ptr = "nat \<times> nat"

definition LABEL_BLOCK :: nat where "LABEL_BLOCK = 128"

definition init_block :: "label_slot list" where
  "init_block = replicate (LABEL_BLOCK - 1) END_LIST @ [END_BLOCK]"

text \<open>The calls of the output and debug formats.\<close>

datatype label_call =
    Symdef "bytes option" i32 i64 int "bytes option"
  | Deflabel "bytes option" i32 i64 int "bytes option"
  | HereLabel bytes label_type i32 i32

datatype label_message =
    InconsistentAttributes bytes bytes bytes
  | DeclaredBoth bytes label_type label_type
  | ChangedInCodegen bytes bool

text \<open>
  What is read of the rest: the modes, the number of the pass, and the handler for labels of the
  output format, if there is one. It answers by the calls made so far with a segment, a
  subsection and whether the offset goes along.
\<close>

record label_env =
  tasm_compatible_mode :: bool
  pass0 :: int
  herelabel :: "(label_call list \<Rightarrow> bytes \<Rightarrow> label_type \<Rightarrow> i32 \<Rightarrow> i32 \<Rightarrow> i32 \<times> i32 \<times> bool) option"

datatype mangle_index = LM_LPREFIX | LM_LSUFFIX | LM_GPREFIX | LM_GSUFFIX

record label_state =
  ltab :: "label_ptr hash_table"
  ldata :: "label_slot list list"
  lfree :: label_ptr
  prevlabel :: bytes
  initialized :: bool
  mangle_strings :: "mangle_index \<Rightarrow> bytes"
  mangle_string_set :: "mangle_index \<Rightarrow> bool"
  global_offset_changed :: u64
  next_seg :: i32
  location :: place
  calls :: "label_call list"
  label_messages :: "label_message list"

definition slot_at :: "label_ptr \<Rightarrow> label_slot list list \<Rightarrow> label_slot result" where
  "slot_at p bs = (case p of (b, i) \<Rightarrow> guard (b < length bs \<and> i < length (bs ! b)) OutOfBounds (Inr (bs ! b ! i)))"

definition set_slot :: "label_ptr \<Rightarrow> label_slot \<Rightarrow> label_slot list list \<Rightarrow> label_slot list list" where
  "set_slot p s bs = (case p of (b, i) \<Rightarrow> bs[b := (bs ! b)[i := s]])"

definition get_label :: "label_ptr \<Rightarrow> label_state \<Rightarrow> label_defn result" where
  "get_label p st = andthen (slot_at p (ldata st)) (\<lambda>s. case s of Defn d \<Rightarrow> Inr d | _ \<Rightarrow> Inl OutOfBounds)"

definition put_label :: "label_ptr \<Rightarrow> label_defn \<Rightarrow> label_state \<Rightarrow> label_state" where
  "put_label p d st = st\<lparr>ldata := set_slot p (Defn d) (ldata st)\<rparr>"

section \<open>Look-up\<close>

definition full_name :: "label_env \<Rightarrow> label_state \<Rightarrow> bytes \<Rightarrow> bytes" where
  "full_name env st label = (if islocal (tasm_compatible_mode env) label then prevlabel st @ label else label)"

definition new_label :: "bytes \<Rightarrow> label_defn" where
  "new_label name = \<lparr>lb_segment = 0, lb_subsection = NO_SEG, lb_offset = 0, lb_size = 0, lb_label = name,
     lb_mangled = None, lb_special = None, lb_type = LBL_LOCAL, lb_mangled_type = LBL_LOCAL, lb_defined = False\<rparr>"

definition alloc_label :: "bytes \<Rightarrow> label_state \<Rightarrow> (label_ptr \<times> label_state) result" where
  "alloc_label name st =
     andthen (slot_at (lfree st) (ldata st)) (\<lambda>s.
       let st = (if s = END_BLOCK then st\<lparr>ldata := ldata st @ [init_block], lfree := (length (ldata st), 0)\<rparr> else st);
           (b, i) = lfree st
       in Inr ((b, i), st\<lparr>ldata := set_slot (b, i) (Defn (new_label name)) (ldata st), lfree := (b, i + 1)\<rparr>))"

definition find_label :: "label_env \<Rightarrow> bytes \<Rightarrow> bool \<Rightarrow> label_state \<Rightarrow> ((label_ptr \<times> bool) option \<times> label_state) result" where
  "find_label env label create st =
     (let name = full_name env st label
      in andthen (hash_find (ltab st) name) (\<lambda>r.
           case r of
             Inl p \<Rightarrow> Inr (Some (p, False), st)
           | Inr ip \<Rightarrow>
               if \<not> create then Inr (None, st)
               else andthen (alloc_label name st) (\<lambda>(p, st).
                      andthen (hash_add (ltab st) ip name p) (\<lambda>(_, t). Inr (Some (p, True), st\<lparr>ltab := t\<rparr>)))))"

definition lookup_label :: "label_env \<Rightarrow> bytes \<Rightarrow> label_state \<Rightarrow> (i32 \<times> i64) option result" where
  "lookup_label env label st =
     (if \<not> initialized st then Inr None
      else andthen (find_label env label False st) (\<lambda>(r, st).
             case r of
               None \<Rightarrow> Inr None
             | Some (p, _) \<Rightarrow> andthen (get_label p st) (\<lambda>d.
                 Inr (if lb_defined d then Some (lb_segment d, lb_offset d) else None))))"

definition is_extern :: "label_env \<Rightarrow> bytes \<Rightarrow> label_state \<Rightarrow> bool result" where
  "is_extern env label st =
     (if \<not> initialized st then Inr False
      else andthen (find_label env label False st) (\<lambda>(r, st).
             case r of None \<Rightarrow> Inr False | Some (p, _) \<Rightarrow> andthen (get_label p st) (\<lambda>d. Inr (lb_type d = LBL_EXTERN))))"

definition local_scope :: "label_env \<Rightarrow> bytes \<Rightarrow> label_state \<Rightarrow> bytes" where
  "local_scope env label st = (if islocal (tasm_compatible_mode env) label then prevlabel st else [])"

section \<open>Mangling and the output format\<close>

definition set_label_mangle :: "mangle_index \<Rightarrow> bytes \<Rightarrow> label_state \<Rightarrow> label_state" where
  "set_label_mangle which what st =
     (if mangle_string_set st which then st
      else st\<lparr>mangle_strings := (mangle_strings st)(which := what), mangle_string_set := (mangle_string_set st)(which := True)\<rparr>)"

definition mangle_label_name :: "(mangle_index \<Rightarrow> bytes) \<Rightarrow> label_defn \<Rightarrow> label_defn" where
  "mangle_label_name ms d =
     (if lb_mangled d \<noteq> None \<and> lb_mangled_type d = lb_type d then d
      else let (prefix, suffix) =
             (case lb_type d of
                LBL_GLOBAL \<Rightarrow> (ms LM_GPREFIX, ms LM_GSUFFIX)
              | LBL_STATIC \<Rightarrow> (ms LM_GPREFIX, ms LM_GSUFFIX)
              | LBL_EXTERN \<Rightarrow> (ms LM_GPREFIX, ms LM_GSUFFIX)
              | LBL_BACKEND \<Rightarrow> ([], [])
              | LBL_SPECIAL \<Rightarrow> ([], [])
              | _ \<Rightarrow> (ms LM_LPREFIX, ms LM_LSUFFIX))
           in d\<lparr>lb_mangled_type := lb_type d, lb_mangled := Some (prefix @ lb_label d @ suffix)\<rparr>)"

definition out_symdef :: "label_env \<Rightarrow> (mangle_index \<Rightarrow> bytes) \<Rightarrow> label_defn \<Rightarrow> label_defn \<times> label_call list" where
  "out_symdef env ms d =
     (if pass0 env = 2
      then (d, if (lb_type d = LBL_GLOBAL \<or> lb_type d = LBL_EXTERN \<or> lb_type d = LBL_COMMON) \<and> lb_special d \<noteq> None
               then [Symdef (lb_mangled d) 0 0 3 (lb_special d)] else [])
      else if pass0 env \<noteq> 1 \<and> lb_type d \<noteq> LBL_BACKEND then (d, [])
      else let (backend_type, backend_offset) =
             (case lb_type d of
                LBL_GLOBAL \<Rightarrow> (1, lb_offset d) | LBL_EXTERN \<Rightarrow> (1, lb_offset d) | LBL_COMMON \<Rightarrow> (2, lb_size d)
              | _ \<Rightarrow> (0, lb_offset d));
               d = mangle_label_name ms d
           in (d, Symdef (lb_mangled d) (lb_segment d) backend_offset backend_type (lb_special d) #
                  (if lb_type d = LBL_SPECIAL \<or> lb_type d = LBL_BACKEND then []
                   else [Deflabel (lb_mangled d) (lb_segment d) (lb_offset d) backend_type (lb_special d)])))"

text \<open>A label at the current position may be moved to another segment by the output format.\<close>

definition handle_herelabel ::
    "label_env \<Rightarrow> label_defn \<Rightarrow> i32 \<times> i64 \<Rightarrow> label_state \<Rightarrow> ((label_defn \<times> i32 \<times> i64) \<times> label_state) result" where
  "handle_herelabel env d at st =
     (case at of (seg, ofs) \<Rightarrow>
      case herelabel env of
        None \<Rightarrow> Inr ((d, seg, ofs), st)
      | Some hl \<Rightarrow>
          if here_seg (location st) = NO_SEG \<or> \<not> (seg = here_seg (location st) \<and> ofs = here_off (location st))
          then Inr ((d, seg, ofs), st)
          else case lb_mangled d of
            None \<Rightarrow> Inl AssertFailed
          | Some name \<Rightarrow>
              let (newseg, sub, copyoffset) = hl (calls st) name (lb_type d) seg (lb_subsection d);
                  st = st\<lparr>calls := calls st @ [HereLabel name (lb_type d) seg (lb_subsection d)]\<rparr>;
                  d = d\<lparr>lb_subsection := sub\<rparr>
              in if newseg = seg then Inr ((d, seg, ofs), st)
                 else andthen (switch_segment newseg (location st)) (\<lambda>(newofs, pl).
                   if copyoffset then Inr ((d, newseg, ofs), st\<lparr>location := pl\<lparr>here_off := ofs\<rparr>\<rparr>)
                   else Inr ((d, newseg, newofs), st\<lparr>location := pl\<rparr>)))"

section \<open>Declaration\<close>

definition declare_label_lptr ::
    "label_env \<Rightarrow> label_type \<Rightarrow> bytes option \<Rightarrow> label_defn \<Rightarrow> bool \<times> label_defn \<times> label_message list" where
  "declare_label_lptr env type special d =
     (let special = (if special = Some [] then None else special)
      in if lb_type d = type \<or> pass0 env = 0 \<and> lb_type d = LBL_LOCAL
         then let d = d\<lparr>lb_type := type\<rparr>
              in case special of
                   None \<Rightarrow> (True, d, [])
                 | Some s \<Rightarrow>
                     (case lb_special d of
                        None \<Rightarrow> (True, d\<lparr>lb_special := Some s\<rparr>, [])
                      | Some s' \<Rightarrow>
                          (True, d, if nasm_stricmp s' s \<noteq> 0 then [InconsistentAttributes (lb_label d) s' s] else []))
         else if lb_type d = LBL_EXTERN \<and> (type = LBL_GLOBAL \<or> type = LBL_COMMON)
         then (True, d\<lparr>lb_type := type, lb_special := (if special = None then lb_special d else special)\<rparr>, [])
         else if (lb_type d = LBL_GLOBAL \<or> lb_type d = LBL_COMMON) \<and> type = LBL_EXTERN
         then (False, if lb_special d = None then d\<lparr>lb_special := special\<rparr> else d, [])
         else (False, d, [DeclaredBoth (lb_label d) (lb_type d) type]))"

definition declare_label :: "label_env \<Rightarrow> bytes \<Rightarrow> label_type \<Rightarrow> bytes option \<Rightarrow> label_state \<Rightarrow> (bool \<times> label_state) result" where
  "declare_label env label type special st =
     andthen (find_label env label True st) (\<lambda>(r, st).
       case r of
         None \<Rightarrow> Inl NullDeref
       | Some (p, _) \<Rightarrow> andthen (get_label p st) (\<lambda>d.
           let (ok, d, msgs) = declare_label_lptr env type special d
           in Inr (ok, (put_label p d st)\<lparr>label_messages := label_messages st @ msgs\<rparr>)))"

section \<open>Definition\<close>

text \<open>
  Where a definition puts a symbol: a symbol with a segment is really defined, and no longer
  external; segment 0 is a pseudo segment (external, common).
\<close>

definition promote_extern :: "i32 \<Rightarrow> label_defn \<Rightarrow> label_defn" where
  "promote_extern segment d = (if segment \<noteq> 0 \<and> lb_type d = LBL_EXTERN then d\<lparr>lb_type := LBL_GLOBAL\<rparr> else d)"

definition define_segment :: "label_defn \<Rightarrow> i32 \<Rightarrow> i32 \<Rightarrow> i32 \<times> i32" where
  "define_segment d segment next =
     (if segment \<noteq> 0 then (segment, next) else if lb_segment d \<noteq> 0 then (lb_segment d, next) else seg_alloc next)"

text \<open>A symbol seen in a pass before may be moved by the output format.\<close>

definition place_label ::
    "label_env \<Rightarrow> label_defn \<Rightarrow> i32 \<times> i64 \<Rightarrow> label_state \<Rightarrow> ((label_defn \<times> i32 \<times> i64) \<times> label_state) result" where
  "place_label env d at st =
     (if lb_defined d \<or> lb_type d = LBL_BACKEND then handle_herelabel env (mangle_label_name (mangle_strings st) d) at st
      else Inr ((d, at), st))"

text \<open>What \<open>define_label\<close> stores, from the place that was settled.\<close>

definition settle_label :: "bytes \<Rightarrow> i32 \<Rightarrow> i64 \<Rightarrow> label_defn \<Rightarrow> label_defn" where
  "settle_label label seg ofs d =
     (let d = (if ismagic label \<and> lb_type d = LBL_LOCAL then d\<lparr>lb_type := LBL_SPECIAL\<rparr> else d)
      in d\<lparr>lb_segment := seg, lb_offset := (if lb_type d = LBL_COMMON then 0 else ofs),
           lb_size := (if lb_type d = LBL_COMMON then ofs else 0), lb_defined := True\<rparr>)"

definition label_changed :: "bool \<Rightarrow> label_defn \<Rightarrow> label_defn \<Rightarrow> bool" where
  "label_changed created old d \<longleftrightarrow> created \<or> \<not> lb_defined old \<or> lb_segment old \<noteq> lb_segment d \<or>
     lb_offset old \<noteq> lb_offset d \<or> lb_size old \<noteq> lb_size d"

definition define_label :: "label_env \<Rightarrow> bytes \<Rightarrow> i32 \<Rightarrow> i64 \<Rightarrow> bool \<Rightarrow> label_state \<Rightarrow> label_state result" where
  "define_label env label segment offset normal st =
     andthen (find_label env label True st) (\<lambda>(r, st).
       case r of
         None \<Rightarrow> Inl NullDeref
       | Some (p, created) \<Rightarrow>
           andthen (get_label p st) (\<lambda>d.
             let d = promote_extern segment d;
                 (seg, next) = define_segment d segment (next_seg st);
                 st = st\<lparr>next_seg := next\<rparr>
             in andthen
                  (place_label env d (seg, offset) st)
                  (\<lambda>((d, seg, ofs), st).
                    let st = (if set_prevlabel (tasm_compatible_mode env) label \<and> normal then st\<lparr>prevlabel := lb_label d\<rparr> else st);
                        d' = settle_label label seg ofs d;
                        changed = label_changed created d d';
                        (d'', cs) = out_symdef env (mangle_strings st) d'
                    in Inr ((put_label p d'' st)\<lparr>
                         global_offset_changed := global_offset_changed st + of_bool changed,
                         label_messages := label_messages st @
                           (if changed \<and> pass0 env > 1 \<and> lb_type d' \<noteq> LBL_SPECIAL then [ChangedInCodegen (lb_label d') created] else []),
                         calls := calls st @ cs\<rparr>))))"

definition backend_label :: "label_env \<Rightarrow> bytes \<Rightarrow> i32 \<Rightarrow> i64 \<Rightarrow> label_state \<Rightarrow> label_state result" where
  "backend_label env label segment offset st =
     andthen (declare_label env label LBL_BACKEND None st) (\<lambda>(ok, st).
       if ok then define_label env label segment offset False st else Inr st)"

text \<open>The rest of the state is left as it is.\<close>

definition init_labels :: "label_state \<Rightarrow> label_state result" where
  "init_labels st =
     andthen (hash_init HASH_LARGE) (\<lambda>t.
       Inr (st\<lparr>ltab := t, ldata := [init_block], lfree := (0, 0), prevlabel := [], initialized := True\<rparr>))"

definition cleanup_labels :: "label_state \<Rightarrow> label_state" where
  "cleanup_labels st = st\<lparr>initialized := False, ltab := hash_free (ltab st), ldata := []\<rparr>"

section \<open>The table as a map from full names\<close>

definition arena_ok :: "label_slot list list \<Rightarrow> label_ptr \<Rightarrow> bool" where
  "arena_ok bs f \<longleftrightarrow> (\<forall>b \<in> set bs. length b = 128) \<and> bs \<noteq> [] \<and>
     (case f of (b, i) \<Rightarrow> b = length bs - 1 \<and> i \<le> 127 \<and> (\<forall>j. i \<le> j \<and> j < 127 \<longrightarrow> bs ! b ! j = END_LIST) \<and> bs ! b ! 127 = END_BLOCK)"

definition labels :: "label_state \<Rightarrow> nat" where
  "labels st = length (hash_nodes (ltab st))"

definition entry :: "label_state \<Rightarrow> bytes \<Rightarrow> label_ptr option" where
  "entry st = hash_map (\<lambda>s. s) (ltab st)"

definition labels_ok :: "label_state \<Rightarrow> bool" where
  "labels_ok st \<longleftrightarrow> initialized st \<and> hash_ok hash_calc (\<lambda>s. s) (ltab st) \<and>
     unat (tsize (ltab st)) \<le> max 256 (4 * labels st) \<and> arena_ok (ldata st) (lfree st) \<and>
     (\<forall>name p. entry st name = Some p \<longrightarrow> (\<exists>d. slot_at p (ldata st) = Inr (Defn d) \<and> lb_label d = name)) \<and> cstring (prevlabel st)"

definition symbol :: "label_state \<Rightarrow> bytes \<Rightarrow> label_defn option" where
  "symbol st name = (case entry st name of None \<Rightarrow> None | Some p \<Rightarrow> (case get_label p st of Inl _ \<Rightarrow> None | Inr d \<Rightarrow> Some d))"

lemma slot_at_Inr: "slot_at p bs = Inr s \<longleftrightarrow> fst p < length bs \<and> snd p < length (bs ! fst p) \<and> bs ! fst p ! snd p = s"
  by (cases p) (auto simp: slot_at_def guard_eq_Inr)

lemma slot_at_set_slot:
  "slot_at p bs = Inr s \<Longrightarrow> slot_at q (set_slot p s' bs) = (if q = p then Inr s' else slot_at q bs)"
  by (cases p; cases q) (auto simp: slot_at_def set_slot_def guard_def nth_list_update)

lemma labels_ok_entry:
  "labels_ok st \<Longrightarrow> entry st name = Some p \<Longrightarrow> \<exists>d. slot_at p (ldata st) = Inr (Defn d) \<and> lb_label d = name"
  unfolding labels_ok_def by blast

lemma entry_get:
  assumes "labels_ok st" and "entry st name = Some p"
  shows "\<exists>d. get_label p st = Inr d \<and> lb_label d = name \<and> symbol st name = Some d"
  using labels_ok_entry [OF assms] assms(2) by (auto simp: get_label_def symbol_def)

lemma symbol_None: "labels_ok st \<Longrightarrow> symbol st name = None \<longleftrightarrow> entry st name = None"
  using entry_get [of st name] by (cases "entry st name") (auto simp: symbol_def)

lemma symbol_label: "labels_ok st \<Longrightarrow> symbol st name = Some d \<Longrightarrow> lb_label d = name"
  using entry_get [of st name] by (cases "entry st name") (auto simp: symbol_def)

lemma arena_set:
  assumes a: "arena_ok bs f" and s: "slot_at p bs = Inr (Defn d)"
  shows "arena_ok (set_slot p s' bs) f"
proof -
  obtain b i where p: "p = (b, i)" by force
  obtain fb fi where f: "f = (fb, fi)" by force
  have s: "b < length bs" "i < length (bs ! b)" "bs ! b ! i = Defn d" using s by (simp_all add: slot_at_Inr p)
  then have l: "length (bs ! b) = 128" using a by (simp add: arena_ok_def)
  have "\<not> (b = fb \<and> fi \<le> i \<and> i < 127)" "\<not> (b = fb \<and> i = 127)" using a s by (auto simp: arena_ok_def f)
  then show ?thesis using a s l
    by (auto simp: arena_ok_def set_slot_def p f nth_list_update dest!: set_update_subset_insert [THEN subsetD])
qed

lemma put_label_ok:
  assumes ok: "labels_ok st" and e: "entry st (lb_label d) = Some p"
  shows "labels_ok (put_label p d st) \<and> symbol (put_label p d st) = (symbol st)(lb_label d \<mapsto> d) \<and> entry (put_label p d st) = entry st \<and>
    labels (put_label p d st) = labels st"
proof -
  obtain d0 where d0: "slot_at p (ldata st) = Inr (Defn d0)" "lb_label d0 = lb_label d" using labels_ok_entry [OF ok e] by blast
  note sl = slot_at_set_slot [OF d0(1), of _ "Defn d"]
  have en: "entry (put_label p d st) = entry st" "labels (put_label p d st) = labels st"
    by (simp_all add: fun_eq_iff entry_def labels_def put_label_def)
  have inj: "q = p \<longleftrightarrow> name = lb_label d" if "entry st name = Some q" for name q
    using labels_ok_entry [OF ok that] d0 e that by auto
  have "labels_ok (put_label p d st)"
    unfolding labels_ok_def en
  proof (intro conjI allI impI)
    fix name q assume q: "entry st name = Some q"
    then show "\<exists>d'. slot_at q (ldata (put_label p d st)) = Inr (Defn d') \<and> lb_label d' = name"
      using labels_ok_entry [OF ok q] inj [OF q] by (simp add: put_label_def sl)
  qed (use ok arena_set [OF _ d0(1)] in \<open>simp_all add: labels_ok_def put_label_def\<close>)
  moreover have "symbol (put_label p d st) name = ((symbol st)(lb_label d \<mapsto> d)) name" for name
  proof -
    have get: "get_label q (put_label p d st) = (if q = p then Inr d else get_label q st)" for q
      by (simp add: get_label_def put_label_def sl)
    show ?thesis using inj [of name] e by (cases "entry st name") (auto simp: symbol_def en get)
  qed
  ultimately show ?thesis using en by auto
qed

lemma alloc_label_ok:
  assumes a: "arena_ok (ldata st) (lfree st)"
  shows "\<exists>p bs f. alloc_label name st = Inr (p, st\<lparr>ldata := bs, lfree := f\<rparr>) \<and> arena_ok bs f \<and>
    slot_at p bs = Inr (Defn (new_label name)) \<and>
    (\<forall>q d. slot_at q (ldata st) = Inr (Defn d) \<longrightarrow> q \<noteq> p \<and> slot_at q bs = Inr (Defn d))"
proof -
  let ?bs = "ldata st"
  obtain b i where f: "lfree st = (b, i)" by force
  from a have b: "b = length ?bs - 1" "i \<le> 127" "?bs \<noteq> []" "\<forall>j. i \<le> j \<and> j < 127 \<longrightarrow> ?bs ! b ! j = END_LIST" "?bs ! b ! 127 = END_BLOCK"
    and l: "\<forall>x \<in> set ?bs. length x = 128" by (auto simp: arena_ok_def f)
  then have bl: "b < length ?bs" "length (?bs ! b) = 128" by auto
  have s: "slot_at (b, i) ?bs = Inr (?bs ! b ! i)" using bl b(2) by (simp add: slot_at_Inr)
  show ?thesis
  proof (cases "i = 127")
    case True
    let ?cs = "?bs @ [init_block]"
    have c: "slot_at (length ?bs, 0) ?cs = Inr END_LIST" by (simp add: slot_at_Inr init_block_def LABEL_BLOCK_def nth_append)
    have "arena_ok (set_slot (length ?bs, 0) (Defn (new_label name)) ?cs) (length ?bs, 1)"
      using l by (auto simp: arena_ok_def set_slot_def init_block_def LABEL_BLOCK_def nth_append nth_list_update list_update_append)
    moreover have "slot_at q ?cs = slot_at q ?bs" if "slot_at q ?bs = Inr (Defn d)" for q d
      using that by (cases q) (auto simp: slot_at_def guard_def nth_append split: if_splits)
    moreover have "slot_at q ?bs = Inr (Defn d) \<Longrightarrow> q \<noteq> (length ?bs, 0)" for q d by (auto simp: slot_at_Inr)
    moreover have "alloc_label name st = Inr ((length ?bs, 0),
        st\<lparr>ldata := set_slot (length ?bs, 0) (Defn (new_label name)) ?cs, lfree := (length ?bs, 1)\<rparr>)"
      using s b(5) True by (simp add: alloc_label_def f)
    ultimately show ?thesis using slot_at_set_slot [OF c, of _ "Defn (new_label name)"]
      by (intro exI [of _ "(length ?bs, 0)"] exI [of _ "set_slot (length ?bs, 0) (Defn (new_label name)) ?cs"]
        exI [of _ "(length ?bs, 1)"]) simp
  next
    case False
    then have e: "?bs ! b ! i = END_LIST" "i < 127" using b by auto
    have "arena_ok (set_slot (b, i) (Defn (new_label name)) ?bs) (b, i + 1)"
      using e b l bl by (auto simp: arena_ok_def set_slot_def nth_list_update dest!: set_update_subset_insert [THEN subsetD])
    moreover have "slot_at q ?bs = Inr (Defn d) \<Longrightarrow> q \<noteq> (b, i)" for q d using s e by auto
    moreover have "alloc_label name st = Inr ((b, i), st\<lparr>ldata := set_slot (b, i) (Defn (new_label name)) ?bs, lfree := (b, i + 1)\<rparr>)"
      using s e by (simp add: alloc_label_def f)
    ultimately show ?thesis using slot_at_set_slot [OF s, of _ "Defn (new_label name)"]
      by (intro exI [of _ "(b, i)"] exI [of _ "set_slot (b, i) (Defn (new_label name)) ?bs"] exI [of _ "(b, i + 1)"]) simp
  qed
qed

lemma find_label_ok:
  assumes ok: "labels_ok st" and c: "cstring (full_name env st label)"
  shows "find_label env label False st = Inr (map_option (\<lambda>p. (p, False)) (entry st (full_name env st label)), st)"
  using hash_exact.find_ok [of "ltab st" "full_name env st label"] ok c
  by (auto simp: find_label_def Let_def hash_find_def entry_def labels_ok_def split: option.splits)

text \<open>With creation: the entry that is found, or a new one.\<close>

lemma find_label_create:
  assumes ok: "labels_ok st" and c: "cstring (full_name env st label)" and n: "labels st < 2 ^ 59"
  defines "name \<equiv> full_name env st label"
  shows "\<exists>p t bs f. find_label env label True st = Inr (Some (p, symbol st name = None), st\<lparr>ltab := t, ldata := bs, lfree := f\<rparr>) \<and>
    labels_ok (st\<lparr>ltab := t, ldata := bs, lfree := f\<rparr>) \<and> entry (st\<lparr>ltab := t, ldata := bs, lfree := f\<rparr>) name = Some p \<and>
    symbol (st\<lparr>ltab := t, ldata := bs, lfree := f\<rparr>) =
      (symbol st)(name \<mapsto> (case symbol st name of None \<Rightarrow> new_label name | Some d \<Rightarrow> d)) \<and>
    labels (st\<lparr>ltab := t, ldata := bs, lfree := f\<rparr>) = labels st + (if symbol st name = None then 1 else 0)"
proof (cases "entry st name")
  case (Some p)
  then obtain d where d: "symbol st name = Some d" using entry_get [OF ok Some] by auto
  have "find_label env label True st = Inr (Some (p, False), st)"
    using hash_exact.find_ok [of "ltab st" name] ok c Some
    by (auto simp: find_label_def Let_def hash_find_def entry_def labels_ok_def name_def)
  then show ?thesis using ok Some d
    by (intro exI [of _ p] exI [of _ "ltab st"] exI [of _ "ldata st"] exI [of _ "lfree st"]) (auto simp: fun_eq_iff)
next
  case None
  have h: "hash_ok hash_calc (\<lambda>s. s) (ltab st)" "unat (tsize (ltab st)) \<le> max 256 (4 * labels st)" and ar: "arena_ok (ldata st) (lfree st)"
    using ok by (simp_all add: labels_ok_def)
  have cn: "cstring name" using c by (simp add: name_def)
  from hash_exact.find_ok [OF h(1) cn] None obtain hi where
    hi: "hash_find (ltab st) name = Inr (Inr hi)" "insert_ok (hash_calc name) (ltab st) hi"
    by (auto simp: entry_def hash_find_def)
  from alloc_label_ok [OF ar, of name] obtain p bs f where
    al: "alloc_label name st = Inr (p, st\<lparr>ldata := bs, lfree := f\<rparr>)" "arena_ok bs f" "slot_at p bs = Inr (Defn (new_label name))"
    "\<And>q d. slot_at q (ldata st) = Inr (Defn d) \<Longrightarrow> q \<noteq> p \<and> slot_at q bs = Inr (Defn d)" by blast
  have "unat (tsize (ltab st)) < 2 ^ 62" using h(2) n by (auto simp: max_def split: if_splits)
  from hash_add_ok [OF h(1) this hi(2) cn, of p] None obtain x t where
    t: "hash_add (ltab st) hi name p = Inr (x, t)" "hash_ok hash_calc (\<lambda>s. s) t" "hash_map (\<lambda>s. s) t = (hash_map (\<lambda>s. s) (ltab st))(name \<mapsto> p)"
    "unat (tsize t) \<le> max (unat (tsize (ltab st))) (4 * length (hash_nodes t))" "length (hash_nodes t) = Suc (labels st)"
    by (auto simp: entry_def labels_def)
  let ?st = "st\<lparr>ltab := t, ldata := bs, lfree := f\<rparr>"
  have s0: "symbol st name = None" using None by (simp add: symbol_def)
  have en: "entry ?st = (entry st)(name \<mapsto> p)" using t(3) by (simp add: entry_def)
  have "find_label env label True st = Inr (Some (p, True), ?st)"
    using hi(1) al(1) t(1) by (simp add: find_label_def Let_def name_def)
  moreover have "labels_ok ?st"
    unfolding labels_ok_def
  proof (intro conjI allI impI)
    fix name' q assume "entry ?st name' = Some q"
    then show "\<exists>d. slot_at q (ldata ?st) = Inr (Defn d) \<and> lb_label d = name'"
      using al(3,4) labels_ok_entry [OF ok] by (fastforce simp: en new_label_def split: if_splits)
  next
    show "unat (tsize (ltab ?st)) \<le> max 256 (4 * labels ?st)" using t(4,5) h(2) by (auto simp: labels_def)
  qed (use ok t(2) al(2) in \<open>simp_all add: labels_ok_def\<close>)
  moreover have "symbol ?st name' = ((symbol st)(name \<mapsto> new_label name)) name'" for name'
  proof (cases "name' = name")
    case True
    then show ?thesis using al(3) by (simp add: symbol_def en get_label_def)
  next
    case False
    then show ?thesis
      using labels_ok_entry [OF ok, of name'] al(4) by (cases "entry st name'") (auto simp: symbol_def en get_label_def)
  qed
  moreover have "labels ?st = labels st + 1" using t(5) by (simp add: labels_def)
  ultimately show ?thesis using s0 en
    by (intro exI [of _ p] exI [of _ t] exI [of _ bs] exI [of _ f]) (simp add: fun_eq_iff)
qed

section \<open>The operations on the map\<close>

definition symbol_or_new :: "label_state \<Rightarrow> bytes \<Rightarrow> label_defn" where
  "symbol_or_new st name = (case symbol st name of None \<Rightarrow> new_label name | Some d \<Rightarrow> d)"

text \<open>How the type of a symbol may change.\<close>

definition type_path :: "label_type \<Rightarrow> label_type \<Rightarrow> bool" where
  "type_path a b \<longleftrightarrow> a = b \<or> a = LBL_LOCAL \<or> a = LBL_EXTERN \<and> (b = LBL_GLOBAL \<or> b = LBL_COMMON)"

text \<open>Two states of a symbol: the name is the same, a definition stays and the type moves on.\<close>

definition moves_on :: "label_defn \<Rightarrow> label_defn \<Rightarrow> bool" where
  "moves_on d d' \<longleftrightarrow> lb_label d' = lb_label d \<and> type_path (lb_type d) (lb_type d') \<and> (lb_defined d \<longrightarrow> lb_defined d')"

text \<open>What every operation needs and keeps, besides \<open>labels_ok\<close>.\<close>

definition state_ok :: "label_state \<Rightarrow> bool" where
  "state_ok st \<longleftrightarrow> labels_ok st \<and> raa_ok (offsets (location st))"

lemma cstring_full_name: "labels_ok st \<Longrightarrow> cstring label \<Longrightarrow> cstring (full_name env st label)"
  by (simp add: full_name_def labels_ok_def cstring_def)

lemma symbol_or_new_label: "labels_ok st \<Longrightarrow> lb_label (symbol_or_new st name) = name"
  by (auto simp: symbol_or_new_def new_label_def symbol_label split: option.split)

lemma moves_on_refl [simp]: "moves_on d d"
  by (simp add: moves_on_def type_path_def)

lemma moves_on_trans: "moves_on d d' \<Longrightarrow> moves_on d' d'' \<Longrightarrow> moves_on d d''"
  by (auto simp: moves_on_def type_path_def)

text \<open>Fields that the table does not depend on.\<close>

lemma labels_ok_cong:
  "ltab st' = ltab st \<Longrightarrow> ldata st' = ldata st \<Longrightarrow> lfree st' = lfree st \<Longrightarrow> initialized st' = initialized st \<Longrightarrow>
   cstring (prevlabel st') \<Longrightarrow> labels_ok st \<Longrightarrow> labels_ok st'"
  by (simp add: labels_ok_def entry_def labels_def)

lemma symbol_cong: "ltab st' = ltab st \<Longrightarrow> ldata st' = ldata st \<Longrightarrow> symbol st' = symbol st"
proof -
  assume a: "ltab st' = ltab st" "ldata st' = ldata st"
  have "get_label p st' = get_label p st" for p using a by (simp add: get_label_def)
  then show "symbol st' = symbol st" using a by (simp add: symbol_def entry_def fun_eq_iff split: option.split)
qed

lemma declare_moves_on: "declare_label_lptr env type special d = (ok, d', msgs) \<Longrightarrow> moves_on d d'"
  by (auto simp: declare_label_lptr_def Let_def moves_on_def type_path_def split: if_splits option.splits)

lemma declare_label_ok:
  assumes ok: "state_ok st" and c: "cstring label" and n: "labels st < 2 ^ 59"
    and d: "declare_label_lptr env type special (symbol_or_new st (full_name env st label)) = (r, d', msgs)"
  shows "\<exists>st'. declare_label env label type special st = Inr (r, st') \<and> state_ok st' \<and>
    symbol st' = (symbol st)(full_name env st label \<mapsto> d') \<and> prevlabel st' = prevlabel st \<and> labels st' \<le> labels st + 1"
proof -
  let ?n = "full_name env st label"
  have lk: "labels_ok st" using ok by (simp add: state_ok_def)
  from find_label_create [where env = env, OF lk cstring_full_name [OF lk c] n, folded symbol_or_new_def] obtain p t bs f where
    1: "find_label env label True st = Inr (Some (p, symbol st ?n = None), st\<lparr>ltab := t, ldata := bs, lfree := f\<rparr>)"
       "labels_ok (st\<lparr>ltab := t, ldata := bs, lfree := f\<rparr>)" "entry (st\<lparr>ltab := t, ldata := bs, lfree := f\<rparr>) ?n = Some p"
       "symbol (st\<lparr>ltab := t, ldata := bs, lfree := f\<rparr>) = (symbol st)(?n \<mapsto> symbol_or_new st ?n)"
       "labels (st\<lparr>ltab := t, ldata := bs, lfree := f\<rparr>) = labels st + (if symbol st ?n = None then 1 else 0)"
    by (elim exE conjE) (rule that; assumption)
  let ?st = "st\<lparr>ltab := t, ldata := bs, lfree := f\<rparr>"
  have g: "get_label p ?st = Inr (symbol_or_new st ?n)"
    using entry_get [OF 1(2,3)] 1(4) by auto
  have l: "lb_label d' = ?n" using declare_moves_on [OF d] symbol_or_new_label [OF lk] by (simp add: moves_on_def)
  then have 2: "labels_ok (put_label p d' ?st)" "symbol (put_label p d' ?st) = (symbol ?st)(?n \<mapsto> d')"
    using put_label_ok [OF 1(2), of d' p] 1(3) by simp_all
  let ?st' = "(put_label p d' ?st)\<lparr>label_messages := label_messages ?st @ msgs\<rparr>"
  have "declare_label env label type special st = Inr (r, ?st')"
    using 1(1) g d by (simp add: declare_label_def put_label_def)
  moreover have "state_ok ?st'"
    using ok labels_ok_cong [OF _ _ _ _ _ 2(1), of ?st'] by (simp add: state_ok_def put_label_def labels_ok_def)
  moreover have "symbol ?st' = (symbol st)(?n \<mapsto> d')" using symbol_cong [of ?st' "put_label p d' ?st"] 2(2) 1(4) by simp
  moreover have "labels ?st' \<le> labels st + 1" using 1(5) by (simp add: labels_def put_label_def)
  ultimately show ?thesis by (intro exI [of _ ?st']) (simp add: put_label_def)
qed

lemma mangled: "lb_mangled (mangle_label_name ms d) \<noteq> None" "moves_on d (mangle_label_name ms d)"
  "lb_type (mangle_label_name ms d) = lb_type d" "lb_label (mangle_label_name ms d) = lb_label d"
  "lb_defined (mangle_label_name ms d) = lb_defined d" "lb_segment (mangle_label_name ms d) = lb_segment d"
  "lb_offset (mangle_label_name ms d) = lb_offset d" "lb_size (mangle_label_name ms d) = lb_size d"
  by (auto simp: mangle_label_name_def moves_on_def type_path_def Let_def split: prod.split)

lemma out_symdef_keeps:
  assumes "out_symdef env ms d = (d', cs)"
  shows "lb_type d' = lb_type d" "lb_label d' = lb_label d" "lb_defined d' = lb_defined d" "lb_segment d' = lb_segment d"
    "lb_offset d' = lb_offset d" "lb_size d' = lb_size d"
  using assms by (auto simp: out_symdef_def Let_def mangled split: if_splits prod.splits)

lemma handle_herelabel_ok:
  assumes "lb_mangled d \<noteq> None" and "raa_ok (offsets (location st))"
  shows "\<exists>sub seg' ofs' pl cs. handle_herelabel env d (seg, ofs) st = Inr ((d\<lparr>lb_subsection := sub\<rparr>, seg', ofs'), st\<lparr>location := pl, calls := cs\<rparr>) \<and>
    raa_ok (offsets pl) \<and> (herelabel env = None \<longrightarrow> seg' = seg \<and> ofs' = ofs)"
proof (cases "herelabel env = None \<or> here_seg (location st) = NO_SEG \<or> \<not> (seg = here_seg (location st) \<and> ofs = here_off (location st))")
  case True
  then have "handle_herelabel env d (seg, ofs) st = Inr ((d, seg, ofs), st)"
    by (auto simp: handle_herelabel_def split: option.split)
  then show ?thesis using assms(2)
    by (intro exI [of _ "lb_subsection d"] exI [of _ seg] exI [of _ ofs] exI [of _ "location st"] exI [of _ "calls st"]) simp
next
  case False
  then obtain hl name where h: "herelabel env = Some hl" "lb_mangled d = Some name" using assms(1) by auto
  obtain newseg sub copyoffset where a: "hl (calls st) name (lb_type d) seg (lb_subsection d) = (newseg, sub, copyoffset)" by (cases "hl (calls st) name (lb_type d) seg (lb_subsection d)") auto
  let ?cs = "calls st @ [HereLabel name (lb_type d) seg (lb_subsection d)]"
  show ?thesis
  proof (cases "newseg = seg")
    case True
    then have "handle_herelabel env d (seg, ofs) st = Inr ((d\<lparr>lb_subsection := sub\<rparr>, seg, ofs), st\<lparr>location := location st, calls := ?cs\<rparr>)"
      using False h a by (simp add: handle_herelabel_def)
    then show ?thesis using assms(2)
      by (intro exI [of _ sub] exI [of _ seg] exI [of _ ofs] exI [of _ "location st"] exI [of _ ?cs]) simp
  next
    case ne: False
    obtain v where v: "raa_read (offsets (location st)) newseg = Inr v" using raa_read_get [OF assms(2)] by blast
    obtain newofs pl where s: "switch_segment newseg (location st) = Inr (newofs, pl)" "raa_ok (offsets pl)"
      using v assms(2) by (cases "newseg = NO_SEG") (auto simp: switch_segment_def Let_def)
    have "handle_herelabel env d (seg, ofs) st =
      Inr ((d\<lparr>lb_subsection := sub\<rparr>, newseg, if copyoffset then ofs else newofs),
        st\<lparr>location := (if copyoffset then pl\<lparr>here_off := ofs\<rparr> else pl), calls := ?cs\<rparr>)"
      using False h a s(1) ne by (simp add: handle_herelabel_def)
    moreover have "raa_ok (offsets (if copyoffset then pl\<lparr>here_off := ofs\<rparr> else pl))" using s(2) by simp
    ultimately show ?thesis using h(1)
      by (intro exI [of _ sub] exI [of _ newseg] exI [of _ "if copyoffset then ofs else newofs"]
        exI [of _ "if copyoffset then pl\<lparr>here_off := ofs\<rparr> else pl"] exI [of _ ?cs]) simp
  qed
qed

lemma promote_keeps: "lb_label (promote_extern s d) = lb_label d" "lb_defined (promote_extern s d) = lb_defined d"
  "lb_segment (promote_extern s d) = lb_segment d" "lb_offset (promote_extern s d) = lb_offset d"
  "lb_size (promote_extern s d) = lb_size d" "moves_on d (promote_extern s d)"
  by (auto simp: promote_extern_def moves_on_def type_path_def)

lemma settle_keeps: "moves_on d (settle_label label seg ofs d)" "lb_label (settle_label label seg ofs d) = lb_label d"
  "lb_defined (settle_label label seg ofs d)" "lb_segment (settle_label label seg ofs d) = seg"
  by (auto simp: settle_label_def moves_on_def type_path_def Let_def)

text \<open>The middle part of a definition: the symbol is mangled and may be moved.\<close>

lemma place_label_ok:
  assumes "raa_ok (offsets (location st))"
  shows "\<exists>d' seg' ofs' pl cs.
    place_label env d (seg, ofs) st = Inr ((d', seg', ofs'), st\<lparr>location := pl, calls := cs\<rparr>) \<and>
    raa_ok (offsets pl) \<and> moves_on d d' \<and> lb_label d' = lb_label d \<and> lb_type d' = lb_type d \<and> lb_defined d' = lb_defined d \<and>
    lb_segment d' = lb_segment d \<and> lb_offset d' = lb_offset d \<and> lb_size d' = lb_size d \<and>
    (herelabel env = None \<longrightarrow> seg' = seg \<and> ofs' = ofs)"
proof (cases "lb_defined d \<or> lb_type d = LBL_BACKEND")
  case True
  from handle_herelabel_ok [OF mangled(1) [of "mangle_strings st" d] assms, of env seg ofs] obtain sub seg' ofs' pl cs where
    h: "handle_herelabel env (mangle_label_name (mangle_strings st) d) (seg, ofs) st =
      Inr (((mangle_label_name (mangle_strings st) d)\<lparr>lb_subsection := sub\<rparr>, seg', ofs'), st\<lparr>location := pl, calls := cs\<rparr>)"
    "raa_ok (offsets pl)" "herelabel env = None \<longrightarrow> seg' = seg \<and> ofs' = ofs" by (elim exE conjE) (rule that; assumption)
  have "moves_on d ((mangle_label_name (mangle_strings st) d)\<lparr>lb_subsection := sub\<rparr>)" by (simp add: moves_on_def mangled type_path_def)
  then show ?thesis using True h
    by (intro exI [of _ "(mangle_label_name (mangle_strings st) d)\<lparr>lb_subsection := sub\<rparr>"] exI [of _ seg'] exI [of _ ofs'] exI [of _ pl] exI [of _ cs])
      (simp add: mangled place_label_def)
next
  case False
  then show ?thesis using assms
    by (intro exI [of _ d] exI [of _ seg] exI [of _ ofs] exI [of _ "location st"] exI [of _ "calls st"]) (simp add: place_label_def)
qed

lemma define_label_ok:
  fixes env segment
  assumes ok: "state_ok st" and c: "cstring label" and n: "labels st < 2 ^ 59"
  defines "name \<equiv> full_name env st label"
  defines "d0 \<equiv> symbol_or_new st name"
  defines "d1 \<equiv> promote_extern segment d0"
  defines "at \<equiv> define_segment d1 segment (next_seg st)"
  shows "\<exists>st' d seg ofs. define_label env label segment offset normal st = Inr st' \<and> state_ok st' \<and>
    symbol st' = (symbol st)(name \<mapsto> d) \<and> moves_on d0 d \<and> lb_defined d \<and>
    prevlabel st' = (if set_prevlabel (tasm_compatible_mode env) label \<and> normal then name else prevlabel st) \<and>
    next_seg st' = snd at \<and>
    lb_segment d = seg \<and> lb_offset d = (if lb_type d = LBL_COMMON then 0 else ofs) \<and>
    lb_size d = (if lb_type d = LBL_COMMON then ofs else 0) \<and>
    lb_type d = (if ismagic label \<and> lb_type d1 = LBL_LOCAL then LBL_SPECIAL else lb_type d1) \<and>
    (herelabel env = None \<longrightarrow> seg = fst at \<and> ofs = offset) \<and>
    global_offset_changed st' = global_offset_changed st + of_bool (label_changed (symbol st name = None) d0 d)"
proof -
  have lk: "labels_ok st" using ok by (simp add: state_ok_def)
  have cn: "cstring name" using cstring_full_name [OF lk c] by (simp add: name_def)
  from find_label_create [OF lk cstring_full_name [OF lk c] n] obtain p t bs f where
    1: "find_label env label True st = Inr (Some (p, symbol st name = None), st\<lparr>ltab := t, ldata := bs, lfree := f\<rparr>)"
       "labels_ok (st\<lparr>ltab := t, ldata := bs, lfree := f\<rparr>)" "entry (st\<lparr>ltab := t, ldata := bs, lfree := f\<rparr>) name = Some p"
       "symbol (st\<lparr>ltab := t, ldata := bs, lfree := f\<rparr>) = (symbol st)(name \<mapsto> d0)"
    unfolding d0_def symbol_or_new_def name_def by blast
  let ?s1 = "st\<lparr>ltab := t, ldata := bs, lfree := f\<rparr>"
  let ?s2 = "?s1\<lparr>next_seg := snd at\<rparr>"
  have g: "get_label p ?s1 = Inr d0" using entry_get [OF 1(2,3)] 1(4) by auto
  have ra: "raa_ok (offsets (location ?s2))" using ok by (simp add: state_ok_def)
  from place_label_ok [OF ra, of env d1 "fst at" offset] obtain d2 seg ofs pl cs where
    2: "place_label env d1 (fst at, offset) ?s2 = Inr ((d2, seg, ofs), ?s2\<lparr>location := pl, calls := cs\<rparr>)"
      "raa_ok (offsets pl)" "moves_on d1 d2" "lb_label d2 = lb_label d1" "lb_type d2 = lb_type d1" "lb_defined d2 = lb_defined d1"
      "lb_segment d2 = lb_segment d1" "lb_offset d2 = lb_offset d1" "lb_size d2 = lb_size d1"
      "herelabel env = None \<longrightarrow> seg = fst at \<and> ofs = offset" by (elim exE conjE) (rule that; assumption)
  define d3 where "d3 = settle_label label seg ofs d2"
  obtain d4 cs' where o: "out_symdef env (mangle_strings st) d3 = (d4, cs')" by fastforce
  note k = out_symdef_keeps [OF o]
  have l: "lb_label d2 = name" "lb_label d4 = name"
    using symbol_or_new_label [OF lk] by (simp_all add: k d3_def settle_keeps 2(4) d1_def promote_keeps d0_def)
  let ?pv = "if set_prevlabel (tasm_compatible_mode env) label \<and> normal then name else prevlabel st"
  let ?ch = "label_changed (symbol st name = None) d2 d3"
  let ?ms = "if ?ch \<and> pass0 env > 1 \<and> lb_type d3 \<noteq> LBL_SPECIAL then [ChangedInCodegen (lb_label d3) (symbol st name = None)] else []"
  define s3 where "s3 = put_label p d4 ?s1"
  define s4 where "s4 = s3\<lparr>next_seg := snd at, location := pl, calls := cs @ cs', prevlabel := ?pv,
    global_offset_changed := global_offset_changed st + of_bool ?ch, label_messages := label_messages st @ ?ms\<rparr>"
  obtain sg nx where sn: "at = (sg, nx)" by force
  have d2: "define_segment d1 segment (next_seg st) = (sg, nx)" using sn by (simp add: at_def)
  have "define_label env label segment offset normal st = Inr s4"
    using g d2 o l sn
    by (simp add: define_label_def 1(1) Let_def 2(1) [unfolded sn fst_conv snd_conv] d1_def [symmetric] d3_def [symmetric] s4_def s3_def put_label_def)
  moreover have s3: "labels_ok s3" "symbol s3 = (symbol st)(name \<mapsto> d4)"
    using put_label_ok [OF 1(2), of d4 p] 1(3,4) l by (simp_all add: s3_def)
  have "labels_ok s4" using s3(1) lk cn by (intro labels_ok_cong [OF _ _ _ _ _ s3(1)]) (simp_all add: s4_def labels_ok_def)
  then have "state_ok s4" using 2(2) by (simp add: state_ok_def s4_def)
  moreover have "symbol s4 = (symbol st)(name \<mapsto> d4)" using symbol_cong [of s4 s3] s3(2) by (simp add: s4_def)
  moreover have "moves_on d0 d4"
    using moves_on_trans [OF promote_keeps(6) [of d0 segment, folded d1_def] moves_on_trans [OF 2(3) settle_keeps(1) [of d2 label seg ofs, folded d3_def]]] k
    by (simp add: moves_on_def)
  moreover have "lb_type d4 = (if ismagic label \<and> lb_type d1 = LBL_LOCAL then LBL_SPECIAL else lb_type d1)"
    "lb_segment d4 = seg" "lb_offset d4 = (if lb_type d4 = LBL_COMMON then 0 else ofs)"
    "lb_size d4 = (if lb_type d4 = LBL_COMMON then ofs else 0)" "lb_defined d4"
    by (simp_all add: k d3_def settle_label_def Let_def 2(5))
  moreover have "?ch = label_changed (symbol st name = None) d0 d4"
    by (simp add: label_changed_def k d1_def promote_keeps 2(6-9))
  then have "global_offset_changed s4 = global_offset_changed st + of_bool (label_changed (symbol st name = None) d0 d4)"
    by (simp add: s4_def)
  moreover have "prevlabel s4 = ?pv" "next_seg s4 = snd at" by (simp_all add: s4_def sn)
  ultimately show ?thesis using 2(10)
    by (intro exI [of _ s4] exI [of _ d4] exI [of _ seg] exI [of _ ofs]) (intro conjI; assumption)
qed

lemma lookup_label_symbol:
  assumes ok: "labels_ok st" and c: "cstring label"
  shows "lookup_label env label st = Inr (case symbol st (full_name env st label) of None \<Rightarrow> None |
    Some d \<Rightarrow> if lb_defined d then Some (lb_segment d, lb_offset d) else None)"
proof -
  have i: "initialized st" using ok by (simp add: labels_ok_def)
  show ?thesis
  proof (cases "entry st (full_name env st label)")
    case None
    then show ?thesis using i find_label_ok [OF ok cstring_full_name [OF ok c], of env]
      by (simp add: lookup_label_def symbol_None [OF ok, THEN iffD2])
  next
    case (Some p)
    then obtain d where "get_label p st = Inr d" "symbol st (full_name env st label) = Some d" using entry_get [OF ok] by blast
    then show ?thesis using i Some find_label_ok [OF ok cstring_full_name [OF ok c], of env]
      by (simp add: lookup_label_def)
  qed
qed

lemma init_labels_ok:
  assumes "raa_ok (offsets (location st))"
  shows "\<exists>st'. init_labels st = Inr st' \<and> state_ok st' \<and> symbol st' = Map.empty \<and> labels st' = 0 \<and> location st' = location st"
proof -
  obtain t :: "label_ptr hash_table" where t: "hash_init (2 ^ 8) = Inr t" "hash_ok hash_calc (\<lambda>s. s) t" "hash_nodes t = []" "tsize t = 2 ^ 8"
    using hash_init_ok [of 8 hash_calc "\<lambda>s. s"] by auto
  let ?st = "st\<lparr>ltab := t, ldata := [init_block], lfree := (0, 0), prevlabel := [], initialized := True\<rparr>"
  have e: "entry ?st = Map.empty" using t(3) by (simp add: entry_def hash_map_def)
  have "init_labels st = Inr ?st" using t(1) by (simp add: init_labels_def HASH_LARGE_def)
  moreover have "state_ok ?st" using t assms e
    by (simp add: state_ok_def labels_ok_def arena_ok_def init_block_def LABEL_BLOCK_def nth_append cstring_def)
  moreover have "symbol ?st = Map.empty" using e by (simp add: symbol_def fun_eq_iff)
  moreover have "labels ?st = 0" using t(3) by (simp add: labels_def)
  ultimately show ?thesis by (intro exI [of _ ?st]) simp
qed

section \<open>Reachable states\<close>

text \<open>
  The operations that change the table, and those that move the assembly position, in any order and
  in any pass; 2 ^ 59 labels are more than memory holds.
\<close>

inductive label_step :: "label_state \<Rightarrow> label_state \<Rightarrow> bool" where
  declare_step: "cstring label \<Longrightarrow> labels st < 2 ^ 59 \<Longrightarrow> declare_label env label type special st = Inr (ok, st') \<Longrightarrow> label_step st st'"
| define_step: "cstring label \<Longrightarrow> labels st < 2 ^ 59 \<Longrightarrow> define_label env label segment offset normal st = Inr st' \<Longrightarrow> label_step st st'"
| backend_step: "cstring label \<Longrightarrow> labels st + 1 < 2 ^ 59 \<Longrightarrow> backend_label env label segment offset st = Inr st' \<Longrightarrow> label_step st st'"
| mangle_step: "label_step st (set_label_mangle which what st)"
| place_step: "raa_ok (offsets pl) \<Longrightarrow> label_step st (st\<lparr>location := pl\<rparr>)"

inductive_cases label_stepE: "label_step st st'"

text \<open>Every symbol of the first state is in the second, and has moved on.\<close>

definition symbols_move :: "label_state \<Rightarrow> label_state \<Rightarrow> bool" where
  "symbols_move st st' \<longleftrightarrow> (\<forall>name d. symbol st name = Some d \<longrightarrow> (\<exists>d'. symbol st' name = Some d' \<and> moves_on d d'))"

lemma symbols_move_refl: "symbol st' = symbol st \<Longrightarrow> symbols_move st st'"
  by (auto simp: symbols_move_def)

lemma symbols_move_trans: "symbols_move st st' \<Longrightarrow> symbols_move st' st'' \<Longrightarrow> symbols_move st st''"
  unfolding symbols_move_def using moves_on_trans by blast

lemma symbols_move_upd: "symbol st' = (symbol st)(name \<mapsto> d) \<Longrightarrow> moves_on (symbol_or_new st name) d \<Longrightarrow> symbols_move st st'"
  by (auto simp: symbols_move_def symbol_or_new_def)

lemma declare_step_ok:
  assumes "state_ok st" and "cstring label" and "labels st < 2 ^ 59" and "declare_label env label type special st = Inr (ok, st')"
  shows "state_ok st' \<and> symbols_move st st'"
proof -
  obtain r d' ms where d: "declare_label_lptr env type special (symbol_or_new st (full_name env st label)) = (r, d', ms)"
    by (metis surj_pair)
  from declare_label_ok [OF assms(1-3) d] assms(4) show ?thesis
    using symbols_move_upd [OF _ declare_moves_on [OF d]] by auto
qed

lemma define_step_ok:
  assumes "state_ok st" and "cstring label" and "labels st < 2 ^ 59" and "define_label env label segment offset normal st = Inr st'"
  shows "state_ok st' \<and> symbols_move st st'"
  using define_label_ok [OF assms(1-3), of env segment offset normal] assms(4)
    symbols_move_upd [of st' st "full_name env st label"] by auto

lemma label_step_ok: "label_step st st' \<Longrightarrow> state_ok st \<Longrightarrow> state_ok st' \<and> symbols_move st st'"
proof (induction rule: label_step.induct)
  case (declare_step label st env type special ok st')
  then show ?case using declare_step_ok by blast
next
  case (define_step label st env segment offset normal st')
  then show ?case using define_step_ok by blast
next
  case (backend_step label st env segment offset st')
  then obtain r d' ms where d: "declare_label_lptr env LBL_BACKEND None (symbol_or_new st (full_name env st label)) = (r, d', ms)"
    by (metis surj_pair)
  have "labels st < 2 ^ 59" using backend_step.hyps(2) by simp
  from declare_label_ok [OF backend_step.prems backend_step.hyps(1) this d] obtain st1 where
    1: "declare_label env label LBL_BACKEND None st = Inr (r, st1)" "state_ok st1" "labels st1 \<le> labels st + 1"
    "symbols_move st st1"
    using symbols_move_upd [OF _ declare_moves_on [OF d]] by blast
  then show ?case
    using backend_step.hyps define_step_ok [OF 1(2), of label env segment offset False st'] symbols_move_trans
    by (auto simp: backend_label_def split: if_splits)
next
  case (mangle_step st which what)
  have "ltab (set_label_mangle which what st) = ltab st" "ldata (set_label_mangle which what st) = ldata st"
    "lfree (set_label_mangle which what st) = lfree st" "initialized (set_label_mangle which what st) = initialized st"
    "prevlabel (set_label_mangle which what st) = prevlabel st" "location (set_label_mangle which what st) = location st"
    by (simp_all add: set_label_mangle_def)
  then show ?case using mangle_step labels_ok_cong [of "set_label_mangle which what st" st] symbol_cong [of "set_label_mangle which what st" st]
    by (simp add: state_ok_def labels_ok_def symbols_move_refl)
next
  case (place_step pl st)
  then show ?case using labels_ok_cong [of "st\<lparr>location := pl\<rparr>" st] symbol_cong [of "st\<lparr>location := pl\<rparr>" st]
    by (simp add: state_ok_def labels_ok_def symbols_move_refl)
qed

lemma label_steps_ok: "label_step\<^sup>*\<^sup>* st st' \<Longrightarrow> state_ok st \<Longrightarrow> state_ok st' \<and> symbols_move st st'"
  by (induction rule: rtranclp_induct) (use label_step_ok symbols_move_trans symbols_move_refl in blast)+

section \<open>Properties\<close>

text \<open>
  C2. Over all the passes symbols only move on. From the initial table, through any sequence of
  declarations, definitions, labels of the output format, changes of the mangling and moves of the
  assembly position, a symbol that is in the table stays there under its name; once defined it is
  defined for good; and its type changes only from local to another, or from external to global or
  common. In particular a symbol that is global, static, common, special or the back end's keeps
  its type.
\<close>

theorem symbols_only_move_on:
  assumes "raa_ok (offsets (location st0))" and "init_labels st0 = Inr st1"
    and "label_step\<^sup>*\<^sup>* st1 st" and "label_step\<^sup>*\<^sup>* st st'" and "symbol st name = Some d"
  shows "\<exists>d'. symbol st' name = Some d' \<and> lb_label d' = name \<and> (lb_defined d \<longrightarrow> lb_defined d') \<and>
    (lb_type d' = lb_type d \<or> lb_type d = LBL_LOCAL \<or>
     lb_type d = LBL_EXTERN \<and> (lb_type d' = LBL_GLOBAL \<or> lb_type d' = LBL_COMMON))"
proof -
  have "state_ok st1" using init_labels_ok [OF assms(1)] assms(2) by auto
  then have "state_ok st" using label_steps_ok [OF assms(3)] by blast
  then have s: "state_ok st'" "symbols_move st st'" using label_steps_ok [OF assms(4)] by blast+
  then obtain d' where d: "symbol st' name = Some d'" "moves_on d d'" using assms(5) unfolding symbols_move_def by blast
  then show ?thesis using symbol_label [OF _ d(1)] s(1) by (auto simp: state_ok_def moves_on_def type_path_def)
qed

definition st_void :: label_state where
  "st_void = \<lparr>ltab = \<lparr>table = [], load = 0, tsize = 0, max_load = 0\<rparr>, ldata = [], lfree = (0, 0), prevlabel = [], initialized = False,
     mangle_strings = (\<lambda>_. []), mangle_string_set = (\<lambda>_. False), global_offset_changed = 0, next_seg = 2,
     location = \<lparr>here_seg = 0, here_off = 0, abs_off = 0, in_abs = False, offsets = real_raa_init\<rparr>, calls = [], label_messages = []\<rparr>"

definition env_first :: label_env where
  "env_first = \<lparr>tasm_compatible_mode = False, pass0 = 0, herelabel = None\<rparr>"

lemma void_init: "\<exists>st1. init_labels st_void = Inr st1 \<and> state_ok st1 \<and> symbol st1 = Map.empty \<and> labels st1 = 0"
  using init_labels_ok [of st_void] raa_ok_init by (auto simp: st_void_def)

lemma void_extern:
  "\<exists>st1 st d. init_labels st_void = Inr st1 \<and> label_step\<^sup>*\<^sup>* st1 st \<and> state_ok st \<and> labels st \<le> 1 \<and> prevlabel st = prevlabel st1 \<and>
    symbol st [0x61] = Some d \<and> lb_type d = LBL_EXTERN"
proof -
  obtain st1 where 1: "init_labels st_void = Inr st1" "state_ok st1" "symbol st1 = Map.empty" "labels st1 = 0" using void_init by blast
  have c: "cstring [0x61]" by (simp add: cstring_def)
  have f: "full_name env_first st1 [0x61] = [0x61]" by (simp add: full_name_def islocal_def cchar_def env_first_def)
  have d: "declare_label_lptr env_first LBL_EXTERN None (symbol_or_new st1 (full_name env_first st1 [0x61])) =
      (True, (new_label [0x61])\<lparr>lb_type := LBL_EXTERN\<rparr>, [])"
    unfolding f by (simp add: symbol_or_new_def 1(3) declare_label_lptr_def env_first_def new_label_def Let_def)
  have n: "labels st1 < 2 ^ 59" using 1(4) by simp
  from declare_label_ok [OF 1(2) c n d] obtain st where
    s: "declare_label env_first [0x61] LBL_EXTERN None st1 = Inr (True, st)" "state_ok st" "prevlabel st = prevlabel st1"
       "symbol st = (symbol st1)([0x61] \<mapsto> (new_label [0x61])\<lparr>lb_type := LBL_EXTERN\<rparr>)" "labels st \<le> labels st1 + 1"
    unfolding f by blast
  have "label_step\<^sup>*\<^sup>* st1 st" using label_step.declare_step [OF c n s(1)] by blast
  then show ?thesis using 1(1,4) s by auto
qed

theorem symbols_only_move_on_witness:
  "\<exists>st1 st st' d d'. init_labels st_void = Inr st1 \<and> label_step\<^sup>*\<^sup>* st1 st \<and> label_step\<^sup>*\<^sup>* st st' \<and>
    symbol st [0x61] = Some d \<and> lb_type d = LBL_EXTERN \<and>
    symbol st' [0x61] = Some d' \<and> lb_type d' \<in> {LBL_EXTERN, LBL_GLOBAL, LBL_COMMON}"
proof -
  obtain st1 st d where s: "init_labels st_void = Inr st1" "label_step\<^sup>*\<^sup>* st1 st" "state_ok st" "labels st \<le> 1"
    "symbol st [0x61] = Some d" "lb_type d = LBL_EXTERN" using void_extern by blast
  have c: "cstring [0x61]" by (simp add: cstring_def)
  have n: "labels st < 2 ^ 59" using s(4) by simp
  from define_label_ok [OF s(3) c n, of env_first 2 16 True] obtain st' where
    "define_label env_first [0x61] 2 16 True st = Inr st'" by blast
  then have "label_step\<^sup>*\<^sup>* st st'" using label_step.define_step [OF c n] by blast
  moreover have "raa_ok (offsets (location st_void))" using raa_ok_init by (simp add: st_void_def)
  from symbols_only_move_on [OF this s(1,2) \<open>label_step\<^sup>*\<^sup>* st st'\<close> s(5)] s(6)
  have "\<exists>d'. symbol st' [0x61] = Some d' \<and> lb_type d' \<in> {LBL_EXTERN, LBL_GLOBAL, LBL_COMMON}" by auto
  ultimately show ?thesis using s by blast
qed

text \<open>
  C3. A definition is what is looked up: in every state that is reached, when no output format moves
  labels, the definition of a name with a segment succeeds; then every look-up, of any name in
  either mode, gives that segment and offset (0 for a common symbol) when its full name is the
  one defined, and what it gave before otherwise; the count of changes, by which the assembler
  decides on another pass, goes up exactly when the symbol is new, was not defined, or has another
  segment, offset or size; and a name that is not local becomes the one that local names hang on.
\<close>

theorem define_then_lookup:
  assumes "raa_ok (offsets (location st0))" and "init_labels st0 = Inr st1" and "label_step\<^sup>*\<^sup>* st1 st"
    and "cstring label" and "labels st < 2 ^ 59" and "herelabel env = None" and "segment \<noteq> 0"
  shows "\<exists>st' d. define_label env label segment offset normal st = Inr st' \<and>
    symbol st' (full_name env st label) = Some d \<and> lb_type d \<noteq> LBL_EXTERN \<and>
    (lb_type d = LBL_COMMON \<longleftrightarrow> lb_type (symbol_or_new st (full_name env st label)) = LBL_COMMON) \<and>
    prevlabel st' = (if set_prevlabel (tasm_compatible_mode env) label \<and> normal then full_name env st label else prevlabel st) \<and>
    global_offset_changed st' = global_offset_changed st +
      of_bool (label_changed (symbol st (full_name env st label) = None) (symbol_or_new st (full_name env st label)) d) \<and>
    (\<forall>env' l. cstring l \<longrightarrow> lookup_label env' l st' =
       (if full_name env' st' l = full_name env st label then Inr (Some (segment, if lb_type d = LBL_COMMON then 0 else offset))
        else lookup_label env' l (st\<lparr>prevlabel := prevlabel st'\<rparr>)))"
proof -
  let ?n = "full_name env st label"
  have "state_ok st1" using init_labels_ok [OF assms(1)] assms(2) by auto
  then have ok: "state_ok st" using label_steps_ok [OF assms(3)] by blast
  have at: "fst (define_segment d segment (next_seg st)) = segment" for d using assms(7) by (simp add: define_segment_def)
  have ty: "lb_type (promote_extern segment d) \<noteq> LBL_EXTERN"
    "lb_type (promote_extern segment d) = LBL_COMMON \<longleftrightarrow> lb_type d = LBL_COMMON" for d
    using assms(7) by (simp_all add: promote_extern_def)
  let ?d1 = "promote_extern segment (symbol_or_new st ?n)"
  from define_label_ok [OF ok assms(4,5), of env segment offset normal] obtain st' d seg ofs where
    1: "define_label env label segment offset normal st = Inr st'" "state_ok st'" "symbol st' = (symbol st)(?n \<mapsto> d)" "lb_defined d"
      "prevlabel st' = (if set_prevlabel (tasm_compatible_mode env) label \<and> normal then ?n else prevlabel st)"
      "global_offset_changed st' = global_offset_changed st + of_bool (label_changed (symbol st ?n = None) (symbol_or_new st ?n) d)"
      "lb_segment d = seg" "lb_offset d = (if lb_type d = LBL_COMMON then 0 else ofs)"
      "lb_type d = (if ismagic label \<and> lb_type ?d1 = LBL_LOCAL then LBL_SPECIAL else lb_type ?d1)"
      "herelabel env = None \<longrightarrow> seg = fst (define_segment ?d1 segment (next_seg st)) \<and> ofs = offset"
    by (elim exE conjE) (rule that; assumption)
  have sg: "lb_segment d = segment" "lb_offset d = (if lb_type d = LBL_COMMON then 0 else offset)"
    using 1(7,8,10) assms(6) at by simp_all
  have td: "lb_type d \<noteq> LBL_EXTERN" "lb_type d = LBL_COMMON \<longleftrightarrow> lb_type (symbol_or_new st ?n) = LBL_COMMON"
    using 1(9) ty [of "symbol_or_new st ?n"] by (auto split: if_splits)
  have lk: "labels_ok st'" "labels_ok st" using 1(2) ok by (simp_all add: state_ok_def)
  let ?s = "st\<lparr>prevlabel := prevlabel st'\<rparr>"
  have lk': "labels_ok ?s" by (rule labels_ok_cong [OF _ _ _ _ _ lk(2)]) (use lk(1) in \<open>simp_all add: labels_ok_def\<close>)
  have sy: "symbol ?s = symbol st" by (rule symbol_cong) simp_all
  have fn: "full_name env' ?s l = full_name env' st' l" for env' l by (simp add: full_name_def)
  have "lookup_label env' l st' = (if full_name env' st' l = ?n then Inr (Some (segment, if lb_type d = LBL_COMMON then 0 else offset))
        else lookup_label env' l ?s)" if "cstring l" for env' l
    using lookup_label_symbol [OF lk(1) that, of env'] lookup_label_symbol [OF lk' that, of env'] 1(3,4) sg by (simp add: sy fn)
  then show ?thesis using 1(1,3,5,6) td by (intro exI [of _ st'] exI [of _ d]) simp
qed

theorem define_then_lookup_witness:
  "\<exists>st1 st st'. init_labels st_void = Inr st1 \<and> label_step\<^sup>*\<^sup>* st1 st \<and>
    define_label env_first [0x61] 2 16 True st = Inr st' \<and> lookup_label env_first [0x61] st' = Inr (Some (2, 16)) \<and> prevlabel st' = [0x61]"
proof -
  obtain st1 st d where s: "init_labels st_void = Inr st1" "label_step\<^sup>*\<^sup>* st1 st" "labels st \<le> 1" "state_ok st"
    "symbol st [0x61] = Some d" "lb_type d = LBL_EXTERN" using void_extern by blast
  have c: "cstring [0x61]" by (simp add: cstring_def)
  have n: "labels st < 2 ^ 59" using s(3) by simp
  have f: "full_name env_first st [0x61] = [0x61]" for st by (simp add: full_name_def islocal_def cchar_def env_first_def)
  have p: "set_prevlabel (tasm_compatible_mode env_first) [0x61]" by (simp add: set_prevlabel_def cchar_def env_first_def)
  have "lb_type (symbol_or_new st [0x61]) \<noteq> LBL_COMMON" using s(5,6) by (simp add: symbol_or_new_def)
  moreover have "raa_ok (offsets (location st_void))" using raa_ok_init by (simp add: st_void_def)
  ultimately show ?thesis
    using define_then_lookup [of st_void st1 st "[0x61]" env_first 2 16 True] s(1,2) c n f p by (auto simp: env_first_def)
qed

end
