(* ===== verification/Passes.thy ===== *)
theory Passes
  imports Numbers
begin

text \<open>
  The passes of the assembler, the loop of \<open>assemble_file\<close> in \<open>asm/nasm.c\<close>, with the limits that
  bound it: optimization passes until no label changes, then one stabilization pass and one pass
  that generates code. What a pass does with the source is a parameter; its result is the number of
  changes that \<open>define_label\<close> counts (\<open>Labels\<close>), whether an error ends the assembly, and the limits
  that the source sets.
\<close>

section \<open>Limits\<close>

datatype nasm_limit = LIMIT_PASSES | LIMIT_STALLED | LIMIT_MACROS | LIMIT_REP | LIMIT_EVAL | LIMIT_LINES

definition LIMIT_MAX_VAL :: i64 where "LIMIT_MAX_VAL = signed_drop_bit 1 0x7FFFFFFFFFFFFFFF"

type_synonym limits = "nasm_limit \<Rightarrow> i64"

fun default_limit :: limits where
  "default_limit LIMIT_PASSES = LIMIT_MAX_VAL"
| "default_limit LIMIT_STALLED = 1000"
| "default_limit LIMIT_MACROS = 1000000"
| "default_limit LIMIT_REP = 1000000"
| "default_limit LIMIT_EVAL = 1000000"
| "default_limit LIMIT_LINES = 2000000000"

definition limit_info :: "(string \<times> nasm_limit) list" where
  "limit_info = [(''passes'', LIMIT_PASSES), (''stalled-passes'', LIMIT_STALLED), (''macro-levels'', LIMIT_MACROS),
     (''rep'', LIMIT_REP), (''eval'', LIMIT_EVAL), (''lines'', LIMIT_LINES)]"

text \<open>The limit, if the directive is accepted.\<close>

definition nasm_set_limit :: "bytes \<Rightarrow> bytes \<Rightarrow> limits \<Rightarrow> bool \<times> limits" where
  "nasm_set_limit limit valstr nasm_limit =
     (case find (\<lambda>(name, _). nasm_stricmp limit (bytes_of name) = 0) limit_info of
        None \<Rightarrow> (False, nasm_limit)
      | Some (_, i) \<Rightarrow>
          if nasm_stricmp valstr (bytes_of ''unlimited'') = 0 then (True, nasm_limit(i := LIMIT_MAX_VAL))
          else case readnum valstr of
            None \<Rightarrow> (False, nasm_limit)
          | Some (val, _) \<Rightarrow>
              if val <s 0 then (False, nasm_limit)
              else (True, nasm_limit(i := (if LIMIT_MAX_VAL <s val then LIMIT_MAX_VAL else val))))"

definition limits_ok :: "limits \<Rightarrow> bool" where
  "limits_ok lim \<longleftrightarrow> (\<forall>i. 0 \<le> sint (lim i) \<and> sint (lim i) < 2 ^ 62)"

section \<open>The loop\<close>

record pass_state =
  pass0 :: i32
  passn :: i64
  prev_offset_changed :: u64
  stall_count :: i64
  limit :: limits

record pass_report =
  changed :: u64
  terminate :: bool
  set_limits :: "(bytes \<times> bytes) list"

datatype pass_message = PhaseStabilization | PhaseCodegen | NoValidValues i64

definition pass1 :: "pass_state \<Rightarrow> int" where "pass1 s = (if pass0 s = 2 then 2 else 1)"
definition pass2 :: "pass_state \<Rightarrow> int" where "pass2 s = (if 1 <s passn s then 2 else 1)"

definition first_pass :: "limits \<Rightarrow> pass_state" where
  "first_pass lim = \<lparr>pass0 = 0, passn = 1, prev_offset_changed = lim LIMIT_PASSES, stall_count = 0, limit = lim\<rparr>"

definition phase_messages :: "pass_report \<Rightarrow> pass_state \<Rightarrow> pass_message list" where
  "phase_messages rep s =
     (if changed rep \<noteq> 0 \<and> \<not> terminate rep
      then if pass0 s = 1 then [PhaseStabilization] else if pass0 s = 2 then [PhaseCodegen] else []
      else [])"

definition count_pass :: "u64 \<Rightarrow> pass_state \<Rightarrow> pass_state" where
  "count_pass global_offset_changed s =
     (if 1 <s passn s \<and> global_offset_changed = 0 \<or> 0 <s pass0 s then s\<lparr>pass0 := pass0 s + 1\<rparr>
      else if global_offset_changed \<noteq> 0 \<and> global_offset_changed < prev_offset_changed s
      then s\<lparr>prev_offset_changed := global_offset_changed, stall_count := 0\<rparr>
      else s\<lparr>stall_count := stall_count s + 1\<rparr>)"

definition out_of_passes :: "pass_state \<Rightarrow> bool" where
  "out_of_passes s \<longleftrightarrow> limit s LIMIT_STALLED <s stall_count s \<or> limit s LIMIT_PASSES \<le>s passn s"

text \<open>
  The end of a pass: the state, whether the loop was left with \<open>break\<close>, and the messages.
\<close>

definition end_pass :: "pass_report \<Rightarrow> pass_state \<Rightarrow> pass_state \<times> bool \<times> pass_message list" where
  "end_pass rep s =
     (let s = s\<lparr>limit := fold (\<lambda>(l, v) lim. snd (nasm_set_limit l v lim)) (set_limits rep) (limit s)\<rparr>;
          msgs = phase_messages rep s;
          s = count_pass (changed rep) s
      in if terminate rep then (s, True, msgs)
         else if out_of_passes s then (s, True, msgs @ [NoValidValues (passn s)])
         else (s\<lparr>passn := passn s + 1\<rparr>, False, msgs))"

text \<open>
  The loop, with the passes that were made (their \<open>pass0\<close> and their report) and the messages.
\<close>

record pass_log =
  made :: "(i32 \<times> pass_report) list"
  said :: "pass_message list"

type_synonym 'st assembler = "i32 \<Rightarrow> i64 \<Rightarrow> limits \<Rightarrow> 'st \<Rightarrow> 'st \<times> pass_report"

partial_function (option) passes :: "'st assembler \<Rightarrow> pass_state \<Rightarrow> 'st \<Rightarrow> pass_log \<Rightarrow> (pass_state \<times> 'st \<times> pass_log) option" where
  "passes assemble s st l =
     (if \<not> pass0 s \<le>s 2 then Some (s, st, l)
      else let (st, rep) = assemble (pass0 s) (passn s) (limit s) st;
               (s', left, msgs) = end_pass rep s;
               l = \<lparr>made = made l @ [(pass0 s, rep)], said = said l @ msgs\<rparr>
           in if left then Some (s', st, l) else passes assemble s' st l)"

definition assemble_file :: "'st assembler \<Rightarrow> limits \<Rightarrow> 'st \<Rightarrow> (pass_state \<times> 'st \<times> pass_log) option" where
  "assemble_file assemble lim st = passes assemble (first_pass lim) st \<lparr>made = [], said = []\<rparr>"

section \<open>The limits stay in range\<close>

lemma limits_ok_default: "limits_ok default_limit"
proof -
  have "0 \<le> sint (default_limit i) \<and> sint (default_limit i) < 2 ^ 62" for i by (cases i) (simp_all add: LIMIT_MAX_VAL_def)
  then show ?thesis by (simp add: limits_ok_def)
qed

lemma limits_ok_set: "limits_ok lim \<Longrightarrow> limits_ok (snd (nasm_set_limit l v lim))"
proof -
  have m: "0 \<le> sint LIMIT_MAX_VAL" "sint LIMIT_MAX_VAL < 2 ^ 62" by (simp_all add: LIMIT_MAX_VAL_def)
  assume "limits_ok lim"
  then show ?thesis using m
    by (auto simp: nasm_set_limit_def limits_ok_def word_sless_alt split: option.split prod.split)
qed

lemma limits_ok_sets: "limits_ok lim \<Longrightarrow> limits_ok (fold (\<lambda>(l, v) lim. snd (nasm_set_limit l v lim)) ls lim)"
  by (induction ls arbitrary: lim) (auto intro: limits_ok_set)

section \<open>The order of the passes\<close>

text \<open>
  Optimization passes that leave the question open: no pass after the first is without changes.
  And those that settle it: the last one, not the first, is the first without changes.
\<close>

definition undecided :: "(i32 \<times> pass_report) list \<Rightarrow> bool" where
  "undecided ps \<longleftrightarrow> (\<forall>i < length ps. fst (ps ! i) = 0 \<and> (0 < i \<longrightarrow> changed (snd (ps ! i)) \<noteq> 0))"

definition settled :: "(i32 \<times> pass_report) list \<Rightarrow> bool" where
  "settled ps \<longleftrightarrow> (\<exists>qs r. ps = qs @ [(0, r)] \<and> qs \<noteq> [] \<and> undecided qs \<and> changed r = 0)"

text \<open>The passes made when \<open>pass0\<close> has a value.\<close>

definition in_order :: "(i32 \<times> pass_report) list \<Rightarrow> i32 \<Rightarrow> bool" where
  "in_order ps p \<longleftrightarrow> p = 0 \<and> undecided ps \<or> p = 1 \<and> settled ps \<or> p = 2 \<and> (\<exists>qs r. ps = qs @ [(1, r)] \<and> settled qs) \<or>
     p = 3 \<and> (\<exists>qs r r'. ps = qs @ [(1, r), (2, r')] \<and> settled qs)"

definition loop_ok :: "pass_state \<Rightarrow> pass_log \<Rightarrow> bool" where
  "loop_ok s l \<longleftrightarrow> limits_ok (limit s) \<and> sint (passn s) = int (length (made l)) + 1 \<and> sint (passn s) < 2 ^ 62 \<and> in_order (made l) (pass0 s)"

lemma undecided_snoc: "undecided (ps @ [(p, r)]) \<longleftrightarrow> undecided ps \<and> p = 0 \<and> (ps \<noteq> [] \<longrightarrow> changed r \<noteq> 0)"
  by (auto simp: undecided_def nth_append less_Suc_eq)

lemma count_pass_keeps: "limit (count_pass c s) = limit s" "passn (count_pass c s) = passn s"
  by (simp_all add: count_pass_def)

lemma count_pass_in_order:
  assumes o: "in_order (made l) (pass0 s)" and n: "sint (passn s) = int (length (made l)) + 1" and p: "pass0 s \<le>s 2"
  shows "in_order (made l @ [(pass0 s, rep)]) (pass0 (count_pass (changed rep) s))"
proof -
  consider "pass0 s = 0" "undecided (made l)" | "pass0 s = 1" "settled (made l)"
    | qs r where "pass0 s = 2" "made l = qs @ [(1, r)]" "settled qs" | "pass0 s = 3"
    using o by (auto simp: in_order_def)
  then show ?thesis
  proof cases
    case 1
    have "1 <s passn s \<longleftrightarrow> made l \<noteq> []" using n by (auto simp: word_sless_alt)
    then show ?thesis using 1 by (auto simp: in_order_def count_pass_def undecided_snoc settled_def word_sless_alt)
  next
    case 2
    then show ?thesis by (auto simp: in_order_def count_pass_def word_sless_alt)
  next
    case 3
    then show ?thesis by (auto simp: in_order_def count_pass_def word_sless_alt)
  next
    case 4
    then show ?thesis using p by (simp add: word_sle_eq)
  qed
qed

lemma sint_next: "0 \<le> sint n \<Longrightarrow> sint n < 2 ^ 62 \<Longrightarrow> sint (n + 1) = sint n + 1" for n :: i64
  by (simp add: sint_word_ariths signed_take_bit_int_eq_self)

text \<open>One pass.\<close>

lemma end_pass_ok:
  assumes ok: "loop_ok s l" and p: "pass0 s \<le>s 2" and e: "end_pass rep s = (s', left, msgs)"
  shows "in_order (made l @ [(pass0 s, rep)]) (pass0 s') \<and> limits_ok (limit s') \<and>
    (\<not> left \<longrightarrow> sint (passn s') = sint (passn s) + 1 \<and> sint (passn s') < 2 ^ 62) \<and>
    (left \<longrightarrow> terminate rep \<or> NoValidValues (passn s) \<in> set msgs \<and> out_of_passes s') \<and> (set_limits rep = [] \<longrightarrow> limit s' = limit s)"
proof -
  let ?lim = "fold (\<lambda>(l, v) lim. snd (nasm_set_limit l v lim)) (set_limits rep) (limit s)"
  let ?s = "s\<lparr>limit := ?lim\<rparr>"
  let ?c = "count_pass (changed rep) ?s"
  have n: "sint (passn s) = int (length (made l)) + 1" "sint (passn s) < 2 ^ 62" using ok by (simp_all add: loop_ok_def)
  have lim: "limits_ok ?lim" using ok limits_ok_sets by (simp add: loop_ok_def)
  have ord: "in_order (made l @ [(pass0 s, rep)]) (pass0 ?c)"
    using count_pass_in_order [of l ?s rep] ok p by (simp add: loop_ok_def)
  have next_ok: "sint (passn s + 1) = sint (passn s) + 1 \<and> sint (passn s + 1) < 2 ^ 62" if "\<not> out_of_passes ?c"
  proof -
    have "sint (passn s) < sint (?lim LIMIT_PASSES)" using that by (simp add: out_of_passes_def count_pass_keeps word_sle_eq)
    moreover have "sint (?lim LIMIT_PASSES) < 2 ^ 62" using lim by (simp add: limits_ok_def)
    moreover have "sint (passn s + 1) = sint (passn s) + 1" using n by (intro sint_next) simp_all
    ultimately show ?thesis by linarith
  qed
  consider "terminate rep" "s' = ?c" "left" | "\<not> terminate rep" "out_of_passes ?c" "s' = ?c" "left" "NoValidValues (passn s) \<in> set msgs"
    | "\<not> terminate rep" "\<not> out_of_passes ?c" "s' = ?c\<lparr>passn := passn s + 1\<rparr>" "\<not> left"
    using e by (auto simp: end_pass_def Let_def count_pass_keeps split: if_splits)
  then show ?thesis using ord lim next_ok by cases (auto simp: count_pass_keeps)
qed

lemma passes_ok:
  assumes "loop_ok s l"
  shows "\<exists>s' st' l'. passes assemble s st l = Some (s', st', l') \<and> in_order (made l') (pass0 s') \<and> limits_ok (limit s') \<and>
    length (made l') < 2 ^ 62 \<and>
    (pass0 s' = 3 \<or> (made l' \<noteq> [] \<and> terminate (snd (last (made l')))) \<or> (\<exists>n. NoValidValues n \<in> set (said l')) \<and> out_of_passes s')"
  using assms
proof (induction "nat (2 ^ 62 - sint (passn s))" arbitrary: s st l rule: less_induct)
  case less
  show ?case
  proof (cases "pass0 s \<le>s 2")
    case False
    then have "pass0 s = 3" using less.prems by (auto simp: loop_ok_def in_order_def word_sle_eq)
    moreover have "length (made l) < 2 ^ 62" using less.prems by (simp add: loop_ok_def)
    ultimately show ?thesis using False less.prems by (simp add: passes.simps [of assemble s] loop_ok_def)
  next
    case True
    obtain st1 rep where r: "assemble (pass0 s) (passn s) (limit s) st = (st1, rep)" by force
    obtain s1 left msgs where e: "end_pass rep s = (s1, left, msgs)" by (metis surj_pair)
    note ok = end_pass_ok [OF less.prems True e]
    let ?l = "\<lparr>made = made l @ [(pass0 s, rep)], said = said l @ msgs\<rparr>"
    have n: "sint (passn s) = int (length (made l)) + 1" "sint (passn s) < 2 ^ 62" using less.prems by (simp_all add: loop_ok_def)
    have u: "passes assemble s st l = (if left then Some (s1, st1, ?l) else passes assemble s1 st1 ?l)"
      using True r e by (simp add: passes.simps [of assemble s])
    show ?thesis
    proof (cases left)
      case l: True
      then show ?thesis using ok n u by (intro exI [of _ s1] exI [of _ st1] exI [of _ ?l]) auto
    next
      case l: False
      then have "loop_ok s1 ?l" using ok n by (simp add: loop_ok_def)
      moreover have "nat (2 ^ 62 - sint (passn s1)) < nat (2 ^ 62 - sint (passn s))" using ok l n by simp
      ultimately show ?thesis using less.hyps [of s1 ?l st1] u l by simp
    qed
  qed
qed

lemma first_pass_ok: "limits_ok lim \<Longrightarrow> loop_ok (first_pass lim) \<lparr>made = [], said = []\<rparr>"
  by (simp add: loop_ok_def first_pass_def in_order_def undecided_def)

text \<open>The optimization passes and the others.\<close>

definition opt_part :: "(i32 \<times> pass_report) list \<Rightarrow> bool" where
  "opt_part ps \<longleftrightarrow> (\<forall>i < length ps. fst (ps ! i) = 0 \<and> (0 < i \<and> i + 1 < length ps \<longrightarrow> changed (snd (ps ! i)) \<noteq> 0))"

lemma opt_part_undecided: "undecided ps \<Longrightarrow> opt_part ps"
  by (auto simp: undecided_def opt_part_def)

lemma opt_part_settled: "settled ps \<Longrightarrow> opt_part ps \<and> 2 \<le> length ps \<and> changed (snd (last ps)) = 0"
  by (auto simp: settled_def undecided_def opt_part_def nth_append less_Suc_eq Suc_le_eq)

lemma in_order_split:
  assumes "in_order ps p"
  shows "\<exists>opts qs. ps = opts @ qs \<and> opt_part opts \<and> map fst qs \<in> {[], [1], [1, 2]} \<and> (p = 0 \<longrightarrow> qs = []) \<and>
    (p \<noteq> 0 \<longrightarrow> 2 \<le> length opts \<and> changed (snd (last opts)) = 0 \<and> p = of_nat (length qs) + 1)"
proof -
  consider "p = 0" "undecided ps" | "p = 1" "settled ps" | qs r where "p = 2" "ps = qs @ [(1, r)]" "settled qs"
    | qs r r' where "p = 3" "ps = qs @ [(1, r), (2, r')]" "settled qs"
    using assms by (auto simp: in_order_def)
  then show ?thesis
  proof cases
    case 1
    then show ?thesis using opt_part_undecided by (intro exI [of _ ps] exI [of _ "[]"]) simp
  next
    case 2
    then show ?thesis using opt_part_settled by (intro exI [of _ ps] exI [of _ "[]"]) simp
  next
    case (3 qs r)
    then show ?thesis using opt_part_settled by (intro exI [of _ qs] exI [of _ "[(1, r)]"]) simp
  next
    case (4 qs r r')
    then show ?thesis using opt_part_settled by (intro exI [of _ qs] exI [of _ "[(1, r), (2, r')]"]) simp
  qed
qed



section \<open>Convergence\<close>

text \<open>The assembler's state before each optimization pass.\<close>

fun opt_world :: "'st assembler \<Rightarrow> limits \<Rightarrow> 'st \<Rightarrow> nat \<Rightarrow> 'st" where
  "opt_world assemble lim st 0 = st"
| "opt_world assemble lim st (Suc i) = fst (assemble 0 (of_nat (i + 1)) lim (opt_world assemble lim st i))"

definition opt_report :: "'st assembler \<Rightarrow> limits \<Rightarrow> 'st \<Rightarrow> nat \<Rightarrow> pass_report" where
  "opt_report assemble lim st i = snd (assemble 0 (of_nat (i + 1)) lim (opt_world assemble lim st i))"

text \<open>A pass that neither ends the assembly nor sets limits.\<close>

definition plain :: "pass_report \<Rightarrow> bool" where
  "plain rep \<longleftrightarrow> \<not> terminate rep \<and> set_limits rep = []"

lemma sint_small: "n < 2 ^ 62 \<Longrightarrow> sint (of_nat n :: i64) = int n"
  by (simp add: sint_uint unsigned_of_nat take_bit_nat_eq_self signed_take_bit_int_eq_self)

lemma end_pass_plain:
  assumes "plain rep"
  shows "end_pass rep s =
    (if out_of_passes (count_pass (changed rep) s) then (count_pass (changed rep) s, True, phase_messages rep s @ [NoValidValues (passn s)])
     else ((count_pass (changed rep) s)\<lparr>passn := passn s + 1\<rparr>, False, phase_messages rep s))"
proof -
  have "s\<lparr>limit := limit s\<rparr> = s" by simp
  then show ?thesis using assms by (simp add: end_pass_def plain_def Let_def count_pass_keeps)
qed

text \<open>The state before the optimization pass \<open>i + 1\<close>, when no pass before it settled the question.\<close>

definition opt_state :: "limits \<Rightarrow> nat \<Rightarrow> pass_state \<Rightarrow> bool" where
  "opt_state lim i s \<longleftrightarrow> pass0 s = 0 \<and> passn s = of_nat (i + 1) \<and> limit s = lim \<and> 0 \<le> sint (stall_count s) \<and> sint (stall_count s) \<le> int i"

lemma opt_state_next:
  assumes s: "opt_state lim i s" and c: "0 < i \<Longrightarrow> c \<noteq> 0" and i: "i + 1 < 2 ^ 62"
    and l: "int i < sint (lim LIMIT_STALLED)" "int i + 1 < sint (lim LIMIT_PASSES)"
  shows "\<not> out_of_passes (count_pass c s) \<and> opt_state lim (i + 1) ((count_pass c s)\<lparr>passn := passn s + 1\<rparr>)"
proof -
  have n: "1 <s passn s \<longleftrightarrow> 0 < i" using s i sint_small [of "i + 1"] by (simp add: opt_state_def word_sless_alt)
  have st: "sint (stall_count s + 1) = sint (stall_count s) + 1" using s i by (intro sint_next) (simp_all add: opt_state_def)
  have "count_pass c s = (if c \<noteq> 0 \<and> c < prev_offset_changed s then s\<lparr>prev_offset_changed := c, stall_count := 0\<rparr> else s\<lparr>stall_count := stall_count s + 1\<rparr>)"
    using s n c by (auto simp: count_pass_def opt_state_def)
  then show ?thesis using s i l st sint_small [of "i + 1"]
    by (auto simp: out_of_passes_def opt_state_def word_sless_alt word_sle_eq)
qed

lemma passes_step:
  assumes "pass0 s \<le>s 2" and "assemble (pass0 s) (passn s) (limit s) st = (st1, rep)" and "end_pass rep s = (s1, False, msgs)"
  shows "passes assemble s st l = passes assemble s1 st1 \<lparr>made = made l @ [(pass0 s, rep)], said = said l @ msgs\<rparr>"
  using assms by (simp add: passes.simps [of assemble s])

lemma opt_pass:
  assumes s: "opt_state lim i s" and p: "plain (opt_report assemble lim st i)" and c: "0 < i \<Longrightarrow> changed (opt_report assemble lim st i) \<noteq> 0"
    and b: "i + 1 < 2 ^ 62" "int i < sint (lim LIMIT_STALLED)" "int i + 1 < sint (lim LIMIT_PASSES)"
  shows "\<exists>s'. opt_state lim (i + 1) s' \<and> passes assemble s (opt_world assemble lim st i) l =
    passes assemble s' (opt_world assemble lim st (i + 1)) \<lparr>made = made l @ [(0, opt_report assemble lim st i)], said = said l\<rparr>"
proof -
  let ?r = "opt_report assemble lim st i"
  let ?s = "(count_pass (changed ?r) s)\<lparr>passn := passn s + 1\<rparr>"
  note n = opt_state_next [OF s c b]
  have "phase_messages ?r s = []" using s by (simp add: phase_messages_def opt_state_def)
  then have e: "end_pass ?r s = (?s, False, [])" using n by (simp add: end_pass_plain [OF p])
  have "assemble (pass0 s) (passn s) (limit s) (opt_world assemble lim st i) = (opt_world assemble lim st (i + 1), ?r)"
    using s by (simp add: opt_state_def opt_report_def)
  from passes_step [where assemble = assemble, OF _ this e] s have "passes assemble s (opt_world assemble lim st i) l =
      passes assemble ?s (opt_world assemble lim st (i + 1)) \<lparr>made = made l @ [(0, ?r)], said = said l\<rparr>"
    by (simp add: opt_state_def word_sle_eq)
  then show ?thesis using n by blast
qed

lemma opt_passes:
  assumes "opt_state lim i s" and "i \<le> m" and p: "\<forall>j. plain (opt_report assemble lim st j)"
    and c: "\<forall>j. 0 < j \<and> j < m \<longrightarrow> changed (opt_report assemble lim st j) \<noteq> 0"
    and b: "m + 1 < 2 ^ 62" "int m \<le> sint (lim LIMIT_STALLED)" "int m < sint (lim LIMIT_PASSES)"
  shows "\<exists>s'. opt_state lim m s' \<and> passes assemble s (opt_world assemble lim st i) l =
    passes assemble s' (opt_world assemble lim st m) \<lparr>made = made l @ map (\<lambda>j. (0, opt_report assemble lim st j)) [i..<m], said = said l\<rparr>"
  using assms(1,2)
proof (induction "m - i" arbitrary: i s l)
  case 0
  then show ?case by (intro exI [of _ s]) (cases l, simp)
next
  case (Suc d)
  then have i: "i < m" by simp
  from opt_pass [OF Suc.prems(1), of assemble st l] p c i b obtain s1 where
    1: "opt_state lim (i + 1) s1" "passes assemble s (opt_world assemble lim st i) l =
      passes assemble s1 (opt_world assemble lim st (i + 1)) \<lparr>made = made l @ [(0, opt_report assemble lim st i)], said = said l\<rparr>"
    by (auto simp del: opt_world.simps)
  have "d = m - (i + 1)" "i + 1 \<le> m" using Suc.hyps(2) i by simp_all
  from Suc.hyps(1) [OF this(1) 1(1) this(2), of "\<lparr>made = made l @ [(0, opt_report assemble lim st i)], said = said l\<rparr>"] 1(2) i
  show ?case by (simp del: opt_world.simps add: upt_conv_Cons)
qed

text \<open>The pass that settles the question, and those after it.\<close>

lemma last_pass:
  assumes "plain rep" and "1 <s passn s \<and> changed rep = 0 \<or> 0 <s pass0 s" and "pass0 s \<le>s 2" and "assemble (pass0 s) (passn s) (limit s) st = (st1, rep)"
    and "sint (stall_count s) \<le> sint (limit s LIMIT_STALLED)" and "sint (passn s) < sint (limit s LIMIT_PASSES)"
  shows "passes assemble s st l =
    passes assemble (s\<lparr>pass0 := pass0 s + 1, passn := passn s + 1\<rparr>) st1 \<lparr>made = made l @ [(pass0 s, rep)], said = said l @ phase_messages rep s\<rparr>"
proof -
  have "end_pass rep s = (s\<lparr>pass0 := pass0 s + 1, passn := passn s + 1\<rparr>, False, phase_messages rep s)"
    using assms by (auto simp: end_pass_plain count_pass_def out_of_passes_def word_sless_alt word_sle_eq)
  from passes_step [where assemble = assemble, OF _ assms(4) this] show ?thesis using assms(3) by simp
qed



end
