(* ===== verification/StdScan.thy ===== *)
theory StdScan
  imports Eval Quote Crc64
begin

text \<open>
  The standard scanner, \<open>asm/stdscan.c\<close>, with the perfect hash of the keywords, \<open>asm/tokhash.c\<close>,
  over the models of the number reader, of the quoted strings and of the CRC. The tables of the
  keywords are generated and are parameters.
\<close>

section \<open>Characters\<close>

definition isidstart :: "u8 \<Rightarrow> bool" where
  "isidstart c \<longleftrightarrow> isalpha c \<or> c = 0x5F \<or> c = 0x2E \<or> c = 0x3F \<or> c = 0x40"

definition isidchar :: "u8 \<Rightarrow> bool" where
  "isidchar c \<longleftrightarrow> isidstart c \<or> isdigit c \<or> c = 0x24 \<or> c = 0x23 \<or> c = 0x7E"

definition isbrcchar :: "u8 \<Rightarrow> bool" where
  "isbrcchar c \<longleftrightarrow> isidchar c \<or> c = 0x2D"

definition isnumstart :: "u8 \<Rightarrow> bool" where
  "isnumstart c \<longleftrightarrow> isdigit c \<or> c = 0x24"

definition isnumchar :: "u8 \<Rightarrow> bool" where
  "isnumchar c \<longleftrightarrow> isalnum c \<or> c = 0x5F"

definition IDLEN_MAX :: nat where "IDLEN_MAX = 4096"
definition DECOLEN_MAX :: nat where "DECOLEN_MAX = 32"
definition MAX_KEYWORD :: nat where "MAX_KEYWORD = 17"

section \<open>Keywords\<close>

definition TFLAG_BRC :: u8 where "TFLAG_BRC = 1"
definition TFLAG_BRC_OPT :: u8 where "TFLAG_BRC_OPT = 2"
definition TFLAG_BRC_ANY :: u8 where "TFLAG_BRC_ANY = TFLAG_BRC OR TFLAG_BRC_OPT"
definition TFLAG_WARN :: u8 where "TFLAG_WARN = 8"

record tokendata =
  td_string :: bytes
  td_type :: token_type
  td_aux :: "8 word"
  td_flag :: u8
  td_num :: i32

text \<open>The generated tables, and which registers are mask registers.\<close>

record token_tables =
  hash1 :: "16 word list"
  hash2 :: "16 word list"
  keyword_data :: "tokendata list"
  is_opmask :: "i64 \<Rightarrow> bool"

definition keyword_index :: "token_tables \<Rightarrow> bytes \<Rightarrow> nat result" where
  "keyword_index tb kw =
     (let crc = crc64 0xace2d0e480575791 kw;
          k1 = unat ((ucast crc :: u32) AND 0x7ff);
          k2 = unat ((ucast (drop_bit 32 crc) :: u32) AND 0x7ff)
      in guard (k1 < length (hash1 tb) \<and> k2 < length (hash2 tb)) OutOfBounds (Inr (unat (hash1 tb ! k1 + hash2 tb ! k2))))"

text \<open>The token and its flags.\<close>

definition nasm_token_hash :: "token_tables \<Rightarrow> bytes \<Rightarrow> tokenval \<Rightarrow> (tokenval \<times> u8) result" where
  "nasm_token_hash tb kw tv =
     andthen (keyword_index tb kw) (\<lambda>ix.
       if length (keyword_data tb) \<le> ix then Inr (tv\<lparr>t_type := TOKEN_ID\<rparr>, 0)
       else let data = keyword_data tb ! ix
            in if td_string data \<noteq> kw then Inr (tv\<lparr>t_type := TOKEN_ID\<rparr>, 0)
               else Inr (tv\<lparr>t_integer := scast (td_num data), t_inttwo := scast (td_aux data), t_type := td_type data\<rparr>, td_flag data))"

section \<open>State\<close>

text \<open>
  The rest of the line, the texts of the tokens that were copied, the size of the array that holds
  them, and the messages (without the texts they quote). The tokens are \<open>tokenval\<close>s of \<open>Eval\<close>; the null pointer is the empty text.
\<close>

record stdscan_state =
  bufptr :: bytes
  tempstorage :: "bytes list"
  tempsize :: nat
  scan_messages :: "(severity \<times> string) list"

definition STDSCAN_TEMP_DELTA :: nat where "STDSCAN_TEMP_DELTA = 256"

definition stdscan_set :: "bytes \<Rightarrow> stdscan_state \<Rightarrow> stdscan_state" where
  "stdscan_set str s = s\<lparr>bufptr := str\<rparr>"

definition stdscan_get :: "stdscan_state \<Rightarrow> bytes" where
  "stdscan_get s = bufptr s"

definition stdscan_pop :: "stdscan_state \<Rightarrow> stdscan_state result" where
  "stdscan_pop s = guard (tempstorage s \<noteq> []) OutOfBounds (Inr (s\<lparr>tempstorage := butlast (tempstorage s)\<rparr>))"

function stdscan_reset :: "stdscan_state \<Rightarrow> stdscan_state result" where
  "stdscan_reset s = (if tempstorage s = [] then Inr s else andthen (stdscan_pop s) stdscan_reset)"
  by pat_completeness auto
termination
  by (relation "measure (\<lambda>s. length (tempstorage s))") (auto simp: stdscan_pop_def guard_eq_Inr)

text \<open>The end: the array is released as well, though its size is kept, and no scan may follow.\<close>

definition stdscan_cleanup :: "stdscan_state \<Rightarrow> stdscan_state result" where
  "stdscan_cleanup s = stdscan_reset s"

definition stdscan_copy :: "bytes \<Rightarrow> stdscan_state \<Rightarrow> bytes \<times> stdscan_state" where
  "stdscan_copy text s =
     (text, s\<lparr>tempstorage := tempstorage s @ [text],
              tempsize := (if tempsize s \<le> length (tempstorage s) then tempsize s + STDSCAN_TEMP_DELTA else tempsize s)\<rparr>)"

definition stdscan_error :: "severity \<Rightarrow> string \<Rightarrow> stdscan_state \<Rightarrow> stdscan_state" where
  "stdscan_error sev msg s = s\<lparr>scan_messages := scan_messages s @ [(sev, msg)]\<rparr>"

section \<open>Tokens\<close>

text \<open>The lower case copy in \<open>ourcopy\<close>, which holds \<open>MAX_KEYWORD\<close> characters.\<close>

definition keyword_copy :: "bytes \<Rightarrow> bytes result" where
  "keyword_copy s = guard (length s \<le> MAX_KEYWORD) OutOfBounds (Inr (map nasm_tolower s))"

definition scan_ident :: "token_tables \<Rightarrow> stdscan_state \<Rightarrow> tokenval \<Rightarrow> (stdscan_state \<times> tokenval) result" where
  "scan_ident tb s tv =
     (let is_sym = (cchar (bufptr s) 0 = 0x24);
          r = (if is_sym then tl (bufptr s) else bufptr s);
          n = length (takeWhile isidchar (tl r)) + 1;
          s = s\<lparr>bufptr := drop n r\<rparr>;
          (text, s) = stdscan_copy (take (if n < IDLEN_MAX then n else IDLEN_MAX - 1) r) s;
          tv = tv\<lparr>t_charptr := text\<rparr>
      in if is_sym \<or> n > MAX_KEYWORD then Inr (s, tv\<lparr>t_type := TOKEN_ID\<rparr>)
         else andthen (keyword_copy text) (\<lambda>ourcopy.
              andthen (nasm_token_hash tb ourcopy tv) (\<lambda>(tv, flag).
                let s = (if flag AND TFLAG_WARN \<noteq> 0 then stdscan_error ERR_WARNING ''is not a NASM keyword'' s else s)
                in Inr (s, if flag AND TFLAG_BRC = 0 then tv else tv\<lparr>t_type := TOKEN_ID\<rparr>))))"

text \<open>The characters of a number from \<open>bufptr\<close>: what follows, and whether it is hexadecimal, floating-point or has an \<open>e\<close>.\<close>

fun number_loop :: "bytes \<Rightarrow> bool \<Rightarrow> bool \<Rightarrow> bool \<Rightarrow> bytes \<times> bool \<times> bool \<times> bool" where
  "number_loop [] hex is_float has_e = ([], hex, is_float, has_e)"
| "number_loop (c # cs) hex is_float has_e =
     (let signed = (cchar cs 0 = 0x2B \<or> cchar cs 0 = 0x2D)
      in if \<not> hex \<and> (c = 0x65 \<or> c = 0x45)
         then (if signed then number_loop (tl cs) hex True True else number_loop cs hex is_float True)
         else if c = 0x48 \<or> c = 0x68 \<or> c = 0x58 \<or> c = 0x78 then number_loop cs True is_float has_e
         else if c = 0x50 \<or> c = 0x70
         then (if signed then number_loop (tl cs) hex True has_e else number_loop cs hex True has_e)
         else if isnumchar c then number_loop cs hex is_float has_e
         else if c = 0x2E then number_loop cs hex True has_e
         else (c # cs, hex, is_float, has_e))"

definition scan_number :: "stdscan_state \<Rightarrow> tokenval \<Rightarrow> (stdscan_state \<times> tokenval) result" where
  "scan_number s tv =
     (let r = bufptr s;
          dollar = (cchar r 0 = 0x24);
          (rest, hex, is_float, has_e) = number_loop (if dollar then tl r else r) dollar False False;
          is_float = (is_float \<or> has_e \<and> \<not> hex);
          (text, s) = stdscan_copy (take (length r - length rest) r) (s\<lparr>bufptr := rest\<rparr>)
      in if is_float then Inr (s, tv\<lparr>t_charptr := text, t_type := TOKEN_FLOAT\<rparr>)
         else andthen (stdscan_pop s) (\<lambda>s.
           case readnum text of
             None \<Rightarrow> Inr (s, tv\<lparr>t_integer := 0, t_type := TOKEN_ERRNUM\<rparr>)
           | Some (n, warn) \<Rightarrow>
               Inr (if warn then stdscan_error ERR_WARNING ''numeric constant does not fit in 64 bits'' s else s,
                    tv\<lparr>t_integer := n, t_charptr := [], t_type := TOKEN_NUM\<rparr>)))"

definition scan_string :: "stdscan_state \<Rightarrow> tokenval \<Rightarrow> (stdscan_state \<times> tokenval) result" where
  "scan_string s tv =
     andthen (nasm_unquote (bufptr s)) (\<lambda>(ep, text).
       let start_quote = cchar (bufptr s) 0;
           rest = (case ep of None \<Rightarrow> bufptr s | Some p \<Rightarrow> drop p (bufptr s));
           tv = tv\<lparr>t_charptr := text, t_inttwo := of_nat (length text)\<rparr>
       in if cchar rest 0 \<noteq> start_quote then Inr (s\<lparr>bufptr := rest\<rparr>, tv\<lparr>t_type := TOKEN_ERRSTR\<rparr>)
          else Inr (s\<lparr>bufptr := tl rest\<rparr>, tv\<lparr>t_type := TOKEN_STR\<rparr>))"

definition stdscan_handle_brace :: "token_tables \<Rightarrow> stdscan_state \<Rightarrow> tokenval \<Rightarrow> u8 \<Rightarrow> stdscan_state \<times> tokenval" where
  "stdscan_handle_brace tb s tv flag =
     (if flag AND TFLAG_BRC_ANY = 0
      then (stdscan_error ERR_NONFATAL ''is not a valid decorator with braces'' s, tv\<lparr>t_type := TOKEN_INVALID\<rparr>)
      else if flag AND TFLAG_BRC_OPT \<noteq> 0 \<and> is_opmask tb (t_integer tv) then (s, tv\<lparr>t_type := TOKEN_OPMASK\<rparr>)
      else (s, tv))"

definition scan_brace :: "token_tables \<Rightarrow> stdscan_state \<Rightarrow> tokenval \<Rightarrow> (stdscan_state \<times> tokenval) result" where
  "scan_brace tb s tv =
     (let r = tl (dropWhile isspace (bufptr s));
          n = length (takeWhile isbrcchar r);
          (text, s) = stdscan_copy (take (if n < DECOLEN_MAX then n else DECOLEN_MAX - 1) r) (s\<lparr>bufptr := dropWhile isspace (drop n r)\<rparr>);
          tv = tv\<lparr>t_charptr := text\<rparr>
      in if cchar (bufptr s) 0 \<noteq> 0x7D \<or> n > MAX_KEYWORD
         then Inr (stdscan_error ERR_NONFATAL ''invalid decorator token inside braces'' s, tv\<lparr>t_type := TOKEN_INVALID\<rparr>)
         else andthen (keyword_copy text) (\<lambda>ourcopy.
              andthen (nasm_token_hash tb ourcopy tv) (\<lambda>(tv, flag).
                Inr (stdscan_handle_brace tb (s\<lparr>bufptr := tl (bufptr s)\<rparr>) tv flag))))"

text \<open>The operators of two characters.\<close>

definition double_op :: "u8 \<Rightarrow> u8 \<Rightarrow> token_type option" where
  "double_op c d =
     (if c = 0x3E \<and> d = 0x3E then Some TOKEN_SHR
      else if c = 0x3C \<and> d = 0x3C then Some TOKEN_SHL
      else if c = 0x2F \<and> d = 0x2F then Some TOKEN_SDIV
      else if c = 0x25 \<and> d = 0x25 then Some TOKEN_SMOD
      else if c = 0x3D \<and> d = 0x3D then Some TOKEN_EQ
      else if c = 0x3C \<and> d = 0x3E then Some TOKEN_NE
      else if c = 0x21 \<and> d = 0x3D then Some TOKEN_NE
      else if c = 0x3C \<and> d = 0x3D then Some TOKEN_LE
      else if c = 0x3E \<and> d = 0x3D then Some TOKEN_GE
      else if c = 0x26 \<and> d = 0x26 then Some TOKEN_DBL_AND
      else if c = 0x5E \<and> d = 0x5E then Some TOKEN_DBL_XOR
      else if c = 0x7C \<and> d = 0x7C then Some TOKEN_DBL_OR
      else None)"

definition stdscan :: "token_tables \<Rightarrow> stdscan_state \<Rightarrow> tokenval \<Rightarrow> (stdscan_state \<times> tokenval) result" where
  "stdscan tb s tv =
     (let s = s\<lparr>bufptr := dropWhile isspace (bufptr s)\<rparr>;
          c = cchar (bufptr s) 0; d = cchar (bufptr s) 1
      in if c = 0 then Inr (s, tv\<lparr>t_type := TOKEN_EOS\<rparr>)
         else if isidstart c \<or> c = 0x24 \<and> isidstart d then scan_ident tb s tv
         else if c = 0x24 \<and> \<not> isnumchar d
         then (if d = 0x24 then Inr (s\<lparr>bufptr := drop 2 (bufptr s)\<rparr>, tv\<lparr>t_type := TOKEN_BASE\<rparr>)
               else Inr (s\<lparr>bufptr := tl (bufptr s)\<rparr>, tv\<lparr>t_type := TOKEN_HERE\<rparr>))
         else if isnumstart c then scan_number s tv
         else if c = 0x27 \<or> c = 0x22 \<or> c = 0x60 then scan_string s tv
         else if c = 0x7B then scan_brace tb s tv
         else if c = 0x3B then Inr (s, tv\<lparr>t_type := TOKEN_EOS\<rparr>)
         else case double_op c d of
                Some j \<Rightarrow> Inr (s\<lparr>bufptr := drop 2 (bufptr s)\<rparr>, tv\<lparr>t_type := j\<rparr>)
              | None \<Rightarrow> Inr (s\<lparr>bufptr := tl (bufptr s)\<rparr>, tv\<lparr>t_type := TOKEN_CHAR c\<rparr>))"

section \<open>The keyword table\<close>

text \<open>The tables of a perfect hash: every keyword is found at its own place.\<close>

definition tables_ok :: "token_tables \<Rightarrow> bool" where
  "tables_ok tb \<longleftrightarrow> length (hash1 tb) = 2048 \<and> length (hash2 tb) = 2048"

definition perfect :: "token_tables \<Rightarrow> bool" where
  "perfect tb \<longleftrightarrow> tables_ok tb \<and> (\<forall>i < length (keyword_data tb). keyword_index tb (td_string (keyword_data tb ! i)) = Inr i)"

lemma unat_and_7ff: "unat (w AND 0x7ff :: u32) < 2048"
proof -
  have "w AND 0x7ff = take_bit 11 w" by (simp add: take_bit_eq_mask mask_eq_exp_minus_1)
  then have "unat (w AND 0x7ff) = take_bit 11 (unat w)" by (simp add: unsigned_take_bit_eq)
  then show ?thesis using take_bit_nat_less_exp [of 11 "unat w"] by simp
qed

lemma keyword_index_ok: "tables_ok tb \<Longrightarrow> \<exists>i. keyword_index tb kw = Inr i"
  by (simp add: keyword_index_def tables_ok_def guard_def Let_def unat_and_7ff)

lemma token_hash_ok:
  assumes "tables_ok tb"
  shows "nasm_token_hash tb kw tv = Inr (tv\<lparr>t_type := TOKEN_ID\<rparr>, 0) \<or>
    (\<exists>d \<in> set (keyword_data tb). td_string d = kw \<and>
      nasm_token_hash tb kw tv = Inr (tv\<lparr>t_integer := scast (td_num d), t_inttwo := scast (td_aux d), t_type := td_type d\<rparr>, td_flag d))"
proof -
  obtain i where "keyword_index tb kw = Inr i" using keyword_index_ok [OF assms] by blast
  then show ?thesis by (cases "i < length (keyword_data tb)") (auto simp: nasm_token_hash_def Let_def)
qed

lemma token_hash_lookup:
  assumes "perfect tb"
  shows "nasm_token_hash tb kw tv = Inr (case find (\<lambda>d. td_string d = kw) (keyword_data tb) of
     None \<Rightarrow> (tv\<lparr>t_type := TOKEN_ID\<rparr>, 0)
   | Some d \<Rightarrow> (tv\<lparr>t_integer := scast (td_num d), t_inttwo := scast (td_aux d), t_type := td_type d\<rparr>, td_flag d))"
proof -
  obtain ix where ix: "keyword_index tb kw = Inr ix" using keyword_index_ok [of tb kw] assms unfolding perfect_def by blast
  have own: "ix = i" if "i < length (keyword_data tb)" "td_string (keyword_data tb ! i) = kw" for i
    using assms that ix by (auto simp: perfect_def)
  show ?thesis
  proof (cases "ix < length (keyword_data tb) \<and> td_string (keyword_data tb ! ix) = kw")
    case True
    have "td_string (keyword_data tb ! j) \<noteq> kw" if "j < ix" for j using own [of j] True that by auto
    then have "find (\<lambda>d. td_string d = kw) (keyword_data tb) = Some (keyword_data tb ! ix)"
      unfolding find_Some_iff using True by blast
    with True ix show ?thesis by (simp add: nasm_token_hash_def Let_def)
  next
    case False
    then have "find (\<lambda>d. td_string d = kw) (keyword_data tb) = None"
      using own by (auto simp: find_None_iff in_set_conv_nth)
    with False ix show ?thesis by (auto simp: nasm_token_hash_def Let_def)
  qed
qed

section \<open>Every scan ends and goes on\<close>

definition storage_ok :: "stdscan_state \<Rightarrow> bool" where
  "storage_ok s \<longleftrightarrow> length (tempstorage s) \<le> tempsize s"

text \<open>Registers have the numbers that the evaluator expects.\<close>

definition registers_ok :: "token_tables \<Rightarrow> bool" where
  "registers_ok tb \<longleftrightarrow> (\<forall>d \<in> set (keyword_data tb). td_type d = TOKEN_REG \<longrightarrow> 1 \<le> sint (td_num d) \<and> sint (td_num d) \<le> EXPR_REG_END)"

definition scanned :: "stdscan_state \<Rightarrow> (stdscan_state \<times> tokenval) result \<Rightarrow> bool" where
  "scanned s r \<longleftrightarrow> (\<exists>s' tv n. r = Inr (s', tv) \<and> bufptr s' = drop n (bufptr s) \<and> (0 < n \<or> t_type tv = TOKEN_EOS) \<and>
     (storage_ok s \<longrightarrow> storage_ok s') \<and> good_token tv)"

lemma copy_ok: "storage_ok s \<Longrightarrow> storage_ok (snd (stdscan_copy text s))"
  by (simp add: storage_ok_def stdscan_copy_def STDSCAN_TEMP_DELTA_def)

lemma ucast_scast: "ucast (scast (x :: i32) :: i64) = x"
  by transfer (simp add: take_bit_signed_take_bit)

lemma token_hash_good:
  assumes "tables_ok tb" and "registers_ok tb"
  shows "\<exists>tv' flag. nasm_token_hash tb kw tv = Inr (tv', flag) \<and> good_token tv'"
  using token_hash_ok [OF assms(1), of kw tv] assms(2)
  by (auto simp: good_token_def registers_ok_def ucast_scast)

lemma scanned_drop:
  "storage_ok s \<longrightarrow> storage_ok s' \<Longrightarrow> bufptr s' = drop n (bufptr s) \<Longrightarrow> 0 < n \<Longrightarrow> good_token tv \<Longrightarrow> scanned s (Inr (s', tv))"
  unfolding scanned_def by blast

lemma scanned_error: "scanned s (Inr (s', tv)) \<Longrightarrow> scanned s (Inr (stdscan_error sev msg s', tv))"
  by (simp add: scanned_def stdscan_error_def storage_ok_def)

lemma scan_ident_ok:
  assumes "tables_ok tb" and "registers_ok tb"
  shows "scanned s (scan_ident tb s tv)"
proof -
  define r where "r = (if cchar (bufptr s) 0 = 0x24 then tl (bufptr s) else bufptr s)"
  define n where "n = length (takeWhile isidchar (tl r)) + 1"
  define str where "str = take (if n < IDLEN_MAX then n else IDLEN_MAX - 1) r"
  define s1 where "s1 = snd (stdscan_copy str (s\<lparr>bufptr := drop n r\<rparr>))"
  have st: "storage_ok s \<longrightarrow> storage_ok s1" using copy_ok [of "s\<lparr>bufptr := drop n r\<rparr>"] by (simp add: storage_ok_def s1_def)
  have d: "bufptr s1 = drop (if cchar (bufptr s) 0 = 0x24 then Suc n else n) (bufptr s)"
    by (simp add: stdscan_copy_def r_def drop_Suc s1_def)
  have t: "length str \<le> MAX_KEYWORD" if "n \<le> MAX_KEYWORD" using that by (simp add: str_def IDLEN_MAX_def MAX_KEYWORD_def)
  obtain tv' flag where h: "nasm_token_hash tb (map nasm_tolower str) (tv\<lparr>t_charptr := str\<rparr>) = Inr (tv', flag)" "good_token tv'"
    using token_hash_good [OF assms(1,2)] by blast
  have g: "good_token (tv\<lparr>t_charptr := str, t_type := TOKEN_ID\<rparr>)" "good_token (tv'\<lparr>t_type := TOKEN_ID\<rparr>)" by (simp_all add: good_token_def)
  have i: "0 < (if cchar (bufptr s) 0 = 0x24 then Suc n else n)" by (simp add: n_def)
  note sc = scanned_drop [OF st d i]
  have cp: "stdscan_copy str (s\<lparr>bufptr := drop n r\<rparr>) = (str, s1)" by (simp add: stdscan_copy_def s1_def)
  have u: "scan_ident tb s tv = (if cchar (bufptr s) 0 = 0x24 \<or> n > MAX_KEYWORD then Inr (s1, tv\<lparr>t_charptr := str, t_type := TOKEN_ID\<rparr>)
    else andthen (keyword_copy str) (\<lambda>ourcopy. andthen (nasm_token_hash tb ourcopy (tv\<lparr>t_charptr := str\<rparr>)) (\<lambda>(tv, flag).
      Inr (if flag AND TFLAG_WARN \<noteq> 0 then stdscan_error ERR_WARNING ''is not a NASM keyword'' s1 else s1,
        if flag AND TFLAG_BRC = 0 then tv else tv\<lparr>t_type := TOKEN_ID\<rparr>))))"
    unfolding scan_ident_def Let_def r_def [symmetric] n_def [symmetric] str_def [symmetric] cp prod.case by (rule refl)
  show ?thesis
  proof (cases "cchar (bufptr s) 0 = 0x24 \<or> n > MAX_KEYWORD")
    case True
    show ?thesis unfolding u if_P [OF True] by (rule sc [OF g(1)])
  next
    case False
    then have "keyword_copy str = Inr (map nasm_tolower str)" using t by (simp add: keyword_copy_def guard_def)
    then show ?thesis using sc [OF g(2)] sc [OF h(2)] scanned_error unfolding u if_not_P [OF False] by (simp add: h(1))
  qed
qed

lemma number_loop_drop: "\<exists>n. fst (number_loop r hex flt e) = drop n r \<and> (r \<noteq> [] \<and> isnumchar (hd r) \<longrightarrow> 0 < n)"
proof (induction "length r" arbitrary: r hex flt e rule: less_induct)
  case less
  show ?case
  proof (cases r)
    case (Cons c cs)
    define S where "S = {y :: bytes \<times> bool \<times> bool \<times> bool. \<exists>n. fst y = drop n r \<and> (isnumchar c \<longrightarrow> 0 < n)}"
    have S: "y \<in> S" if "fst y = drop n r" "0 < n" for y n unfolding S_def using that by blast
    have 1: "number_loop cs h f x \<in> S" for h f x
    proof -
      obtain n where "fst (number_loop cs h f x) = drop n cs" using less [of cs h f x] Cons by auto
      then show ?thesis by (intro S [of _ "Suc n"]) (simp_all add: Cons)
    qed
    have 2: "number_loop (tl cs) h f x \<in> S" for h f x
    proof -
      have "length (tl cs) < length r" by (simp add: Cons)
      from less [OF this, of h f x] obtain n where "fst (number_loop (tl cs) h f x) = drop n (tl cs)" by blast
      then show ?thesis by (intro S [of _ "Suc (Suc n)"]) (simp_all add: Cons drop_Suc)
    qed
    have 3: "(c # cs, h, f, x) \<in> S" if "\<not> isnumchar c" for h f x using that unfolding S_def by (auto simp: Cons intro: exI [of _ 0])
    have "number_loop r hex flt e \<in> S"
      unfolding Cons number_loop.simps Let_def using 1 2 3 by simp
    then show ?thesis by (auto simp: S_def Cons)
  qed simp
qed

lemma scan_number_ok:
  assumes c: "isnumstart (cchar (bufptr s) 0)" "bufptr s \<noteq> []"
  shows "scanned s (scan_number s tv)"
proof -
  let ?r = "bufptr s" and ?d = "cchar (bufptr s) 0 = 0x24"
  obtain rest hex flt e where l: "number_loop (if ?d then tl ?r else ?r) ?d False False = (rest, hex, flt, e)"
    by (metis prod.exhaust)
  have "\<exists>n > 0. rest = drop n ?r"
  proof (cases ?d)
    case True
    then obtain n where "rest = drop n (tl ?r)" using number_loop_drop [of "tl ?r" True False False] l by auto
    then show ?thesis by (intro exI [of _ "Suc n"]) (simp add: drop_Suc)
  next
    case False
    then have "isnumchar (hd ?r)" using c by (cases ?r) (auto simp: isnumstart_def isnumchar_def isalnum_def cchar_def)
    then show ?thesis using number_loop_drop [of ?r False False False] c(2) False l by auto
  qed
  then obtain n where n: "0 < n" "rest = drop n ?r" by blast
  define str where "str = take (length ?r - length rest) ?r"
  have cp: "stdscan_copy str (s\<lparr>bufptr := rest\<rparr>) = (str, s\<lparr>bufptr := rest, tempstorage := tempstorage s @ [str],
      tempsize := (if tempsize s \<le> length (tempstorage s) then tempsize s + STDSCAN_TEMP_DELTA else tempsize s)\<rparr>)"
    by (simp add: stdscan_copy_def)
  have g: "good_token (tv\<lparr>t_charptr := x, t_type := TOKEN_FLOAT\<rparr>)" "good_token (tv\<lparr>t_integer := 0, t_type := TOKEN_ERRNUM\<rparr>)"
    "good_token (tv\<lparr>t_integer := y, t_charptr := [], t_type := TOKEN_NUM\<rparr>)" for x y by (simp_all add: good_token_def)
  show ?thesis
    unfolding scan_number_def Let_def l prod.case str_def [symmetric] cp
    using n g by (auto simp: scanned_def stdscan_pop_def guard_def stdscan_error_def storage_ok_def STDSCAN_TEMP_DELTA_def split: option.split)
qed

lemma unq_loop_ge: "p \<le> fst (unq_loop str p u)"
proof (induction str p u rule: unq_loop.induct)
  case (1 str p u)
  show ?case
  proof (cases "cchar str p = 0 \<or> unq_step str p u = None")
    case True
    then show ?thesis by (subst unq_loop.simps) auto
  next
    case False
    then obtain p' u' out where st: "unq_step str p u = Some (p', u', out)" "cchar str p \<noteq> 0" by auto
    then have "p' \<le> fst (unq_loop str p' u')" using "1.IH" by blast
    moreover have "p \<le> p'" using unq_step_progress [OF st(1)] by auto
    ultimately show ?thesis using st by (subst unq_loop.simps) (auto split: prod.split)
  qed
qed

lemma scan_string_ok:
  assumes c: "cchar (bufptr s) 0 \<in> {0x27, 0x22, 0x60}"
  shows "scanned s (scan_string s tv)"
proof -
  have b: "bufptr s \<noteq> []" "hd (bufptr s) = cchar (bufptr s) 0" "cchar (bufptr s) 0 \<noteq> 0"
    using c by (cases "bufptr s"; auto simp: cchar_def)+
  obtain p str where u: "nasm_unquote (bufptr s) = Inr (Some p, str)" "0 < p"
    using c b unq_loop_ge [of 1 "bufptr s" unq_init] nasm_unquote_bq [of "bufptr s"]
    by (cases "unq_loop (bufptr s) 1 unq_init") (fastforce simp: nasm_unquote_def Let_def)
  have g: "good_token (tv\<lparr>t_charptr := str, t_inttwo := n, t_type := TOKEN_ERRSTR\<rparr>)"
    "good_token (tv\<lparr>t_charptr := str, t_inttwo := n, t_type := TOKEN_STR\<rparr>)" for n by (simp_all add: good_token_def)
  have t: "tl (drop p (bufptr s)) = drop (Suc p) (bufptr s)" by (simp add: drop_Suc tl_drop)
  have st: "storage_ok s \<longrightarrow> storage_ok (s\<lparr>bufptr := r\<rparr>)" for r by (simp add: storage_ok_def)
  show ?thesis
    using scanned_drop [OF st, of "drop p (bufptr s)" p] scanned_drop [OF st, of "drop (Suc p) (bufptr s)" "Suc p"] u(2) g
    by (simp add: scan_string_def u(1) Let_def t)
qed

lemma dropWhile_drop: "\<exists>k. dropWhile P xs = drop k xs"
  by (metis dropWhile_eq_drop)

lemma handle_brace_ok:
  assumes "storage_ok s \<longrightarrow> storage_ok s'" and "bufptr s' = drop n (bufptr s)" and "0 < n" and "good_token tv"
  shows "scanned s (Inr (stdscan_handle_brace tb s' tv flag))"
proof -
  have g: "good_token (tv\<lparr>t_type := TOKEN_INVALID\<rparr>)" "good_token (tv\<lparr>t_type := TOKEN_OPMASK\<rparr>)" by (simp_all add: good_token_def)
  note sc = scanned_drop [OF assms(1-3)]
  show ?thesis using sc [OF g(2)] sc [OF assms(4)] scanned_error [OF sc [OF g(1)]] by (simp add: stdscan_handle_brace_def)
qed

lemma scan_brace_ok:
  assumes "tables_ok tb" and "registers_ok tb" and "bufptr s \<noteq> []" and "\<not> isspace (hd (bufptr s))"
  shows "scanned s (scan_brace tb s tv)"
proof -
  define r where "r = tl (dropWhile isspace (bufptr s))"
  define n where "n = length (takeWhile isbrcchar r)"
  define str where "str = take (if n < DECOLEN_MAX then n else DECOLEN_MAX - 1) r"
  define s1 where "s1 = snd (stdscan_copy str (s\<lparr>bufptr := dropWhile isspace (drop n r)\<rparr>))"
  have cp: "stdscan_copy str (s\<lparr>bufptr := dropWhile isspace (drop n r)\<rparr>) = (str, s1)" by (simp add: stdscan_copy_def s1_def)
  have st: "storage_ok s \<longrightarrow> storage_ok s1" using copy_ok [of "s\<lparr>bufptr := dropWhile isspace (drop n r)\<rparr>"] by (simp add: storage_ok_def s1_def)
  have r: "r = drop 1 (bufptr s)" using assms(3,4) by (cases "bufptr s") (auto simp: r_def)
  obtain k where k: "dropWhile isspace (drop n r) = drop k (drop n r)" using dropWhile_drop by blast
  have "bufptr s1 = drop k (drop n r)" by (simp add: s1_def stdscan_copy_def k)
  then have d: "bufptr s1 = drop (k + n + 1) (bufptr s)" by (simp add: r)
  have d': "bufptr (s1\<lparr>bufptr := tl (bufptr s1)\<rparr>) = drop (k + n + 2) (bufptr s)" by (simp add: d drop_Suc tl_drop)
  have st': "storage_ok s \<longrightarrow> storage_ok (s1\<lparr>bufptr := tl (bufptr s1)\<rparr>)" using st by (simp add: storage_ok_def)
  obtain tv' flag where h: "nasm_token_hash tb (map nasm_tolower str) (tv\<lparr>t_charptr := str\<rparr>) = Inr (tv', flag)" "good_token tv'"
    using token_hash_good [OF assms(1,2)] by blast
  have g: "good_token (tv\<lparr>t_charptr := str, t_type := TOKEN_INVALID\<rparr>)" by (simp add: good_token_def)
  have u: "scan_brace tb s tv = (if cchar (bufptr s1) 0 \<noteq> 0x7D \<or> n > MAX_KEYWORD
      then Inr (stdscan_error ERR_NONFATAL ''invalid decorator token inside braces'' s1, tv\<lparr>t_charptr := str, t_type := TOKEN_INVALID\<rparr>)
      else andthen (keyword_copy str) (\<lambda>ourcopy. andthen (nasm_token_hash tb ourcopy (tv\<lparr>t_charptr := str\<rparr>)) (\<lambda>(tv, flag).
        Inr (stdscan_handle_brace tb (s1\<lparr>bufptr := tl (bufptr s1)\<rparr>) tv flag))))"
    unfolding scan_brace_def Let_def r_def [symmetric] n_def [symmetric] str_def [symmetric] cp prod.case by (rule refl)
  show ?thesis
  proof (cases "cchar (bufptr s1) 0 \<noteq> 0x7D \<or> n > MAX_KEYWORD")
    case True
    show ?thesis unfolding u if_P [OF True] by (rule scanned_error [OF scanned_drop [OF st d _ g]]) simp
  next
    case False
    then have "keyword_copy str = Inr (map nasm_tolower str)"
      by (auto simp: keyword_copy_def guard_def str_def MAX_KEYWORD_def DECOLEN_MAX_def min_def)
    then show ?thesis using handle_brace_ok [OF st' d' _ h(2)] unfolding u if_not_P [OF False] by (simp add: h(1))
  qed
qed

lemma scanned_skip:
  assumes "scanned s r" and "bufptr s = drop k (bufptr s0)" and "storage_ok s0 \<longrightarrow> storage_ok s"
  shows "scanned s0 r"
proof -
  obtain s' tv n where "r = Inr (s', tv)" "bufptr s' = drop n (bufptr s)" "0 < n \<or> t_type tv = TOKEN_EOS" "storage_ok s \<longrightarrow> storage_ok s'" "good_token tv"
    using assms(1) unfolding scanned_def by blast
  then show ?thesis using assms(2,3) unfolding scanned_def by (intro exI [of _ s'] exI [of _ tv] exI [of _ "n + k"]) auto
qed

lemma stdscan_ok:
  assumes "tables_ok tb" and "registers_ok tb"
  shows "scanned s (stdscan tb s tv)"
proof -
  define s1 where "s1 = s\<lparr>bufptr := dropWhile isspace (bufptr s)\<rparr>"
  have st: "storage_ok s \<longrightarrow> storage_ok s1" by (simp add: s1_def storage_ok_def)
  obtain k where k: "bufptr s1 = drop k (bufptr s)" using dropWhile_drop [of isspace "bufptr s"] by (auto simp: s1_def)
  have ns: "\<not> isspace (hd (bufptr s1))" if "bufptr s1 \<noteq> []" using that hd_dropWhile [of isspace "bufptr s"] by (simp add: s1_def)
  have step: "scanned s1 (Inr (s1\<lparr>bufptr := drop n (bufptr s1)\<rparr>, tv\<lparr>t_type := j\<rparr>))" if "0 < n" "j \<noteq> TOKEN_REG" for n j
    by (rule scanned_drop [where n = n]) (use that in \<open>simp_all add: storage_ok_def good_token_def\<close>)
  have stay: "scanned s1 (Inr (s1, tv\<lparr>t_type := TOKEN_EOS\<rparr>))"
    unfolding scanned_def by (intro exI [of _ s1] exI [of _ "tv\<lparr>t_type := TOKEN_EOS\<rparr>"] exI [of _ 0]) (simp add: good_token_def)
  have one: "tl (bufptr s1) = drop 1 (bufptr s1)" by (simp add: drop_Suc)
  have op: "j \<noteq> TOKEN_REG" if "double_op c d = Some j" for c d j using that by (auto simp: double_op_def split: if_splits)
  have "scanned s1 (stdscan tb s tv)"
  proof (cases "cchar (bufptr s1) 0 = 0")
    case True
    then show ?thesis using stay by (simp add: stdscan_def Let_def s1_def [symmetric])
  next
    case False
    then have ne: "bufptr s1 \<noteq> []" by (auto simp: cchar_def)
    show ?thesis
      unfolding stdscan_def Let_def s1_def [symmetric] if_not_P [OF False] one
      using scan_ident_ok [OF assms(1,2)] scan_number_ok [OF _ ne] scan_string_ok scan_brace_ok [OF assms(1,2) ne ns [OF ne]] stay
        step [of 2] step [of 1] op
      by (simp split: option.split)
  qed
  then show ?thesis using k st by (rule scanned_skip)
qed

text \<open>
  C10. The scanner is total and makes progress: on every line, whatever its bytes, and every current
  token, a call returns without touching memory out of the bounds of its copy, its tables or its
  storage; what remains of the line is shorter than before, unless the token is the end of the
  line; the stored texts keep to the storage; and a register token carries a register number.
\<close>

theorem stdscan_total:
  assumes "tables_ok tb" and "registers_ok tb" and "storage_ok s"
  shows "\<exists>s' tv' n. stdscan tb s tv = Inr (s', tv') \<and> bufptr s' = drop n (bufptr s) \<and>
    (t_type tv' = TOKEN_EOS \<or> bufptr s \<noteq> [] \<and> length (bufptr s') < length (bufptr s)) \<and>
    length (tempstorage s') \<le> tempsize s' \<and> good_token tv'"
proof -
  obtain s' tv' n where 1: "stdscan tb s tv = Inr (s', tv')" "bufptr s' = drop n (bufptr s)" "0 < n \<or> t_type tv' = TOKEN_EOS"
      "storage_ok s'" "good_token tv'"
    using stdscan_ok [OF assms(1,2)] assms(3) unfolding scanned_def by blast
  have "t_type tv' = TOKEN_EOS" if "bufptr s = []" using 1(1) that by (auto simp: stdscan_def cchar_def)
  moreover have "length (bufptr s') < length (bufptr s)" if "bufptr s \<noteq> []" "0 < n" using 1(2) that by (cases "bufptr s") auto
  ultimately have "t_type tv' = TOKEN_EOS \<or> bufptr s \<noteq> [] \<and> length (bufptr s') < length (bufptr s)" using 1(3) by blast
  with 1 show ?thesis unfolding storage_ok_def by blast
qed


definition demo_tables :: token_tables where
  "demo_tables = \<lparr>hash1 = replicate 2048 0, hash2 = replicate 2048 0,
     keyword_data = [\<lparr>td_string = bytes_of ''eax'', td_type = TOKEN_REG, td_aux = 0, td_flag = 0, td_num = 1\<rparr>],
     is_opmask = (\<lambda>_. False)\<rparr>"

definition demo_line :: "string \<Rightarrow> stdscan_state" where
  "demo_line str = \<lparr>bufptr = bytes_of str, tempstorage = [], tempsize = 0, scan_messages = []\<rparr>"

lemma demo_perfect: "perfect demo_tables" "registers_ok demo_tables"
  using unat_and_7ff
  by (simp_all add: perfect_def tables_ok_def demo_tables_def keyword_index_def guard_def registers_ok_def Let_def)


theorem stdscan_total_witness:
  "\<exists>s' tv'. stdscan demo_tables (demo_line '' eax+1'') (token TOKEN_INVALID 0) = Inr (s', tv') \<and> length (bufptr s') \<le> 6 \<and> good_token tv'"
proof -
  have "tables_ok demo_tables" "storage_ok (demo_line '' eax+1'')"
    using demo_perfect by (simp_all add: perfect_def storage_ok_def demo_line_def)
  from stdscan_total [OF this(1) demo_perfect(2) this(2), of "token TOKEN_INVALID 0"] obtain s' tv' n where
    "stdscan demo_tables (demo_line '' eax+1'') (token TOKEN_INVALID 0) = Inr (s', tv')" "bufptr s' = drop n (bytes_of '' eax+1'')" "good_token tv'"
    by (auto simp: demo_line_def)
  then show ?thesis by (auto simp: bytes_of_def)
qed

end
