(* ===== verification/TextEval.thy ===== *)
theory TextEval
  imports Precedence StdScan
begin

text \<open>
  The scanner and the evaluator together: a line of text that spells an expression is scanned into
  the tokens of the expression and evaluated to its value.
\<close>

section \<open>The scanner for the evaluator\<close>

text \<open>\<open>stdscan\<close> in the shape that \<open>evaluate\<close> calls; it never fails on well-formed tables.\<close>

definition stdscan_fn :: "token_tables \<Rightarrow> stdscan_state scanner" where
  "stdscan_fn tb s tv = (case stdscan tb s tv of Inr r \<Rightarrow> r | Inl _ \<Rightarrow> (s, tv\<lparr>t_type := TOKEN_INVALID\<rparr>))"

section \<open>Spelling\<close>

fun decimal :: "nat \<Rightarrow> bytes" where
  "decimal n = (if n < 10 then [0x30 + of_nat n] else decimal (n div 10) @ [0x30 + of_nat (n mod 10)])"

declare decimal.simps [simp del]

definition spell_type :: "token_type \<Rightarrow> bytes" where
  "spell_type j = (case j of
     TOKEN_CHAR c \<Rightarrow> [c]
   | TOKEN_SHL \<Rightarrow> bytes_of ''<<'' | TOKEN_SHR \<Rightarrow> bytes_of ''>>'' | TOKEN_SDIV \<Rightarrow> bytes_of ''//''
   | TOKEN_SMOD \<Rightarrow> bytes_of ''%%'' | TOKEN_GE \<Rightarrow> bytes_of ''>='' | TOKEN_LE \<Rightarrow> bytes_of ''<=''
   | TOKEN_NE \<Rightarrow> bytes_of ''!='' | TOKEN_DBL_AND \<Rightarrow> bytes_of ''&&'' | TOKEN_DBL_OR \<Rightarrow> bytes_of ''||''
   | TOKEN_DBL_XOR \<Rightarrow> bytes_of ''^^'' | _ \<Rightarrow> [])"

definition spell :: "tokenval \<Rightarrow> bytes" where
  "spell t = (if t_type t = TOKEN_NUM then decimal (unat (t_integer t)) else spell_type (t_type t))"

text \<open>Tokens with a space before each.\<close>

definition spell_line :: "tokenval list \<Rightarrow> bytes" where
  "spell_line ts = concat (map (\<lambda>t. 0x20 # spell t) ts)"

section \<open>Numbers\<close>

lemma decimal_digits: "c \<in> set (decimal n) \<Longrightarrow> isdigit c"
proof (induction n rule: decimal.induct)
  case (1 n)
  have d: "isdigit (0x30 + of_nat k)" if "k < 10" for k :: nat
  proof -
    have "k = 0 \<or> k = 1 \<or> k = 2 \<or> k = 3 \<or> k = 4 \<or> k = 5 \<or> k = 6 \<or> k = 7 \<or> k = 8 \<or> k = 9" using that by presburger
    then show ?thesis by (elim disjE) (simp_all add: isdigit_def)
  qed
  show ?case
    using 1 d [of n] d [of "n mod 10"] by (subst (asm) decimal.simps) (auto split: if_splits)
qed

lemma decimal_nonempty: "decimal n \<noteq> []"
  by (subst decimal.simps) simp

lemma digit_facts:
  assumes "isdigit c"
  shows "isnumchar c" "lib_isnumchar c" "\<not> isspace c" "c \<noteq> 0x2D" "radix_letter c = 0" "c \<noteq> 0x5F" "c \<noteq> 0x24"
    "\<not> isidstart c" "c \<noteq> 0" "isnumstart c" "c \<notin> {0x65, 0x45, 0x48, 0x68, 0x58, 0x78, 0x50, 0x70, 0x2E}" "valid_digit 10 c"
proof -
  have "0x30 \<le> unat c \<and> unat c \<le> 0x39" using assms by (simp add: isdigit_def word_le_nat_alt)
  then have "unat c = 0x30 \<or> unat c = 0x31 \<or> unat c = 0x32 \<or> unat c = 0x33 \<or> unat c = 0x34 \<or> unat c = 0x35 \<or>
      unat c = 0x36 \<or> unat c = 0x37 \<or> unat c = 0x38 \<or> unat c = 0x39" by presburger
  then have c: "c \<in> {0x30, 0x31, 0x32, 0x33, 0x34, 0x35, 0x36, 0x37, 0x38, 0x39}" by (simp add: word_unat_eq_iff)
  show "isnumchar c" "lib_isnumchar c" "isnumstart c"
    using assms by (simp_all add: isnumchar_def lib_isnumchar_def isalnum_def isnumstart_def)
  show "\<not> isspace c" "c \<noteq> 0x2D" "radix_letter c = 0" "c \<noteq> 0x5F" "c \<noteq> 0x24" "c \<noteq> 0" "\<not> isidstart c"
    "c \<notin> {0x65, 0x45, 0x48, 0x68, 0x58, 0x78, 0x50, 0x70, 0x2E}"
    using c by (auto simp: isspace_def radix_letter_def isidstart_def isalpha_def isupper_def islower_def)
  show "valid_digit 10 c" using c by (auto simp: valid_digit_def numvalue_def)
qed

lemma numvalue_digit: "k < 10 \<Longrightarrow> numvalue (0x30 + of_nat k) = int k"
proof -
  assume "k < 10"
  then have "k = 0 \<or> k = 1 \<or> k = 2 \<or> k = 3 \<or> k = 4 \<or> k = 5 \<or> k = 6 \<or> k = 7 \<or> k = 8 \<or> k = 9" by presburger
  then show ?thesis by (elim disjE) (simp_all add: numvalue_def)
qed

lemma decimal_filter: "filter (\<lambda>c. c \<noteq> 0x5F) (decimal n) = decimal n"
  using digit_facts(6) decimal_digits by (intro filter_True) blast

lemma decimal_value: "foldl (\<lambda>a c. 10 * a + numvalue c) 0 (decimal n) = int n"
proof (induction n rule: decimal.induct)
  case (1 n)
  show ?case
  proof (cases "n < 10")
    case True
    then show ?thesis by (subst decimal.simps) (simp add: numvalue_digit)
  next
    case False
    have "10 * int (n div 10) + int (n mod 10) = int n"
      using mult_div_mod_eq [of 10 n] by (metis of_nat_add of_nat_mult of_nat_numeral)
    then show ?thesis using 1 False by (subst decimal.simps) (simp add: numvalue_digit)
  qed
qed

lemma readnum_decimal:
  assumes "n < 2 ^ 64"
  shows "readnum (decimal n) = Some (of_nat n, False)"
proof -
  let ?d = "decimal n"
  have d: "isdigit c" if "c \<in> set ?d" for c using that by (rule decimal_digits)
  have h: "hd ?d \<in> set ?d" using decimal_nonempty by simp
  have "dropWhile isspace ?d = ?d" using digit_facts(3) [OF d [OF h]] decimal_nonempty by (cases ?d) auto
  moreover have "hd ?d \<noteq> 0x2D" using digit_facts(4) [OF d [OF h]] .
  moreover have "takeWhile lib_isnumchar ?d = ?d" using digit_facts(2) d by (simp add: takeWhile_eq_all_conv)
  ultimately have n: "number_chars ?d = (1, ?d)" using decimal_nonempty [of n]
    by (cases ?d) (auto simp: number_chars_def)
  have rl: "radix_letter (?d ! i) = 0" "?d ! i \<noteq> 0x24" if "i < length ?d" for i
    using digit_facts(5,7) d that by auto
  have "number_radix ?d = (10, ?d)"
    using rl(1) [of 1] rl(1) [of "length ?d - 1"] rl(2) [of 0] decimal_nonempty by (simp add: number_radix_def Let_def)
  moreover have "digits_value 10 ?d = int n" by (simp add: digits_value_def decimal_filter decimal_value)
  moreover have "\<not> (\<exists>c \<in> set ?d. c \<noteq> 0x5F \<and> \<not> valid_digit 10 c)" using digit_facts(12) d by blast
  ultimately show ?thesis using n assms decimal_nonempty by (auto simp: readnum_value Let_def)
qed

lemma number_loop_digits:
  "\<forall>c \<in> set ds. isdigit c \<Longrightarrow> number_loop (ds @ rest) hex flt e = number_loop rest hex flt e"
proof (induction ds)
  case (Cons c ds)
  then have "isdigit c" by simp
  from digit_facts(1,11) [OF this] show ?case using Cons by (simp add: Let_def)
qed simp

lemma number_loop_space: "number_loop (0x20 # rest) hex flt e = (0x20 # rest, hex, flt, e)"
  by (simp add: Let_def isnumchar_def isalnum_def isalpha_def isupper_def islower_def isdigit_def)

section \<open>Scanning what is spelled\<close>

text \<open>A token that is spelled: a number, or a type with its spelling.\<close>

definition operators :: "token_type set" where
  "operators = {TOKEN_CHAR c | c. c \<in> {0x28, 0x29, 0x2D, 0x2B, 0x7E, 0x21, 0x3D, 0x3C, 0x3E, 0x7C, 0x5E, 0x26, 0x2A, 0x2F, 0x25}} \<union>
     {TOKEN_SHL, TOKEN_SHR, TOKEN_SDIV, TOKEN_SMOD, TOKEN_GE, TOKEN_LE, TOKEN_NE, TOKEN_DBL_AND, TOKEN_DBL_OR, TOKEN_DBL_XOR}"

lemma scan_operator:
  assumes "j \<in> operators" and "bufptr s = 0x20 # spell_type j @ rest" and "rest = [] \<or> hd rest = 0x20"
  shows "stdscan tb s tv = Inr (s\<lparr>bufptr := rest\<rparr>, tv\<lparr>t_type := j\<rparr>)"
proof -
  have d: "cchar rest 0 = 0 \<or> cchar rest 0 = 0x20" using assms(3) by (cases rest) (auto simp: cchar_def)
  note cc = isspace_def isidstart_def isalpha_def isupper_def islower_def isnumstart_def isdigit_def double_op_def cchar_def
  show ?thesis using assms(1,2) d
    unfolding operators_def
    by (elim UnE insertE CollectE exE conjE emptyE) (auto simp: stdscan_def spell_type_def bytes_of_def cc Let_def drop_Suc)
qed

text \<open>A number is copied into the storage and taken out again; only the room that was made for it stays.\<close>

definition make_room :: "stdscan_state \<Rightarrow> stdscan_state" where
  "make_room s = s\<lparr>tempsize := (if tempsize s \<le> length (tempstorage s) then tempsize s + STDSCAN_TEMP_DELTA else tempsize s)\<rparr>"

lemma scan_decimal:
  assumes n: "n < 2 ^ 64" and s: "bufptr s = 0x20 # decimal n @ rest" and r: "rest = [] \<or> hd rest = 0x20"
  shows "stdscan tb s tv = Inr ((make_room s)\<lparr>bufptr := rest\<rparr>, tv\<lparr>t_integer := of_nat n, t_charptr := [], t_type := TOKEN_NUM\<rparr>)"
proof -
  let ?b = "decimal n @ rest" and ?s = "s\<lparr>bufptr := decimal n @ rest\<rparr>"
  obtain c ds where d: "decimal n = c # ds" using decimal_nonempty by (cases "decimal n") auto
  have "isdigit c" using decimal_digits [of c n] d by simp
  note c = digit_facts [OF this]
  have "isspace 0x20" by (simp add: isspace_def)
  then have sk: "dropWhile isspace (bufptr s) = ?b" using c(3) by (simp add: s d)
  have l: "number_loop ?b False False False = (rest, False, False, False)"
  proof -
    have "number_loop ?b False False False = number_loop rest False False False"
      by (rule number_loop_digits) (use decimal_digits in blast)
    then show ?thesis using r by (cases rest) (auto simp: number_loop_space simp del: number_loop.simps(2))
  qed
  have "scan_number ?s tv = Inr ((make_room s)\<lparr>bufptr := rest\<rparr>, tv\<lparr>t_integer := of_nat n, t_charptr := [], t_type := TOKEN_NUM\<rparr>)"
  proof -
    have "cchar ?b 0 \<noteq> 0x24" using c(7) by (simp add: cchar_def d)
    then show ?thesis using readnum_decimal [OF n] l
      by (simp add: scan_number_def Let_def stdscan_copy_def stdscan_pop_def guard_def make_room_def)
  qed
  moreover have "stdscan tb s tv = scan_number ?s tv"
    using c(7,8,9,10) by (simp add: stdscan_def sk Let_def d cchar_def)
  ultimately show ?thesis by simp
qed

text \<open>Tokens that are spelled are delivered.\<close>

definition spellable :: "tokenval \<Rightarrow> bool" where
  "spellable t \<longleftrightarrow> t_type t = TOKEN_NUM \<or> t_type t \<in> operators"

lemma num_no_operator: "TOKEN_NUM \<notin> operators"
  by (simp add: operators_def)

lemma spell_line_hd: "spell_line ts = [] \<or> hd (spell_line ts) = 0x20"
  by (cases ts) (simp_all add: spell_line_def)

lemma spelled_delivers:
  "\<forall>t \<in> set ts. spellable t \<Longrightarrow> bufptr s = spell_line ts \<Longrightarrow> t_type stop = TOKEN_EOS \<Longrightarrow> delivers (stdscan_fn tb) s (ts @ [stop])"
proof (induction ts arbitrary: s)
  case Nil
  have "stdscan_fn tb s tv = (s, tv\<lparr>t_type := TOKEN_EOS\<rparr>)" for tv
  proof -
    have "s\<lparr>bufptr := []\<rparr> = s" using Nil by (simp add: spell_line_def)
    then show ?thesis using Nil by (simp add: stdscan_fn_def stdscan_def spell_line_def cchar_def)
  qed
  then show ?case using Nil by (simp add: same_token_def)
next
  case (Cons t ts)
  have b: "bufptr s = 0x20 # spell t @ spell_line ts" using Cons.prems by (simp add: spell_line_def)
  show ?case
  proof (cases "t_type t = TOKEN_NUM")
    case True
    have "unat (t_integer t) < 2 ^ 64" using unsigned_less [of "t_integer t", where 'a = nat] by simp
    from scan_decimal [OF this _ spell_line_hd] b True
    have "stdscan_fn tb s tv = ((make_room s)\<lparr>bufptr := spell_line ts\<rparr>, tv\<lparr>t_integer := t_integer t, t_charptr := [], t_type := TOKEN_NUM\<rparr>)" for tv
      by (simp add: stdscan_fn_def spell_def)
    moreover have "delivers (stdscan_fn tb) ((make_room s)\<lparr>bufptr := spell_line ts\<rparr>) (ts @ [stop])"
      using Cons by simp
    ultimately show ?thesis using True by (simp add: same_token_def)
  next
    case False
    then have j: "t_type t \<in> operators" using Cons.prems(1) by (simp add: spellable_def)
    have "stdscan_fn tb s tv = (s\<lparr>bufptr := spell_line ts\<rparr>, tv\<lparr>t_type := t_type t\<rparr>)" for tv
      using scan_operator [OF j _ spell_line_hd] b False by (simp add: stdscan_fn_def spell_def)
    moreover have "delivers (stdscan_fn tb) (s\<lparr>bufptr := spell_line ts\<rparr>) (ts @ [stop])" using Cons by simp
    ultimately show ?thesis using False by (simp add: same_token_def)
  qed
qed

section \<open>Expressions\<close>

lemma value_operators: "unary_value j a = Some v \<Longrightarrow> j \<in> operators" "binary_value j a b = Some v \<Longrightarrow> j \<in> operators"
  by (auto simp: unary_value_def binary_value_def operators_def is_shift_def is_mulop_def split: if_splits)

lemma text_spellable: "val e = Some v \<Longrightarrow> t \<in> set (text_of b k e) \<Longrightarrow> spellable t"
proof (induction e arbitrary: v k t)
  case (Number n)
  then show ?case by (simp add: spellable_def plain_def)
next
  case (Unary j e)
  then show ?case using value_operators(1) [of j] by (auto simp: spellable_def plain_def bind_eq_Some_conv)
next
  case (Binary j d e)
  have p: "spellable (plain (TOKEN_CHAR 0x28))" "spellable (plain (TOKEN_CHAR 0x29))" by (simp_all add: spellable_def plain_def operators_def)
  from Binary.prems(1) obtain a c where "val d = Some a" "val e = Some c" "binary_value j a c = Some v"
    by (auto simp: bind_eq_Some_conv)
  moreover from this have "spellable (plain j)" using value_operators(2) by (simp add: spellable_def plain_def)
  ultimately show ?case using Binary p by (auto split: if_splits)
qed

lemma good_scanner:
  assumes "tables_ok tb" and "registers_ok tb"
  shows "good_token (snd (stdscan_fn tb s tv))"
  using stdscan_ok [OF assms, of s tv] by (auto simp: scanned_def stdscan_fn_def)

end
