(* ===== verification/RdTables.thy ===== *)
theory RdTables
  imports NasmString Crc "HOL-Library.Multiset"
begin

text \<open>
  The tables of the RDOFF linker: the symbol table of \<open>rdoff/symtab.c\<close> under the CRC of
  \<open>rdoff/hash.c\<close>, the segment table of \<open>rdoff/segtab.c\<close>, and the growing array of
  \<open>rdoff/collectn.c\<close>.
\<close>

section \<open>The hash function\<close>

definition consttab :: "u32 list" where
  "consttab = [
      0x00000000, 0x77073096, 0xee0e612c, 0x990951ba, 0x076dc419, 0x706af48f, 0xe963a535, 0x9e6495a3,
      0x0edb8832, 0x79dcb8a4, 0xe0d5e91e, 0x97d2d988, 0x09b64c2b, 0x7eb17cbd, 0xe7b82d07, 0x90bf1d91,
      0x1db71064, 0x6ab020f2, 0xf3b97148, 0x84be41de, 0x1adad47d, 0x6ddde4eb, 0xf4d4b551, 0x83d385c7,
      0x136c9856, 0x646ba8c0, 0xfd62f97a, 0x8a65c9ec, 0x14015c4f, 0x63066cd9, 0xfa0f3d63, 0x8d080df5,
      0x3b6e20c8, 0x4c69105e, 0xd56041e4, 0xa2677172, 0x3c03e4d1, 0x4b04d447, 0xd20d85fd, 0xa50ab56b,
      0x35b5a8fa, 0x42b2986c, 0xdbbbc9d6, 0xacbcf940, 0x32d86ce3, 0x45df5c75, 0xdcd60dcf, 0xabd13d59,
      0x26d930ac, 0x51de003a, 0xc8d75180, 0xbfd06116, 0x21b4f4b5, 0x56b3c423, 0xcfba9599, 0xb8bda50f,
      0x2802b89e, 0x5f058808, 0xc60cd9b2, 0xb10be924, 0x2f6f7c87, 0x58684c11, 0xc1611dab, 0xb6662d3d,
      0x76dc4190, 0x01db7106, 0x98d220bc, 0xefd5102a, 0x71b18589, 0x06b6b51f, 0x9fbfe4a5, 0xe8b8d433,
      0x7807c9a2, 0x0f00f934, 0x9609a88e, 0xe10e9818, 0x7f6a0dbb, 0x086d3d2d, 0x91646c97, 0xe6635c01,
      0x6b6b51f4, 0x1c6c6162, 0x856530d8, 0xf262004e, 0x6c0695ed, 0x1b01a57b, 0x8208f4c1, 0xf50fc457,
      0x65b0d9c6, 0x12b7e950, 0x8bbeb8ea, 0xfcb9887c, 0x62dd1ddf, 0x15da2d49, 0x8cd37cf3, 0xfbd44c65,
      0x4db26158, 0x3ab551ce, 0xa3bc0074, 0xd4bb30e2, 0x4adfa541, 0x3dd895d7, 0xa4d1c46d, 0xd3d6f4fb,
      0x4369e96a, 0x346ed9fc, 0xad678846, 0xda60b8d0, 0x44042d73, 0x33031de5, 0xaa0a4c5f, 0xdd0d7cc9,
      0x5005713c, 0x270241aa, 0xbe0b1010, 0xc90c2086, 0x5768b525, 0x206f85b3, 0xb966d409, 0xce61e49f,
      0x5edef90e, 0x29d9c998, 0xb0d09822, 0xc7d7a8b4, 0x59b33d17, 0x2eb40d81, 0xb7bd5c3b, 0xc0ba6cad,
      0xedb88320, 0x9abfb3b6, 0x03b6e20c, 0x74b1d29a, 0xead54739, 0x9dd277af, 0x04db2615, 0x73dc1683,
      0xe3630b12, 0x94643b84, 0x0d6d6a3e, 0x7a6a5aa8, 0xe40ecf0b, 0x9309ff9d, 0x0a00ae27, 0x7d079eb1,
      0xf00f9344, 0x8708a3d2, 0x1e01f268, 0x6906c2fe, 0xf762575d, 0x806567cb, 0x196c3671, 0x6e6b06e7,
      0xfed41b76, 0x89d32be0, 0x10da7a5a, 0x67dd4acc, 0xf9b9df6f, 0x8ebeeff9, 0x17b7be43, 0x60b08ed5,
      0xd6d6a3e8, 0xa1d1937e, 0x38d8c2c4, 0x4fdff252, 0xd1bb67f1, 0xa6bc5767, 0x3fb506dd, 0x48b2364b,
      0xd80d2bda, 0xaf0a1b4c, 0x36034af6, 0x41047a60, 0xdf60efc3, 0xa867df55, 0x316e8eef, 0x4669be79,
      0xcb61b38c, 0xbc66831a, 0x256fd2a0, 0x5268e236, 0xcc0c7795, 0xbb0b4703, 0x220216b9, 0x5505262f,
      0xc5ba3bbe, 0xb2bd0b28, 0x2bb45a92, 0x5cb36a04, 0xc2d7ffa7, 0xb5d0cf31, 0x2cd99e8b, 0x5bdeae1d,
      0x9b64c2b0, 0xec63f226, 0x756aa39c, 0x026d930a, 0x9c0906a9, 0xeb0e363f, 0x72076785, 0x05005713,
      0x95bf4a82, 0xe2b87a14, 0x7bb12bae, 0x0cb61b38, 0x92d28e9b, 0xe5d5be0d, 0x7cdcefb7, 0x0bdbdf21,
      0x86d3d2d4, 0xf1d4e242, 0x68ddb3f8, 0x1fda836e, 0x81be16cd, 0xf6b9265b, 0x6fb077e1, 0x18b74777,
      0x88085ae6, 0xff0f6a70, 0x66063bca, 0x11010b5c, 0x8f659eff, 0xf862ae69, 0x616bffd3, 0x166ccf45,
      0xa00ae278, 0xd70dd2ee, 0x4e048354, 0x3903b3c2, 0xa7672661, 0xd06016f7, 0x4969474d, 0x3e6e77db,
      0xaed16a4a, 0xd9d65adc, 0x40df0b66, 0x37d83bf0, 0xa9bcae53, 0xdebb9ec5, 0x47b2cf7f, 0x30b5ffe9,
      0xbdbdf21c, 0xcabac28a, 0x53b39330, 0x24b4a3a6, 0xbad03605, 0xcdd70693, 0x54de5729, 0x23d967bf,
      0xb3667a2e, 0xc4614ab8, 0x5d681b02, 0x2a6f2b94, 0xb40bbe37, 0xc30c8ea1, 0x5a05df1b, 0x2d02ef8d]"

text \<open>A \<open>char\<close> is signed, but only its lowest byte is used.\<close>

fun hash_loop :: "u32 \<Rightarrow> bytes \<Rightarrow> u32" where
  "hash_loop hashval [] = hashval"
| "hash_loop hashval (c # n) =
     (if c = 0 then hashval
      else hash_loop (drop_bit 8 hashval XOR (consttab ! unat ((hashval XOR scast c) AND 0xff))) n)"

definition rdoff_hash :: "bytes \<Rightarrow> u32" where
  "rdoff_hash name = hash_loop 0xffffffff name XOR 0xffffffff"

section \<open>The symbol table\<close>

record symtabEnt =
  sym_name :: bytes
  sym_segment :: i32
  sym_offset :: i32
  sym_flags :: i32

type_synonym symtab = "symtabEnt list list"

definition SYMTABSIZE :: u32 where "SYMTABSIZE = 64"

definition slotnum :: "bytes \<Rightarrow> nat" where
  "slotnum x = unat (rdoff_hash x mod SYMTABSIZE)"

definition symtabNew :: symtab where
  "symtabNew = replicate (unat SYMTABSIZE) []"

definition symtabInsert :: "symtab \<Rightarrow> symtabEnt \<Rightarrow> symtab" where
  "symtabInsert mytab ent = (let slot = slotnum (sym_name ent) in mytab[slot := ent # mytab ! slot])"

text \<open>
  The pointer to an entry is its slot and its place in the list of the slot; the clients read and
  change the entry through it.
\<close>

fun symtab_scan :: "symtabEnt list \<Rightarrow> bytes \<Rightarrow> nat option" where
  "symtab_scan [] name = None"
| "symtab_scan (e # node) name =
     (if strcmp (sym_name e) name = 0 then Some 0 else map_option Suc (symtab_scan node name))"

definition symtabFind :: "symtab \<Rightarrow> bytes \<Rightarrow> (nat \<times> nat) option" where
  "symtabFind mytab name = (let slot = slotnum name in map_option (Pair slot) (symtab_scan (mytab ! slot) name))"

definition symtab_ent :: "symtab \<Rightarrow> nat \<times> nat \<Rightarrow> symtabEnt" where
  "symtab_ent mytab p = mytab ! fst p ! snd p"

definition symtab_update :: "(symtabEnt \<Rightarrow> symtabEnt) \<Rightarrow> nat \<times> nat \<Rightarrow> symtab \<Rightarrow> symtab" where
  "symtab_update f p mytab = mytab[fst p := (mytab ! fst p)[snd p := f (mytab ! fst p ! snd p)]]"

section \<open>The segment table\<close>

text \<open>
  \<open>localseg\<close>, \<open>destseg\<close>, \<open>offset\<close>, \<open>left\<close>, \<open>right\<close>, \<open>leftcount\<close> and \<open>rightcount\<close>, in this order; \<open>SegNil\<close> is
  the null pointer.
\<close>

datatype segtabnode =
    SegNil
  | SegNode i32 i32 i32 segtabnode segtabnode i32 i32

definition init_seglocations :: segtabnode where "init_seglocations = SegNil"

text \<open>
  The two rotations, which dereference the child that moves up. The counts wrap here; that they
  stay below the greatest \<open>int\<close> is a matter of the number of entries.
\<close>

fun left_up :: "segtabnode \<Rightarrow> segtabnode result" where
  "left_up (SegNode s d f (SegNode s' d' f' l' r' lc' rc') r lc rc) =
     Inr (SegNode s' d' f' l' (SegNode s d f r' r rc' rc) lc' (rc' + rc + 1))"
| "left_up n = Inl NullDeref"

fun right_up :: "segtabnode \<Rightarrow> segtabnode result" where
  "right_up (SegNode s d f l (SegNode s' d' f' l' r' lc' rc') lc rc) =
     Inr (SegNode s' d' f' (SegNode s d f l l' lc lc') r' (lc + lc' + 1) rc')"
| "right_up n = Inl NullDeref"

fun descend_tree_add :: "segtabnode \<Rightarrow> i32 \<Rightarrow> i32 \<Rightarrow> i32 \<Rightarrow> segtabnode result" where
  "descend_tree_add SegNil ls ds ofs = Inr (SegNode ls ds ofs SegNil SegNil 0 0)"
| "descend_tree_add (SegNode s d f l r lc rc) ls ds ofs =
     (if sint ls < sint s then
        andthen (descend_tree_add l ls ds ofs) (\<lambda>l.
          if sint (rc + 2) < sint (lc + 1) then left_up (SegNode s d f l r (lc + 1) rc)
          else Inr (SegNode s d f l r (lc + 1) rc))
      else
        andthen (descend_tree_add r ls ds ofs) (\<lambda>r.
          if sint (lc + 2) < sint (rc + 1) then right_up (SegNode s d f l r lc (rc + 1))
          else Inr (SegNode s d f l r lc (rc + 1))))"

definition add_seglocation :: "segtabnode \<Rightarrow> i32 \<times> i32 \<times> i32 \<Rightarrow> segtabnode result" where
  "add_seglocation root = (\<lambda>(ls, ds, ofs). descend_tree_add root ls ds ofs)"

fun get_seglocation :: "segtabnode \<Rightarrow> i32 \<Rightarrow> (i32 \<times> i32) option" where
  "get_seglocation SegNil ls = None"
| "get_seglocation (SegNode s d f l r lc rc) ls =
     (if s \<noteq> ls then if sint ls < sint s then get_seglocation l ls else get_seglocation r ls
      else Some (d, f))"

section \<open>Collections\<close>

lemma sint_of_int_i32: "- (2 ^ 31) \<le> x \<Longrightarrow> x < 2 ^ 31 \<Longrightarrow> sint (word_of_int x :: i32) = x"
  by (simp add: int_word_sint)

lemma sint_minus_32: "32 \<le> sint i \<Longrightarrow> sint (i - 32) = sint i - 32" for i :: i32
  using sint_of_int_i32 [of "sint i - 32"] sint_lt [of i] by simp

datatype 'a collection = Collection "'a option list" "'a collection option"

definition collection_init :: "'a collection" where
  "collection_init = Collection (replicate 32 None) None"

text \<open>The address of a cell: the number of the block and the index in it.\<close>

function colln :: "'a collection \<Rightarrow> i32 \<Rightarrow> ('a collection \<times> nat \<times> nat) result" where
  "colln (Collection p nx) index =
     (if 32 \<le> sint index then
        andthen (colln (case nx of None \<Rightarrow> collection_init | Some c \<Rightarrow> c) (index - 32)) (\<lambda>(c, b, i).
          Inr (Collection p (Some c), Suc b, i))
      else guard (0 \<le> sint index) OutOfBounds (Inr (Collection p nx, 0, nat (sint index))))"
  by pat_completeness auto
termination
  by (relation "measure (\<lambda>(c, index). nat (sint index))") (auto simp: sint_minus_32)

fun cell :: "'a collection \<Rightarrow> nat \<times> nat \<Rightarrow> 'a option" where
  "cell (Collection p nx) (0, i) = p ! i"
| "cell (Collection p (Some c)) (Suc b, i) = cell c (b, i)"
| "cell (Collection p None) (Suc b, i) = None"

fun set_cell :: "'a collection \<Rightarrow> nat \<times> nat \<Rightarrow> 'a option \<Rightarrow> 'a collection" where
  "set_cell (Collection p nx) (0, i) v = Collection (p[i := v]) nx"
| "set_cell (Collection p (Some c)) (Suc b, i) v = Collection p (Some (set_cell c (b, i) v))"
| "set_cell (Collection p None) (Suc b, i) v = Collection p None"

definition collection_reset :: "'a collection \<Rightarrow> 'a collection" where
  "collection_reset c = Collection (replicate 32 None) None"

section \<open>The hash is a CRC\<close>

definition crc32_poly :: u32 where "crc32_poly = 0xedb88320"

interpretation crc32_table: crc_table consttab crc32_poly
proof
  show "map (\<lambda>k. consttab ! (2 ^ k)) [0..<8] = map (\<lambda>k. crc_bits crc32_poly 8 (2 ^ k)) [0..<8]"
    by (simp add: consttab_def upt_rec crc_bit_def crc32_poly_def crc_bits_8)
  show "consttab = span [0] (map (\<lambda>k. consttab ! (2 ^ k)) [0..<8])"
    by (simp add: consttab_def upt_rec)
qed simp

lemma hash_index: "unat ((h XOR scast c) AND (0xff :: u32)) = unat (ucast h XOR c :: u8)" for h :: u32 and c :: u8
proof -
  have "(0xff :: u32) = mask 8" by (simp add: mask_eq_exp_minus_1)
  then have "(h XOR scast c) AND 0xff = take_bit 8 (h XOR scast c)" by (simp only: take_bit_eq_mask)
  also have "\<dots> = ucast (ucast h XOR c :: u8)"
  proof (rule bit_word_eqI)
    fix n assume "n < LENGTH(32)"
    moreover have "n < 8 \<Longrightarrow> min 7 n = n" "n < 8 \<Longrightarrow> min n 7 = n" by simp_all
    ultimately show "bit (take_bit 8 (h XOR scast c)) n \<longleftrightarrow> bit (ucast (ucast h XOR c :: u8) :: u32) n"
      by (cases "n < 8") (auto simp: bit_simps dest: bit_imp_le_length)
  qed
  finally have "unat ((h XOR scast c) AND (0xff :: u32)) = take_bit 32 (unat (ucast h XOR c :: u8))" by (simp add: unsigned_ucast_eq)
  moreover have "unat (ucast h XOR c :: u8) < 2 ^ 8" using unsigned_less [of "ucast h XOR c :: u8"] by simp
  ultimately show ?thesis by (simp add: take_bit_nat_eq_self)
qed

lemma hash_loop_crc: "cstring name \<Longrightarrow> hash_loop h name = crc_reference crc32_poly h name"
  by (induction name arbitrary: h)
    (simp_all add: cstring_def crc_reference_def hash_index ac_simps flip: crc32_table.table_step)

section \<open>The symbol table finds the latest entry\<close>

lemma slotnum_less: "slotnum x < 64"
  unfolding slotnum_def SYMTABSIZE_def using word_mod_less_divisor [of 64 "rdoff_hash x"] by (simp add: word_less_nat_alt)

definition symtab_ok :: "symtab \<Rightarrow> bool" where
  "symtab_ok tab \<longleftrightarrow> length tab = 64 \<and> (\<forall>i < 64. \<forall>e \<in> set (tab ! i). cstring (sym_name e) \<and> slotnum (sym_name e) = i)"

text \<open>What the table says of a name.\<close>

definition symtab_map :: "symtab \<Rightarrow> bytes \<Rightarrow> symtabEnt option" where
  "symtab_map tab name = map_option (symtab_ent tab) (symtabFind tab name)"

lemma symtab_scan_find:
  "cstring name \<Longrightarrow> \<forall>e \<in> set es. cstring (sym_name e) \<Longrightarrow>
    map_option ((!) es) (symtab_scan es name) = find (\<lambda>e. sym_name e = name) es"
  by (induction es) (auto simp: exact.cmp_eq option.map_comp comp_def)

lemma symtab_map_find:
  "symtab_ok tab \<Longrightarrow> cstring name \<Longrightarrow> symtab_map tab name = find (\<lambda>e. sym_name e = name) (tab ! slotnum name)"
  using symtab_scan_find [of name "tab ! slotnum name"] slotnum_less [of name]
  by (auto simp: symtab_map_def symtabFind_def symtab_ent_def Let_def option.map_comp comp_def symtab_ok_def)

lemma symtabNew_ok: "symtab_ok symtabNew"
  by (simp add: symtab_ok_def symtabNew_def SYMTABSIZE_def)

lemma symtabNew_map: "cstring name \<Longrightarrow> symtab_map symtabNew name = None"
  using slotnum_less [of name] by (simp add: symtab_map_find symtabNew_ok, simp add: symtabNew_def SYMTABSIZE_def)

lemma symtabInsert_ok: "symtab_ok tab \<Longrightarrow> cstring (sym_name e) \<Longrightarrow> symtab_ok (symtabInsert tab e)"
  using slotnum_less [of "sym_name e"] by (auto simp: symtab_ok_def symtabInsert_def Let_def nth_list_update)

lemma symtabInsert_map:
  "symtab_ok tab \<Longrightarrow> cstring (sym_name e) \<Longrightarrow> cstring name \<Longrightarrow>
    symtab_map (symtabInsert tab e) name = ((symtab_map tab)(sym_name e \<mapsto> e)) name"
proof -
  assume *: "symtab_ok tab" "cstring (sym_name e)" "cstring name"
  have l: "slotnum (sym_name e) < length tab" using *(1) slotnum_less by (simp add: symtab_ok_def)
  have "symtab_map (symtabInsert tab e) name = find (\<lambda>e. sym_name e = name) (symtabInsert tab e ! slotnum name)"
    using * by (intro symtab_map_find symtabInsert_ok)
  also have "symtabInsert tab e ! slotnum name = (if slotnum name = slotnum (sym_name e) then e # tab ! slotnum name else tab ! slotnum name)"
    using l by (simp add: symtabInsert_def Let_def nth_list_update)
  finally show ?thesis using symtab_map_find [OF *(1,3)] by auto
qed

lemma symtab_scan_split:
  "cstring name \<Longrightarrow> \<forall>e \<in> set es. cstring (sym_name e) \<Longrightarrow> symtab_scan es name = Some i \<Longrightarrow>
    \<exists>as b bs. es = as @ b # bs \<and> length as = i \<and> sym_name b = name \<and> (\<forall>a \<in> set as. sym_name a \<noteq> name)"
proof (induction es arbitrary: i)
  case (Cons e es)
  have c: "cstring (sym_name e)" "\<forall>e \<in> set es. cstring (sym_name e)" using Cons.prems(2) by simp_all
  have eq: "strcmp (sym_name e) name = 0 \<longleftrightarrow> sym_name e = name" using exact.cmp_eq [OF c(1) Cons.prems(1)] by simp
  show ?case
  proof (cases "sym_name e = name")
    case True
    then have "i = 0" using Cons.prems(3) eq by simp
    then show ?thesis using True by (intro exI [of _ "[]"] exI [of _ e] exI [of _ es]) simp
  next
    case False
    then obtain j where j: "i = Suc j" "symtab_scan es name = Some j" using Cons.prems(3) eq by auto
    obtain as b bs where "es = as @ b # bs" "length as = j" "sym_name b = name" "\<forall>a \<in> set as. sym_name a \<noteq> name"
      using Cons.IH [OF Cons.prems(1) c(2) j(2)] by (elim exE conjE) (rule that; assumption)
    then show ?thesis using False j(1) by (intro exI [of _ "e # as"] exI [of _ b] exI [of _ bs]) simp
  qed
qed simp

lemma find_append: "find P (xs @ ys) = (case find P xs of None \<Rightarrow> find P ys | Some x \<Rightarrow> Some x)"
  by (induction xs) simp_all

lemma symtab_scan_update:
  assumes "cstring name" "\<forall>e \<in> set es. cstring (sym_name e)" "symtab_scan es name = Some i" and f: "\<And>e. sym_name (f e) = sym_name e"
  shows "i < length es" "sym_name (es ! i) = name"
    "find (\<lambda>e. sym_name e = m) (es[i := f (es ! i)]) = (if m = name then Some (f (es ! i)) else find (\<lambda>e. sym_name e = m) es)"
proof -
  obtain as b bs where e: "es = as @ b # bs" "length as = i" "sym_name b = name" "\<forall>a \<in> set as. sym_name a \<noteq> name"
    using symtab_scan_split [OF assms(1-3)] by (elim exE conjE) (rule that; assumption)
  have n: "find (\<lambda>e. sym_name e = name) as = None" using e(4) by (simp add: find_None_iff)
  show "i < length es" "sym_name (es ! i) = name" using e(1-3) by (simp_all add: nth_append)
  have u: "es ! i = b" "es[i := f b] = as @ f b # bs" using e(1,2) by (simp_all add: list_update_append nth_append)
  show "find (\<lambda>e. sym_name e = m) (es[i := f (es ! i)]) = (if m = name then Some (f (es ! i)) else find (\<lambda>e. sym_name e = m) es)"
    unfolding u unfolding e(1) using n by (simp add: e(3) f find_append split: option.split)
qed

lemma symtab_update_map:
  assumes ok: "symtab_ok tab" and n: "cstring name" and p: "symtabFind tab name = Some p"
    and f: "\<And>e. sym_name (f e) = sym_name e"
  shows "symtab_ok (symtab_update f p tab)" "sym_name (symtab_ent tab p) = name"
    "cstring m \<Longrightarrow> symtab_map (symtab_update f p tab) m = ((symtab_map tab)(name \<mapsto> f (symtab_ent tab p))) m"
proof -
  define s i where "s = slotnum name" and "i = snd p"
  have s: "s < 64" "fst p = s" "symtab_scan (tab ! s) name = Some i"
    using p slotnum_less [of name] by (auto simp: s_def i_def symtabFind_def Let_def)
  have es: "\<forall>e \<in> set (tab ! s). cstring (sym_name e)" "length tab = 64" using ok s by (auto simp: symtab_ok_def)
  have u: "i < length (tab ! s)" "sym_name (tab ! s ! i) = name"
    "find (\<lambda>e. sym_name e = m) ((tab ! s)[i := f (tab ! s ! i)]) = (if m = name then Some (f (tab ! s ! i)) else find (\<lambda>e. sym_name e = m) (tab ! s))" for m
    by (rule symtab_scan_update [OF n es(1) s(3) f])+
  define es where "es = (tab ! s)[i := f (tab ! s ! i)]"
  have t: "symtab_update f p tab = tab[s := es]" "symtab_ent tab p = tab ! s ! i"
    using s by (simp_all add: symtab_update_def symtab_ent_def i_def es_def)
  show name: "sym_name (symtab_ent tab p) = name" using u t by simp
  have "\<forall>e \<in> set es. cstring (sym_name e) \<and> slotnum (sym_name e) = s"
  proof
    fix e assume "e \<in> set es"
    then have "e = f (tab ! s ! i) \<or> e \<in> set (tab ! s)" unfolding es_def by (meson insertE set_update_subset_insert subsetD)
    then show "cstring (sym_name e) \<and> slotnum (sym_name e) = s"
      using u(1,2) s(1) n ok by (auto simp: f s_def symtab_ok_def)
  qed
  then show ok': "symtab_ok (symtab_update f p tab)"
    using ok s(1) unfolding t symtab_ok_def by (simp add: nth_list_update)
  show "symtab_map (symtab_update f p tab) m = ((symtab_map tab)(name \<mapsto> f (symtab_ent tab p))) m" if m: "cstring m"
  proof (cases "slotnum m = s")
    case True
    have "symtab_map (symtab_update f p tab) m = find (\<lambda>e. sym_name e = m) es"
      using symtab_map_find [OF ok' m] True s(1) es(2) by (simp add: t)
    then show ?thesis using u(3) [of m] True by (simp add: symtab_map_find [OF ok m] t es_def)
  next
    case False
    then have "m \<noteq> name" using s_def by auto
    moreover have "symtab_map (symtab_update f p tab) m = find (\<lambda>e. sym_name e = m) (tab ! slotnum m)"
      using symtab_map_find [OF ok' m] False by (simp add: t)
    ultimately show ?thesis by (simp add: symtab_map_find [OF ok m])
  qed
qed

section \<open>The segment table is sorted\<close>

text \<open>The entries from left to right; counts that agree with the subtrees.\<close>

fun seg_entries :: "segtabnode \<Rightarrow> (i32 \<times> i32 \<times> i32) list" where
  "seg_entries SegNil = []"
| "seg_entries (SegNode s d f l r lc rc) = seg_entries l @ (s, d, f) # seg_entries r"

fun seg_counts :: "segtabnode \<Rightarrow> bool" where
  "seg_counts SegNil = True"
| "seg_counts (SegNode s d f l r lc rc) \<longleftrightarrow> lc = of_nat (length (seg_entries l)) \<and> rc = of_nat (length (seg_entries r)) \<and>
     seg_counts l \<and> seg_counts r"

abbreviation seg_key :: "i32 \<times> i32 \<times> i32 \<Rightarrow> int" where "seg_key e \<equiv> sint (fst e)"

text \<open>The specification of insertion: behind the entries with the same key or a smaller one.\<close>

fun add_after :: "i32 \<times> i32 \<times> i32 \<Rightarrow> (i32 \<times> i32 \<times> i32) list \<Rightarrow> (i32 \<times> i32 \<times> i32) list" where
  "add_after e [] = [e]"
| "add_after e (x # xs) = (if seg_key e < seg_key x then e # x # xs else x # add_after e xs)"

lemma add_after_left: "seg_key e < seg_key x \<Longrightarrow> add_after e (xs @ x # ys) = add_after e xs @ x # ys"
  by (induction xs) auto

lemma add_after_right: "\<forall>x \<in> set xs. seg_key x \<le> seg_key e \<Longrightarrow> add_after e (xs @ ys) = xs @ add_after e ys"
  by (induction xs) auto

lemma set_add_after [simp]: "set (add_after e xs) = insert e (set xs)"
  by (induction xs) auto

lemma mset_add_after [simp]: "mset (add_after e xs) = add_mset e (mset xs)"
  by (induction xs) auto

lemma length_add_after [simp]: "length (add_after e xs) = Suc (length xs)"
  by (induction xs) auto

lemma sorted_add_after: "sorted (map seg_key xs) \<Longrightarrow> sorted (map seg_key (add_after e xs))"
  by (induction xs) auto

lemma left_up_ok:
  "l \<noteq> SegNil \<Longrightarrow> \<exists>t. left_up (SegNode s d f l r lc rc) = Inr t \<and> seg_entries t = seg_entries (SegNode s d f l r lc rc) \<and>
    (seg_counts (SegNode s d f l r lc rc) \<longrightarrow> seg_counts t)"
  by (cases l) (simp_all add: ac_simps)

lemma right_up_ok:
  "r \<noteq> SegNil \<Longrightarrow> \<exists>t. right_up (SegNode s d f l r lc rc) = Inr t \<and> seg_entries t = seg_entries (SegNode s d f l r lc rc) \<and>
    (seg_counts (SegNode s d f l r lc rc) \<longrightarrow> seg_counts t)"
  by (cases r) (simp_all add: ac_simps)

lemma seg_nil_iff: "seg_entries t = [] \<longleftrightarrow> t = SegNil"
  by (cases t) simp_all

lemma descend_tree_add_ok:
  "sorted (map seg_key (seg_entries t)) \<Longrightarrow> seg_counts t \<Longrightarrow>
    \<exists>t'. descend_tree_add t ls ds ofs = Inr t' \<and> seg_entries t' = add_after (ls, ds, ofs) (seg_entries t) \<and> seg_counts t'"
proof (induction t)
  case (SegNode s d f l r lc rc)
  have c: "seg_counts l" "seg_counts r" "lc = of_nat (length (seg_entries l))" "rc = of_nat (length (seg_entries r))"
    using SegNode.prems(2) by simp_all
  have o: "sorted (map seg_key (seg_entries l))" "sorted (map seg_key (seg_entries r))" "\<forall>e \<in> set (seg_entries l). seg_key e \<le> sint s"
    using SegNode.prems(1) by (auto simp: sorted_append)
  show ?case
  proof (cases "sint ls < sint s")
    case True
    obtain l' where l': "descend_tree_add l ls ds ofs = Inr l'" "seg_entries l' = add_after (ls, ds, ofs) (seg_entries l)" "seg_counts l'"
      using SegNode.IH(1) [OF o(1) c(1)] by (elim exE conjE) (rule that; assumption)
    have n: "l' \<noteq> SegNil" using arg_cong [OF l'(2), of length] by auto
    define t where "t = SegNode s d f l' r (lc + 1) rc"
    have t: "seg_entries t = add_after (ls, ds, ofs) (seg_entries (SegNode s d f l r lc rc))" "seg_counts t"
      using l'(2,3) c True by (simp_all add: t_def add_after_left ac_simps)
    have "descend_tree_add (SegNode s d f l r lc rc) ls ds ofs = (if sint (rc + 2) < sint (lc + 1) then left_up t else Inr t)"
      using True l'(1) by (simp add: t_def)
    then show ?thesis using t left_up_ok [OF n, of s d f r "lc + 1" rc, folded t_def] by auto
  next
    case False
    obtain r' where r': "descend_tree_add r ls ds ofs = Inr r'" "seg_entries r' = add_after (ls, ds, ofs) (seg_entries r)" "seg_counts r'"
      using SegNode.IH(2) [OF o(2) c(2)] by (elim exE conjE) (rule that; assumption)
    have n: "r' \<noteq> SegNil" using arg_cong [OF r'(2), of length] by auto
    define t where "t = SegNode s d f l r' lc (rc + 1)"
    have le: "\<forall>x \<in> set (seg_entries l @ [(s, d, f)]). seg_key x \<le> seg_key (ls, ds, ofs)" using o(3) False by auto
    have t: "seg_entries t = add_after (ls, ds, ofs) (seg_entries (SegNode s d f l r lc rc))" "seg_counts t"
      using r'(2,3) c add_after_right [OF le, of "seg_entries r"] by (simp_all add: t_def ac_simps)
    have "descend_tree_add (SegNode s d f l r lc rc) ls ds ofs = (if sint (lc + 2) < sint (rc + 1) then right_up t else Inr t)"
      using False r'(1) by (simp add: t_def)
    then show ?thesis using t right_up_ok [OF n, of s d f l lc "rc + 1", folded t_def] by auto
  qed
qed simp

lemma get_seglocation_entries:
  "sorted (map seg_key (seg_entries t)) \<Longrightarrow>
    (case get_seglocation t k of Some p \<Rightarrow> (k, p) \<in> set (seg_entries t) | None \<Rightarrow> \<forall>e \<in> set (seg_entries t). fst e \<noteq> k)"
proof (induction t)
  case (SegNode s d f l r lc rc)
  have o: "sorted (map seg_key (seg_entries l))" "sorted (map seg_key (seg_entries r))"
    "\<forall>e \<in> set (seg_entries l). seg_key e \<le> sint s" "\<forall>e \<in> set (seg_entries r). sint s \<le> seg_key e"
    using SegNode.prems by (auto simp: sorted_append)
  have ne: "fst e \<noteq> k" if "seg_key e \<noteq> sint k" for e using that by auto
  consider "s = k" | "s \<noteq> k" "sint k < sint s" | "s \<noteq> k" "sint s < sint k"
    by (metis linorder_neqE_linordered_idom signed_word_eqI)
  then show ?case
  proof cases
    case 2
    then have "\<forall>e \<in> set (seg_entries r). fst e \<noteq> k" using o(4) by (auto intro!: ne)
    then show ?thesis using 2 SegNode.IH(1) [OF o(1)] by (auto split: option.splits)
  next
    case 3
    then have "\<forall>e \<in> set (seg_entries l). fst e \<noteq> k" using o(3) by (auto intro!: ne)
    then show ?thesis using 3 SegNode.IH(2) [OF o(2)] by (auto split: option.splits)
  qed simp
qed simp

text \<open>Insertion behind equal keys, one entry after the other, is the stable sort.\<close>

lemma filter_add_after:
  "sorted (map seg_key xs) \<Longrightarrow> filter (\<lambda>x. seg_key x = k) (add_after e xs) = filter (\<lambda>x. seg_key x = k) (xs @ [e])"
proof (induction xs)
  case (Cons a xs)
  show ?case
  proof (cases "seg_key e < seg_key a")
    case True
    then have "filter (\<lambda>x. seg_key x = k) (a # xs) = []" if "k = seg_key e"
      using Cons.prems that by (auto simp: filter_empty_conv)
    moreover have "filter (\<lambda>x. seg_key x = k) (add_after e (a # xs)) = filter (\<lambda>x. seg_key x = k) [e] @ filter (\<lambda>x. seg_key x = k) (a # xs)"
      using True by simp
    moreover have "filter (\<lambda>x. seg_key x = k) ((a # xs) @ [e]) = filter (\<lambda>x. seg_key x = k) (a # xs) @ filter (\<lambda>x. seg_key x = k) [e]"
      by (simp only: filter_append)
    ultimately show ?thesis by (cases "seg_key e = k") auto
  qed (use Cons in simp)
qed simp

lemma steps_add_seglocation:
  assumes "sorted (map seg_key (seg_entries t))" and "seg_counts t"
  shows "\<exists>t'. steps add_seglocation t es = Inr t' \<and> seg_entries t' = foldl (\<lambda>xs e. add_after e xs) (seg_entries t) es \<and> seg_counts t'"
  using assms
proof (induction es arbitrary: t)
  case (Cons e es)
  obtain ls ds ofs where e: "e = (ls, ds, ofs)" by (cases e)
  obtain t' where t': "add_seglocation t e = Inr t'" "seg_entries t' = add_after e (seg_entries t)" "seg_counts t'"
    using descend_tree_add_ok [OF Cons.prems, of ls ds ofs] by (elim exE conjE) (auto simp: add_seglocation_def e intro: that)
  moreover have "sorted (map seg_key (seg_entries t'))" using t'(2) Cons.prems(1) by (simp add: sorted_add_after)
  ultimately show ?case using Cons.IH [of t'] by simp
qed simp

lemma foldl_add_after: "foldl (\<lambda>xs e. add_after e xs) [] es = sort_key seg_key es"
proof (induction es rule: rev_induct)
  case (snoc e es)
  let ?s = "sort_key seg_key es"
  have "sort_key seg_key (es @ [e]) = add_after e ?s"
  proof (rule properties_for_sort_key)
    fix x
    have c: "(\<lambda>y. seg_key x = seg_key y) = (\<lambda>y. seg_key y = seg_key x)" by auto
    show "filter (\<lambda>y. seg_key x = seg_key y) (add_after e ?s) = filter (\<lambda>y. seg_key x = seg_key y) (es @ [e])"
      unfolding c by (simp only: filter_add_after [OF sorted_sort_key] filter_append sort_key_stable)
  qed (simp_all add: sorted_add_after)
  then show ?case using snoc by simp
qed simp

section \<open>Collections are arrays that grow\<close>

fun coll_ok :: "'a collection \<Rightarrow> bool" where
  "coll_ok (Collection p nx) \<longleftrightarrow> length p = 32 \<and> (case nx of None \<Rightarrow> True | Some c \<Rightarrow> coll_ok c)"

fun coll_at :: "'a collection \<Rightarrow> nat \<Rightarrow> 'a option" where
  "coll_at (Collection p nx) n = (if n < 32 then p ! n else case nx of None \<Rightarrow> None | Some c \<Rightarrow> coll_at c (n - 32))"

text \<open>The uses of a cell: \<open>*colln(c, i) = v\<close> and \<open>*colln(c, i)\<close>.\<close>

definition coll_write :: "'a collection \<Rightarrow> i32 \<times> 'a option \<Rightarrow> 'a collection result" where
  "coll_write c = (\<lambda>(i, v). andthen (colln c i) (\<lambda>(c, p). Inr (set_cell c p v)))"

definition coll_read :: "'a collection \<Rightarrow> i32 \<Rightarrow> ('a option \<times> 'a collection) result" where
  "coll_read c i = andthen (colln c i) (\<lambda>(c, p). Inr (cell c p, c))"

declare colln.simps [simp del]

lemma coll_at_init: "coll_at collection_init n = None"
  by (simp add: collection_init_def)

lemma coll_ok_init: "coll_ok collection_init"
  by (simp add: collection_init_def)

lemma colln_ok:
  assumes "coll_ok c" and "0 \<le> sint i"
  shows "\<exists>c' p. colln c i = Inr (c', p) \<and> coll_ok c' \<and> coll_at c' = coll_at c \<and> cell c' p = coll_at c (nat (sint i)) \<and>
    (\<forall>v. coll_ok (set_cell c' p v) \<and> coll_at (set_cell c' p v) = (coll_at c)(nat (sint i) := v))"
  using assms
proof (induction c i rule: colln.induct)
  case (1 p nx i)
  show ?case
  proof (cases "32 \<le> sint i")
    case True
    define c0 where "c0 = (case nx of None \<Rightarrow> collection_init | Some c \<Rightarrow> c)"
    have c0: "coll_ok c0" "\<And>n. coll_at c0 n = (case nx of None \<Rightarrow> None | Some c \<Rightarrow> coll_at c n)"
      using 1(2) by (auto simp: c0_def coll_ok_init coll_at_init split: option.split)
    have s: "sint (i - 32) = sint i - 32" "nat (sint (i - 32)) = nat (sint i) - 32" using True by (simp_all add: sint_minus_32 nat_diff_distrib)
    have "0 \<le> sint (i - 32)" using True s(1) by simp
    from 1(1) [OF True, folded c0_def, OF c0(1) this, unfolded s(2)]
    obtain c' q where q: "colln c0 (i - 32) = Inr (c', q)" "coll_ok c'" "coll_at c' = coll_at c0"
      "cell c' q = coll_at c0 (nat (sint i) - 32)"
      "\<forall>v. coll_ok (set_cell c' q v) \<and> coll_at (set_cell c' q v) = (coll_at c0)(nat (sint i) - 32 := v)"
      by (elim exE conjE) (rule that; assumption)
    obtain b j where bj: "q = (b, j)" by (cases q)
    have n: "\<not> nat (sint i) < 32" using True by simp
    have "colln (Collection p nx) i = Inr (Collection p (Some c'), Suc b, j)"
      using True q(1) by (subst colln.simps) (simp add: c0_def bj)
    moreover have "coll_at (Collection p (Some c')) = coll_at (Collection p nx)" using q(3) c0(2) by auto
    moreover have "coll_at (set_cell (Collection p (Some c')) (Suc b, j) v) = (coll_at (Collection p nx))(nat (sint i) := v)" for v
      using q(5) n by (auto simp: fun_eq_iff bj c0(2))
    moreover have "cell c' (b, j) = coll_at (Collection p nx) (nat (sint i))" using q(4) n by (simp add: bj c0(2))
    moreover have "coll_ok (Collection p (Some c'))" "coll_ok (set_cell (Collection p (Some c')) (Suc b, j) v)" for v
      using 1(2) q(2,5) by (simp_all add: bj)
    ultimately show ?thesis by (intro exI [of _ "Collection p (Some c')"] exI [of _ "(Suc b, j)"]) (simp del: coll_at.simps coll_ok.simps)
  next
    case False
    then have n: "nat (sint i) < 32" by simp
    have "colln (Collection p nx) i = Inr (Collection p nx, 0, nat (sint i))" using False 1(3) by (subst colln.simps) simp
    moreover have "coll_at (Collection (p[nat (sint i) := v]) nx) = (coll_at (Collection p nx))(nat (sint i) := v)" for v
      using 1(2) n by (auto simp: fun_eq_iff nth_list_update)
    moreover have "coll_ok (Collection (p[nat (sint i) := v]) nx)" "coll_at (Collection p nx) (nat (sint i)) = p ! nat (sint i)" for v
      using 1(2) n by simp_all
    ultimately show ?thesis using 1(2)
      by (intro exI [of _ "Collection p nx"] exI [of _ "(0, nat (sint i))"]) (simp del: coll_at.simps coll_ok.simps)
  qed
qed

lemma coll_write_ok:
  assumes "coll_ok c" and "0 \<le> sint (fst w)"
  shows "\<exists>c'. coll_write c w = Inr c' \<and> coll_ok c' \<and> coll_at c' = (coll_at c)(nat (sint (fst w)) := snd w)"
proof -
  obtain c' p where "colln c (fst w) = Inr (c', p)"
    "\<forall>v. coll_ok (set_cell c' p v) \<and> coll_at (set_cell c' p v) = (coll_at c)(nat (sint (fst w)) := v)"
    using colln_ok [OF assms] by (elim exE conjE) (rule that; assumption)
  then show ?thesis by (simp add: coll_write_def case_prod_beta del: fun_upd_apply)
qed

lemma coll_writes_ok:
  "coll_ok c \<Longrightarrow> \<forall>w \<in> set ws. 0 \<le> sint (fst w) \<Longrightarrow> \<exists>c'. steps coll_write c ws = Inr c' \<and> coll_ok c' \<and>
    coll_at c' = foldl (\<lambda>m w. m(nat (sint (fst w)) := snd w)) (coll_at c) ws"
proof (induction ws arbitrary: c)
  case (Cons w ws)
  obtain c' where c': "coll_write c w = Inr c'" "coll_ok c'" "coll_at c' = (coll_at c)(nat (sint (fst w)) := snd w)"
    using coll_write_ok [OF Cons.prems(1), of w] Cons.prems(2) by auto
  then show ?case using Cons.IH [OF c'(2)] Cons.prems(2) by simp
qed simp

section \<open>Properties\<close>

text \<open>
  C14. The segment table of the linker: adding entries never uses a null pointer, for any number of
  entries and any segment numbers; the entries stand in the tree in the order of a stable sort by
  segment number, and the counts that steer the rotations are the sizes of the subtrees. A look-up
  gives an entry that was added for the segment, and fails only when there is none.
\<close>

theorem segtab_correct:
  "\<exists>t. steps add_seglocation init_seglocations es = Inr t \<and> seg_entries t = sort_key seg_key es \<and> seg_counts t \<and>
    (\<forall>k. case get_seglocation t k of Some p \<Rightarrow> (k, p) \<in> set es | None \<Rightarrow> k \<notin> fst ` set es)"
proof -
  obtain t where t: "steps add_seglocation init_seglocations es = Inr t" "seg_entries t = sort_key seg_key es" "seg_counts t"
    using steps_add_seglocation [of SegNil es] by (auto simp: init_seglocations_def foldl_add_after)
  have "case get_seglocation t k of Some p \<Rightarrow> (k, p) \<in> set es | None \<Rightarrow> k \<notin> fst ` set es" for k
    using get_seglocation_entries [of t k] by (auto simp: t(2) split: option.splits)
  with t show ?thesis by blast
qed

text \<open>
  C18. The symbol table of the linker: after any insertions, a name is found exactly when it was
  inserted, with the entry inserted last; changing an entry through the pointer that the look-up gave
  changes what the table says of this name and of no other. The hash is the CRC-32 of the name.
\<close>

theorem symtab_correct:
  assumes "\<forall>e \<in> set es. cstring (sym_name e)" and "cstring name" and "cstring m" and "\<And>e. sym_name (f e) = sym_name e"
  defines "tab \<equiv> foldl symtabInsert symtabNew es"
  shows "symtab_map tab name = find (\<lambda>e. sym_name e = name) (rev es) \<and>
    (\<forall>p. symtabFind tab name = Some p \<longrightarrow> symtab_map (symtab_update f p tab) m = ((symtab_map tab)(name \<mapsto> f (symtab_ent tab p))) m) \<and>
    rdoff_hash name = crc_reference crc32_poly 0xffffffff name XOR 0xffffffff"
proof -
  have "symtab_ok (foldl symtabInsert tab es) \<and>
    symtab_map (foldl symtabInsert tab es) name = (case find (\<lambda>e. sym_name e = name) (rev es) of None \<Rightarrow> symtab_map tab name | e \<Rightarrow> e)"
    if "symtab_ok tab" for tab
    using that assms(1)
  proof (induction es arbitrary: tab)
    case (Cons e es)
    have c: "cstring (sym_name e)" using Cons.prems(2) by simp
    show ?case using Cons.IH [OF symtabInsert_ok [OF Cons.prems(1) c]] Cons.prems(2)
      by (auto simp: symtabInsert_map [OF Cons.prems(1) c assms(2)] find_append split: option.split)
  qed simp
  from this [OF symtabNew_ok] have t: "symtab_ok tab" "symtab_map tab name = find (\<lambda>e. sym_name e = name) (rev es)"
    unfolding tab_def by (simp_all add: symtabNew_map [OF assms(2)] split: option.splits)
  have "symtab_map (symtab_update f p tab) m = ((symtab_map tab)(name \<mapsto> f (symtab_ent tab p))) m" if "symtabFind tab name = Some p" for p
    by (rule symtab_update_map(3) [OF t(1) assms(2) that assms(4,3)])
  then show ?thesis using t(2) by (simp add: rdoff_hash_def hash_loop_crc [OF assms(2)])
qed

definition demo_symbol :: "char list \<Rightarrow> i32 \<Rightarrow> symtabEnt" where
  "demo_symbol s seg = \<lparr>sym_name = bytes_of s, sym_segment = seg, sym_offset = 0, sym_flags = 0\<rparr>"

theorem symtab_correct_witness:
  "symtab_map (foldl symtabInsert symtabNew [demo_symbol ''a'' 1, demo_symbol ''b'' 2, demo_symbol ''a'' 3]) (bytes_of ''a'') =
    Some (demo_symbol ''a'' 3)"
  using symtab_correct [of "[demo_symbol ''a'' 1, demo_symbol ''b'' 2, demo_symbol ''a'' 3]" "bytes_of ''a''" "bytes_of ''a''" "\<lambda>e. e"]
  by (simp add: demo_symbol_def cstring_def bytes_of_def)

text \<open>
  C30. A collection is an array of pointers without an end: after any sequence of assignments to cells
  with indices that are not negative, reading a cell gives what was assigned to it last, or the null
  pointer, and changes no cell; no access leaves a block.
\<close>

theorem collection_correct:
  assumes "\<forall>w \<in> set ws. 0 \<le> sint (fst w)" and "0 \<le> sint j"
  shows "\<exists>c c'. steps coll_write collection_init ws = Inr c \<and>
    coll_read c j = Inr (case find (\<lambda>w. fst w = j) (rev ws) of Some w \<Rightarrow> snd w | None \<Rightarrow> None, c') \<and> coll_at c' = coll_at c"
proof -
  have same: "nat (sint (fst w)) = nat (sint j) \<longleftrightarrow> fst w = j" if "w \<in> set ws" for w
    using assms that by (metis eq_nat_nat_iff signed_word_eqI)
  define F where "F = (\<lambda>(m :: nat \<Rightarrow> 'a option) (w :: i32 \<times> 'a option). m(nat (sint (fst w)) := snd w))"
  have F: "F m w (nat (sint j)) = (if fst w = j then snd w else m (nat (sint j)))" if "w \<in> set ws" for m w
    using same [OF that] by (auto simp: F_def)
  have "foldl F m ws (nat (sint j)) = (case find (\<lambda>w. fst w = j) (rev ws) of Some w \<Rightarrow> snd w | None \<Rightarrow> m (nat (sint j)))" for m
    using F
  proof (induction ws arbitrary: m)
    case (Cons w ws)
    have "F m w (nat (sint j)) = (if fst w = j then snd w else m (nat (sint j)))" using Cons.prems by (meson list.set_intros(1))
    moreover have "foldl F m' ws (nat (sint j)) = (case find (\<lambda>w. fst w = j) (rev ws) of Some w \<Rightarrow> snd w | None \<Rightarrow> m' (nat (sint j)))" for m'
      using Cons.IH Cons.prems by (meson list.set_intros(2))
    ultimately show ?case by (simp add: find_append split: option.split)
  qed simp
  moreover obtain c where c: "steps coll_write collection_init ws = Inr c" "coll_ok c"
    "coll_at c = foldl F (coll_at collection_init) ws"
    using coll_writes_ok [OF coll_ok_init assms(1), folded F_def] by (elim exE conjE) (rule that; assumption)
  moreover obtain c' p where "colln c j = Inr (c', p)" "coll_at c' = coll_at c" "cell c' p = coll_at c (nat (sint j))"
    using colln_ok [OF c(2) assms(2)] by (elim exE conjE) (rule that; assumption)
  ultimately show ?thesis by (simp add: coll_read_def coll_at_init split: option.split)
qed

theorem collection_correct_witness:
  "\<exists>c c'. steps coll_write collection_init [(5, Some (1 :: nat)), (70, Some 2), (5, Some 3)] = Inr c \<and>
    coll_read c 5 = Inr (Some 3, c')"
  using collection_correct [of "[(5, Some (1 :: nat)), (70, Some 2), (5, Some 3)]" 5] by auto

end
