(* ===== verification/Rdf.thy ===== *)
theory Rdf
  imports NasmString
begin

text \<open>
  The RDOFF object format, \<open>rdoff/rdoff.c\<close>: header records collected in memory buffers and written
  behind the signature, and the reader of modules, of their headers and of their segments. Files are
  byte strings with a position.
\<close>

section \<open>Records\<close>

datatype rdf_error =
    RDF_ERR_OPEN | RDF_ERR_FORMAT | RDF_ERR_READ | RDF_ERR_UNKNOWN | RDF_ERR_HEADER | RDF_ERR_NOMEM
  | RDF_ERR_VER | RDF_ERR_RECTYPE | RDF_ERR_RECLEN | RDF_ERR_SEGMENT

text \<open>The structures of the union, without the type; a \<open>char\<close> array with a string in it is the string.\<close>

record generic_rec =
  g_reclen :: u8
  g_data :: bytes

record reloc_rec =
  r_reclen :: u8
  r_segment :: u8
  r_offset :: i32
  r_length :: u8
  r_refseg :: u16

record import_rec =
  i_reclen :: u8
  i_flags :: u8
  i_segment :: u16
  i_label :: bytes

record export_rec =
  e_reclen :: u8
  e_flags :: u8
  e_segment :: u8
  e_offset :: i32
  e_label :: bytes

record dll_rec =
  d_reclen :: u8
  d_libname :: bytes

record bss_rec =
  b_reclen :: u8
  b_amount :: i32

record mod_rec =
  m_reclen :: u8
  m_modname :: bytes

record common_rec =
  c_reclen :: u8
  c_segment :: u16
  c_size :: i32
  c_align :: u16
  c_label :: bytes

datatype rdfheaderrec =
    Generic generic_rec | Reloc reloc_rec | Import import_rec | Global export_rec | DLL dll_rec | BSS bss_rec
  | SegReloc reloc_rec | FarImport import_rec | ModName mod_rec | Common common_rec

definition EXIM_LABEL_MAX :: nat where "EXIM_LABEL_MAX = 256"
definition MODLIB_NAME_MAX :: nat where "MODLIB_NAME_MAX = 128"
definition RDF_MAXSEGS :: nat where "RDF_MAXSEGS = 64"

definition rec_type :: "rdfheaderrec \<Rightarrow> u8" where
  "rec_type r =
     (case r of Generic _ \<Rightarrow> 0 | Reloc _ \<Rightarrow> 1 | Import _ \<Rightarrow> 2 | Global _ \<Rightarrow> 3 | DLL _ \<Rightarrow> 4 | BSS _ \<Rightarrow> 5
      | SegReloc _ \<Rightarrow> 6 | FarImport _ \<Rightarrow> 7 | ModName _ \<Rightarrow> 8 | Common _ \<Rightarrow> 10)"

definition rec_reclen :: "rdfheaderrec \<Rightarrow> u8" where
  "rec_reclen r =
     (case r of Generic g \<Rightarrow> g_reclen g | Reloc r \<Rightarrow> r_reclen r | Import i \<Rightarrow> i_reclen i | Global e \<Rightarrow> e_reclen e
      | DLL d \<Rightarrow> d_reclen d | BSS b \<Rightarrow> b_reclen b | SegReloc r \<Rightarrow> r_reclen r | FarImport i \<Rightarrow> i_reclen i
      | ModName m \<Rightarrow> m_reclen m | Common c \<Rightarrow> c_reclen c)"

section \<open>Memory buffers\<close>

text \<open>A buffer: its bytes, up to \<open>length\<close>, and the next one.\<close>

datatype memorybuffer = MemBuf bytes "memorybuffer option"

definition BUF_BLOCK_LEN :: nat where "BUF_BLOCK_LEN = 4088"

definition newmembuf :: memorybuffer where "newmembuf = MemBuf [] None"

text \<open>
  What is written: a long word (\<open>bytes\<close> is -4), a short word (-2) or characters (their number). A
  write that no buffer holds would allocate buffers without end.
\<close>

datatype membuf_data = Long i32 | Short u16 | Chars bytes

definition data_size :: "membuf_data \<Rightarrow> nat" where
  "data_size d = (case d of Long l \<Rightarrow> 4 | Short w \<Rightarrow> 2 | Chars c \<Rightarrow> length c)"

definition membuf_store :: "bytes \<Rightarrow> membuf_data \<Rightarrow> bytes" where
  "membuf_store buf d =
     (case d of
        Long l \<Rightarrow>
          let l1 = signed_drop_bit 8 l; l2 = signed_drop_bit 8 l1; l3 = signed_drop_bit 8 l2
          in buf @ [ucast (l AND 0xff), ucast (l1 AND 0xff), ucast (l2 AND 0xff), ucast (l3 AND 0xff)]
      | Short w \<Rightarrow> buf @ [ucast (w AND 0xff), ucast (drop_bit 8 w AND 0xff)]
      | Chars c \<Rightarrow> buf @ c)"

function membufwrite :: "memorybuffer \<Rightarrow> membuf_data \<Rightarrow> memorybuffer result" where
  "membufwrite (MemBuf buf (Some b)) d = andthen (membufwrite b d) (\<lambda>b. Inr (MemBuf buf (Some b)))"
| "membufwrite (MemBuf buf None) d =
     (if BUF_BLOCK_LEN < data_size d then Inl Diverges
      else if BUF_BLOCK_LEN < length buf + data_size d then
        andthen (membufwrite newmembuf d) (\<lambda>b. Inr (MemBuf buf (Some b)))
      else Inr (MemBuf (membuf_store buf d) None))"
  by pat_completeness auto
termination
  by (relation "measures [\<lambda>(b, d). size b, \<lambda>(b, d). case b of MemBuf buf nx \<Rightarrow> length buf]")
    (auto simp: newmembuf_def)

fun membufdump :: "memorybuffer \<Rightarrow> bytes" where
  "membufdump (MemBuf buf nx) = buf @ (case nx of None \<Rightarrow> [] | Some b \<Rightarrow> membufdump b)"

fun membuflength :: "memorybuffer \<Rightarrow> i32" where
  "membuflength (MemBuf buf nx) = of_nat (length buf) + (case nx of None \<Rightarrow> 0 | Some b \<Rightarrow> membuflength b)"

section \<open>Writing a header\<close>

record rdf_headerbuf =
  hb_buf :: memorybuffer
  hb_nsegments :: i32
  hb_seglength :: i32

definition rdfnewheader :: rdf_headerbuf where
  "rdfnewheader = \<lparr>hb_buf = newmembuf, hb_nsegments = 0, hb_seglength = 0\<rparr>"

text \<open>
  The fields of a record in the order they are written. A generic record has 128 bytes of data;
  a type that is not known is an error, found when the type and the length have been written.
\<close>

definition rec_fields :: "rdfheaderrec \<Rightarrow> (rdf_error + membuf_data list) result" where
  "rec_fields r =
     (case r of
        Generic g \<Rightarrow> guard (unat (g_reclen g) \<le> length (g_data g)) OutOfBounds (Inr (Inr [Chars (take (unat (g_reclen g)) (g_data g))]))
      | Reloc r \<Rightarrow> Inr (Inr [Chars [r_segment r], Long (r_offset r), Chars [r_length r], Short (r_refseg r)])
      | SegReloc r \<Rightarrow> Inr (Inr [Chars [r_segment r], Long (r_offset r), Chars [r_length r], Short (r_refseg r)])
      | Import i \<Rightarrow> Inr (Inr [Chars [i_flags i], Short (i_segment i), Chars (i_label i @ [0])])
      | FarImport i \<Rightarrow> Inr (Inr [Chars [i_flags i], Short (i_segment i), Chars (i_label i @ [0])])
      | Global e \<Rightarrow> Inr (Inr [Chars [e_flags e], Chars [e_segment e], Long (e_offset e), Chars (e_label e @ [0])])
      | DLL d \<Rightarrow> Inr (Inr [Chars (d_libname d @ [0])])
      | BSS b \<Rightarrow> Inr (Inr [Long (b_amount b)])
      | ModName m \<Rightarrow> Inr (Inr [Chars (m_modname m @ [0])])
      | Common c \<Rightarrow> Inr (Inl RDF_ERR_RECTYPE))"

definition rdfaddheader :: "rdf_headerbuf \<Rightarrow> rdfheaderrec \<Rightarrow> (rdf_error option \<times> rdf_headerbuf) result" where
  "rdfaddheader h r =
     andthen (steps membufwrite (hb_buf h) [Chars [rec_type r], Chars [rec_reclen r]]) (\<lambda>b.
     andthen (rec_fields r) (\<lambda>fs. case fs of
       Inl e \<Rightarrow> Inr (Some e, h\<lparr>hb_buf := b\<rparr>)
     | Inr ds \<Rightarrow> andthen (steps membufwrite b ds) (\<lambda>b. Inr (None, h\<lparr>hb_buf := b\<rparr>))))"

definition rdfaddsegment :: "rdf_headerbuf \<Rightarrow> i32 \<Rightarrow> rdf_headerbuf" where
  "rdfaddsegment h seglength = h\<lparr>hb_nsegments := hb_nsegments h + 1, hb_seglength := hb_seglength h + seglength\<rparr>"

definition RDOFFId :: bytes where "RDOFFId = bytes_of ''RDOFF2''"

definition rdfwriteheader :: "rdf_headerbuf \<Rightarrow> bytes" where
  "rdfwriteheader h =
     (let l = membuflength (hb_buf h); l2 = l + 14 + 10 * hb_nsegments h + hb_seglength h
      in RDOFFId @ le_bytes 4 l @ le_bytes 4 l2 @ membufdump (hb_buf h))"

section \<open>Files\<close>

text \<open>\<open>fread\<close>, \<open>fseek\<close> and \<open>ftell\<close> of the C library on a file that is open for reading.\<close>

record cfile =
  file_bytes :: bytes
  file_pos :: nat

definition fread :: "nat \<Rightarrow> cfile \<Rightarrow> bytes \<times> cfile" where
  "fread n f = (take n (drop (file_pos f) (file_bytes f)), f\<lparr>file_pos := file_pos f + min n (length (file_bytes f) - file_pos f)\<rparr>)"

definition fseek_cur :: "int \<Rightarrow> cfile \<Rightarrow> cfile option" where
  "fseek_cur n f = (if int (file_pos f) + n < 0 then None else Some (f\<lparr>file_pos := nat (int (file_pos f) + n)\<rparr>))"

definition fseek_set :: "int \<Rightarrow> cfile \<Rightarrow> cfile option" where
  "fseek_set n f = (if n < 0 then None else Some (f\<lparr>file_pos := nat n\<rparr>))"

definition ftell :: "cfile \<Rightarrow> int" where "ftell f = int (file_pos f)"

text \<open>A little-endian machine reads an integer from its bytes.\<close>

fun le_word :: "bytes \<Rightarrow> 'a::len word" where
  "le_word [] = 0"
| "le_word (b # bs) = ucast b OR push_bit 8 (le_word bs)"

definition translateint32_t :: "i32 \<Rightarrow> i32" where
  "translateint32_t v =
     (let i = le_bytes 4 v; r = ucast (i ! 3) :: i32; r = push_bit 8 r + ucast (i ! 2); r = push_bit 8 r + ucast (i ! 1)
      in push_bit 8 r + ucast (i ! 0))"

section \<open>Opening a module\<close>

record segment_header =
  sh_type :: u16
  sh_number :: u16
  sh_reserved :: u16
  sh_length :: i32
  sh_offset :: i32
  sh_data :: "bytes option"

text \<open>\<open>segs\<close> are the first \<open>nsegs\<close> elements of \<open>seg\<close>; \<open>refs\<close> is the counter \<open>refcount\<close> points to.\<close>

record rdffile =
  rfp :: cfile
  header_len :: i32
  header_ofs :: i32
  header_loc :: "bytes option"
  header_fp :: nat
  segs :: "segment_header list"
  eof_offset :: i32
  rname :: bytes
  refs :: "i32 option"

datatype 'a status = Fail rdf_error | Done 'a

text \<open>The loop over the segments, with the type of the next one; its end is a type of zero.\<close>

function seg_loop :: "u16 \<Rightarrow> cfile \<Rightarrow> segment_header list \<Rightarrow> (cfile \<times> segment_header list) status result" where
  "seg_loop s fp ss =
     (if s = 0 then Inr (Done (fp, ss))
      else if RDF_MAXSEGS \<le> length ss then Inl OutOfBounds
      else
        let (number, fp) = fread 2 fp; (reserved, fp) = fread 2 fp; (len, fp) = fread 4 fp
        in if length number \<noteq> 2 \<or> length reserved \<noteq> 2 \<or> length len \<noteq> 4 then Inr (Fail RDF_ERR_READ)
           else
             let sh = \<lparr>sh_type = s, sh_number = le_word number, sh_reserved = le_word reserved, sh_length = le_word len,
                   sh_offset = word_of_int (ftell fp), sh_data = None\<rparr>
             in case fseek_cur (sint (sh_length sh)) fp of
                  None \<Rightarrow> Inr (Fail RDF_ERR_FORMAT)
                | Some fp \<Rightarrow>
                    let (s, fp) = fread 2 fp
                    in if length s \<noteq> 2 then Inr (Fail RDF_ERR_READ) else seg_loop (le_word s) fp (ss @ [sh]))"
  by pat_completeness auto
termination
  by (relation "measure (\<lambda>(s, fp, ss). RDF_MAXSEGS - length ss)") auto

text \<open>
  The module that starts at the present position of the file. The flag says that the warning on
  the end of the file is printed. A short read and its order of evaluation are those of \<open>||\<close>: after
  a failure the file is closed, and nothing else of it is used.
\<close>

definition rdfopenhere :: "cfile \<Rightarrow> i32 option \<Rightarrow> bytes \<Rightarrow> (rdffile \<times> bool) status result" where
  "rdfopenhere fp refcount name =
     (let initpos = ftell fp; (buf, fp) = fread 6 fp
      in if length buf \<noteq> 6 then Inr (Fail RDF_ERR_READ)
         else if strcmp buf RDOFFId \<noteq> 0 then Inr (Fail (if strcmp buf (bytes_of ''RDOFF1'') = 0 then RDF_ERR_VER else RDF_ERR_FORMAT))
         else
           let (l, fp) = fread 4 fp; (hl, fp) = fread 4 fp
           in if length l \<noteq> 4 \<or> length hl \<noteq> 4 then Inr (Fail RDF_ERR_READ)
              else
                let hlen = le_word hl; hofs = word_of_int (ftell fp); eof = hofs + translateint32_t (le_word l) - 4
                in case fseek_cur (sint (hlen :: i32)) fp of
                     None \<Rightarrow> Inr (Fail RDF_ERR_FORMAT)
                   | Some fp \<Rightarrow>
                       let (s, fp) = fread 2 fp
                       in if length s \<noteq> 2 then Inr (Fail RDF_ERR_READ)
                          else andthen (seg_loop (le_word s) fp []) (\<lambda>r. case r of
                              Fail e \<Rightarrow> Inr (Fail e)
                            | Done (fp, ss) \<Rightarrow>
                                Inr (Done (\<lparr>rfp = fp\<lparr>file_pos := nat initpos\<rparr>, header_len = hlen, header_ofs = hofs, header_loc = None,
                                      header_fp = 0, segs = ss, eof_offset = eof, rname = name, refs = map_option (\<lambda>n. n + 1) refcount\<rparr>,
                                    sint eof \<noteq> ftell fp + 8))))"

definition rdffindsegment :: "rdffile \<Rightarrow> i32 \<Rightarrow> int" where
  "rdffindsegment f segno =
     (case find (\<lambda>i. ucast (sh_number (segs f ! i)) = segno) [0..<length (segs f)] of
        Some i \<Rightarrow> int i | None \<Rightarrow> - 1)"

text \<open>\<open>segment\<close> is -1 for the header. The buffer has the size asked for, and gets what is read.\<close>

definition rdfloadseg :: "rdffile \<Rightarrow> int \<Rightarrow> (bytes \<times> rdffile) status result" where
  "rdfloadseg f segment =
     (if segment = - 1 then
        (case fseek_set (sint (header_ofs f)) (rfp f) of
           None \<Rightarrow> Inr (Fail RDF_ERR_UNKNOWN)
         | Some fp \<Rightarrow>
             let n = nat (sint (header_len f)); (buffer, fp) = fread n fp
             in if 0 \<le> sint (header_len f) \<and> length buffer = n
                then Inr (Done (buffer, f\<lparr>rfp := fp, header_loc := Some buffer, header_fp := 0\<rparr>)) else Inr (Fail RDF_ERR_READ))
      else if int (length (segs f)) \<le> segment then Inr (Fail RDF_ERR_SEGMENT)
      else if segment < 0 then Inl OutOfBounds
      else
        (let sh = segs f ! nat segment in case fseek_set (sint (sh_offset sh)) (rfp f) of
           None \<Rightarrow> Inr (Fail RDF_ERR_UNKNOWN)
         | Some fp \<Rightarrow>
             let n = nat (sint (sh_length sh)); (buffer, fp) = fread n fp
             in if 0 \<le> sint (sh_length sh) \<and> length buffer = n
                then Inr (Done (buffer, f\<lparr>rfp := fp, segs := (segs f)[nat segment := sh\<lparr>sh_data := Some buffer\<rparr>]\<rparr>)) else Inr (Fail RDF_ERR_READ)))"

section \<open>Reading the header\<close>

text \<open>
  A reader takes the header in memory and the place in it, and gives a value and the next place.
  Reading behind the header is reading out of bounds.
\<close>

type_synonym 'a reader = "bytes \<Rightarrow> nat \<Rightarrow> ('a \<times> nat) result"

definition rd_return :: "'a \<Rightarrow> 'a reader" where
  "rd_return v = (\<lambda>loc p. Inr (v, p))"

definition rd_bind :: "'a reader \<Rightarrow> ('a \<Rightarrow> 'b reader) \<Rightarrow> 'b reader" where
  "rd_bind m k = (\<lambda>loc p. andthen (m loc p) (\<lambda>(v, p). k v loc p))"

definition RI8 :: "u8 reader" where
  "RI8 = (\<lambda>loc p. guard (p < length loc) OutOfBounds (Inr (loc ! p, p + 1)))"

definition RI16 :: "u16 reader" where
  "RI16 = rd_bind RI8 (\<lambda>a. rd_bind RI8 (\<lambda>b. rd_return (ucast a + push_bit 8 (ucast b))))"

definition RI32 :: "i32 reader" where
  "RI32 = rd_bind RI8 (\<lambda>a. rd_bind RI8 (\<lambda>b. rd_bind RI8 (\<lambda>c. rd_bind RI8 (\<lambda>d.
     rd_return (ucast a + push_bit 8 (ucast b) + push_bit 16 (ucast c) + push_bit 24 (ucast d))))))"

text \<open>
  The loop of \<open>RS\<close> for \<open>left\<close> more characters. When no null byte is among the first \<open>max\<close>, the
  statement behind the loop writes to \<open>str[max]\<close>.
\<close>

fun RS :: "nat \<Rightarrow> bytes reader" where
  "RS 0 = (\<lambda>loc p. Inl OutOfBounds)"
| "RS (Suc n) = rd_bind RI8 (\<lambda>c. if c = 0 then rd_return [] else rd_bind (RS n) (\<lambda>cs. rd_return (c # cs)))"

definition read_reloc :: "(reloc_rec \<Rightarrow> rdfheaderrec) \<Rightarrow> u8 \<Rightarrow> (rdf_error + rdfheaderrec) reader" where
  "read_reloc C len =
     (if len \<noteq> 8 then rd_return (Inl RDF_ERR_RECLEN)
      else rd_bind RI8 (\<lambda>seg. rd_bind RI32 (\<lambda>ofs. rd_bind RI8 (\<lambda>n. rd_bind RI16 (\<lambda>ref.
        rd_return (Inr (C \<lparr>r_reclen = len, r_segment = seg, r_offset = ofs, r_length = n, r_refseg = ref\<rparr>)))))))"

definition read_import :: "(import_rec \<Rightarrow> rdfheaderrec) \<Rightarrow> u8 \<Rightarrow> (rdf_error + rdfheaderrec) reader" where
  "read_import C len =
     rd_bind RI8 (\<lambda>flags. rd_bind RI16 (\<lambda>seg. rd_bind (RS EXIM_LABEL_MAX) (\<lambda>l.
       rd_return (Inr (C \<lparr>i_reclen = len, i_flags = flags, i_segment = seg, i_label = l\<rparr>)))))"

definition read_record :: "u8 \<Rightarrow> u8 \<Rightarrow> (rdf_error + rdfheaderrec) reader" where
  "read_record ty len =
     (if ty = 1 then read_reloc Reloc len
      else if ty = 6 then read_reloc SegReloc len
      else if ty = 2 then read_import Import len
      else if ty = 7 then read_import FarImport len
      else if ty = 3 then
        rd_bind RI8 (\<lambda>flags. rd_bind RI8 (\<lambda>seg. rd_bind RI32 (\<lambda>ofs. rd_bind (RS EXIM_LABEL_MAX) (\<lambda>l.
          rd_return (Inr (Global \<lparr>e_reclen = len, e_flags = flags, e_segment = seg, e_offset = ofs, e_label = l\<rparr>))))))
      else if ty = 4 then rd_bind (RS MODLIB_NAME_MAX) (\<lambda>n. rd_return (Inr (DLL \<lparr>d_reclen = len, d_libname = n\<rparr>)))
      else if ty = 5 then
        (if len \<noteq> 4 then rd_return (Inl RDF_ERR_RECLEN)
         else rd_bind RI32 (\<lambda>n. rd_return (Inr (BSS \<lparr>b_reclen = len, b_amount = n\<rparr>))))
      else if ty = 8 then rd_bind (RS MODLIB_NAME_MAX) (\<lambda>n. rd_return (Inr (ModName \<lparr>m_reclen = len, m_modname = n\<rparr>)))
      else if ty = 10 then
        rd_bind RI16 (\<lambda>seg. rd_bind RI32 (\<lambda>n. rd_bind RI16 (\<lambda>al. rd_bind (RS EXIM_LABEL_MAX) (\<lambda>l.
          rd_return (Inr (Common \<lparr>c_reclen = len, c_segment = seg, c_size = n, c_align = al, c_label = l\<rparr>))))))
      else rd_return (Inl RDF_ERR_RECTYPE))"

text \<open>What is returned: a record, the null pointer at the end of the header, or that with an error.\<close>

datatype got = Got rdfheaderrec | End | Bad rdf_error

definition rdfgetheaderrec :: "rdffile \<Rightarrow> (got \<times> rdffile) result" where
  "rdfgetheaderrec f =
     (case header_loc f of
        None \<Rightarrow> Inr (Bad RDF_ERR_HEADER, f)
      | Some loc \<Rightarrow>
          if sint (header_len f) \<le> int (header_fp f) then Inr (End, f)
          else andthen (rd_bind RI8 (\<lambda>ty. rd_bind RI8 (\<lambda>len. read_record ty len)) loc (header_fp f)) (\<lambda>(r, p).
            Inr (case r of Inl e \<Rightarrow> Bad e | Inr r \<Rightarrow> Got r, f\<lparr>header_fp := p\<rparr>)))"

definition rdfheaderrewind :: "rdffile \<Rightarrow> rdffile" where
  "rdfheaderrewind f = f\<lparr>header_fp := 0\<rparr>"

section \<open>Readers\<close>

text \<open>A reader gives the value from the bytes, wherever they stand.\<close>

definition reads :: "'a reader \<Rightarrow> bytes \<Rightarrow> 'a \<Rightarrow> bool" where
  "reads m bs v \<longleftrightarrow> (\<forall>pre post. m (pre @ bs @ post) (length pre) = Inr (v, length pre + length bs))"

lemma reads_return: "reads (rd_return v) [] v"
  by (simp add: reads_def rd_return_def)

lemma reads_bind:
  assumes "reads m bs v" and "reads (k v) cs w"
  shows "reads (rd_bind m k) (bs @ cs) w"
  unfolding reads_def
proof (intro allI)
  fix pre post
  have "m (pre @ bs @ cs @ post) (length pre) = Inr (v, length pre + length bs)" using assms(1) by (simp add: reads_def)
  moreover have "k v ((pre @ bs) @ cs @ post) (length (pre @ bs)) = Inr (w, length (pre @ bs) + length cs)"
    using assms(2) unfolding reads_def by blast
  ultimately show "rd_bind m k (pre @ (bs @ cs) @ post) (length pre) = Inr (w, length pre + length (bs @ cs))"
    by (simp add: rd_bind_def)
qed

lemma reads_bind_return: "reads m bs v \<Longrightarrow> k v = rd_return w \<Longrightarrow> reads (rd_bind m k) bs w"
  using reads_bind [of m bs v k "[]" w] reads_return [of w] by simp

lemma reads_RI8: "reads RI8 [c] c"
  by (simp add: reads_def RI8_def)

lemma plus_push_bit: "ucast (a :: u8) + push_bit 8 w = (ucast a OR push_bit 8 w :: 'a::len word)"
proof -
  have "ucast a AND push_bit 8 w = (0 :: 'a word)"
    by (rule bit_word_eqI) (auto simp: bit_simps dest: bit_imp_le_length)
  then show ?thesis by (rule disjunctive_add_eq_or)
qed

lemma le_word_bytes: "le_word (le_bytes n v) = take_bit (8 * n) v"
proof (induction n arbitrary: v)
  case (Suc n)
  have "le_bytes (Suc n) v = ucast v # le_bytes n (drop_bit 8 v)"
    by (simp add: le_bytes_def upt_conv_Cons map_Suc_upt [symmetric] comp_def add.commute [of 8] del: upt_Suc)
  then have "le_word (le_bytes (Suc n) v) = ucast (ucast v :: u8) OR push_bit 8 (take_bit (8 * n) (drop_bit 8 v))"
    using Suc by simp
  also have "\<dots> = take_bit (8 * Suc n) v"
    by (rule bit_word_eqI) (auto simp: bit_simps dest: bit_imp_le_length)
  finally show ?case .
qed (simp add: le_bytes_def)

lemma le_bytes_2: "le_bytes 2 v = [ucast v, ucast (drop_bit 8 v)]"
  by (simp add: le_bytes_def upt_rec)

lemma le_bytes_4: "le_bytes 4 v = [ucast v, ucast (drop_bit 8 v), ucast (drop_bit 16 v), ucast (drop_bit 24 v)]"
  by (simp add: le_bytes_def upt_rec)

lemma le_word_2 [simp]: "le_word (le_bytes 2 v) = (v :: u16)"
  using le_word_bytes [of 2 v] by (simp add: take_bit_word_eq_self)

lemma le_word_4 [simp]: "le_word (le_bytes 4 v) = (v :: u32)"
  using le_word_bytes [of 4 v] by (simp add: take_bit_word_eq_self)

lemma translateint32_t [simp]: "translateint32_t v = v"
proof -
  have "translateint32_t v = le_word (le_bytes 4 v)"
    by (simp add: translateint32_t_def Let_def le_bytes_4 numeral_3_eq_3 add.commute [of _ "ucast _"] plus_push_bit)
  then show ?thesis by simp
qed

lemma reads_RI16: "reads RI16 (le_bytes 2 v) v"
proof -
  have v: "ucast (ucast v :: u8) + push_bit 8 (ucast (ucast (drop_bit 8 v) :: u8)) = v"
    using le_word_2 [of v] by (simp add: le_bytes_2 plus_push_bit)
  have "reads RI16 ([ucast v] @ [ucast (drop_bit 8 v)]) v"
    unfolding RI16_def by (intro reads_bind [OF reads_RI8] reads_bind_return [OF reads_RI8]) (simp only: v)
  then show ?thesis by (simp add: le_bytes_2)
qed

lemma reads_RI32: "reads RI32 (le_bytes 4 v) v"
proof -
  let ?a = "ucast v :: u8" and ?b = "ucast (drop_bit 8 v) :: u8" and ?c = "ucast (drop_bit 16 v) :: u8" and ?d = "ucast (drop_bit 24 v) :: u8"
  have "ucast ?a + push_bit 8 (ucast ?b) + push_bit 16 (ucast ?c) + push_bit 24 (ucast ?d) =
    ucast ?a + push_bit 8 (ucast ?b + push_bit 8 (ucast ?c + push_bit 8 (ucast ?d :: i32)))"
    by (simp add: push_bit_add)
  also have "\<dots> = v"
    using le_word_4 [of v] unfolding le_bytes_4 le_word.simps by (simp only: plus_push_bit push_bit_of_0 or.right_neutral)
  finally have v: "ucast ?a + push_bit 8 (ucast ?b) + push_bit 16 (ucast ?c) + push_bit 24 (ucast ?d) = v" .
  have "reads RI32 ([?a] @ [?b] @ [?c] @ [?d]) v"
    unfolding RI32_def by (intro reads_bind [OF reads_RI8] reads_bind_return [OF reads_RI8]) (simp only: v)
  then show ?thesis by (simp add: le_bytes_4)
qed

lemma reads_RS: "cstring l \<Longrightarrow> length l < n \<Longrightarrow> reads (RS n) (l @ [0]) l"
proof (induction l arbitrary: n)
  case Nil
  then obtain m where "n = Suc m" by (cases n) auto
  then show ?case by (simp add: reads_bind_return [OF reads_RI8])
next
  case (Cons c l)
  then obtain m where m: "n = Suc m" "length l < m" by (cases n) auto
  have "reads (rd_bind (RS m) (\<lambda>cs. rd_return (c # cs))) (l @ [0]) (c # l)"
    using Cons.IH [OF _ m(2)] Cons.prems(1) by (intro reads_bind_return) (auto simp: cstring_def)
  then show ?case using reads_bind [OF reads_RI8 [of c], of "\<lambda>c. if c = 0 then rd_return [] else rd_bind (RS m) (\<lambda>cs. rd_return (c # cs))"] Cons.prems(1)
    by (auto simp: m(1) cstring_def)
qed

section \<open>Buffers are byte strings\<close>

definition data_bytes :: "membuf_data \<Rightarrow> bytes" where
  "data_bytes d = (case d of Long l \<Rightarrow> le_bytes 4 l | Short w \<Rightarrow> le_bytes 2 w | Chars c \<Rightarrow> c)"

lemma length_data_bytes [simp]: "length (data_bytes d) = data_size d"
  by (cases d) (simp_all add: data_bytes_def data_size_def)

lemma low_byte: "ucast (w AND 0xff) = (ucast w :: u8)" for w :: "'a::len word"
proof -
  have "(0xff :: 'a word) = mask 8" by (simp add: mask_eq_exp_minus_1)
  then have "w AND 0xff = take_bit 8 w" by (simp only: take_bit_eq_mask)
  then show ?thesis by (intro bit_word_eqI) (auto simp: bit_simps dest: bit_imp_le_length)
qed

lemma membuf_store_bytes: "membuf_store buf d = buf @ data_bytes d"
proof -
  have "ucast (signed_drop_bit 8 l) = (ucast (drop_bit 8 l) :: u8)"
    "ucast (drop_bit 8 (signed_drop_bit 8 l)) = (ucast (drop_bit 16 l) :: u8)"
    "ucast (drop_bit 8 (signed_drop_bit 16 l)) = (ucast (drop_bit 24 l) :: u8)"
    "ucast (drop_bit 16 (signed_drop_bit 8 l)) = (ucast (drop_bit 24 l) :: u8)" for l :: i32
    by (intro bit_word_eqI; auto simp: bit_simps min_def dest: bit_imp_le_length)+
  then show ?thesis
    by (cases d) (simp_all add: membuf_store_def data_bytes_def Let_def low_byte le_bytes_2 le_bytes_4)
qed

lemma membufwrite_ok:
  "data_size d \<le> BUF_BLOCK_LEN \<Longrightarrow> \<exists>b'. membufwrite b d = Inr b' \<and> membufdump b' = membufdump b @ data_bytes d"
proof (induction b d rule: membufwrite.induct)
  case (2 buf d)
  show ?case
  proof (cases "BUF_BLOCK_LEN < length buf + data_size d")
    case True
    then show ?thesis using 2 by (auto simp: newmembuf_def)
  qed (use 2 in \<open>simp add: membuf_store_bytes\<close>)
qed auto

lemma membufwrites_ok:
  "\<forall>d \<in> set ds. data_size d \<le> BUF_BLOCK_LEN \<Longrightarrow>
    \<exists>b'. steps membufwrite b ds = Inr b' \<and> membufdump b' = membufdump b @ concat (map data_bytes ds)"
proof (induction ds arbitrary: b)
  case (Cons d ds)
  obtain b' where b': "membufwrite b d = Inr b'" "membufdump b' = membufdump b @ data_bytes d"
    using membufwrite_ok [of d b] Cons.prems by auto
  then show ?case using Cons.IH [of b'] Cons.prems by simp
qed simp

lemma membuflength_dump: "membuflength b = of_nat (length (membufdump b))"
  by (induction b rule: membufdump.induct) (auto split: option.split)

section \<open>A header is read as it was written\<close>

text \<open>The records that the writer accepts and the reader takes back.\<close>

definition writable :: "rdfheaderrec \<Rightarrow> bool" where
  "writable r =
     (case r of
        Reloc r \<Rightarrow> r_reclen r = 8 | SegReloc r \<Rightarrow> r_reclen r = 8 | BSS b \<Rightarrow> b_reclen b = 4
      | Import i \<Rightarrow> cstring (i_label i) \<and> length (i_label i) < EXIM_LABEL_MAX
      | FarImport i \<Rightarrow> cstring (i_label i) \<and> length (i_label i) < EXIM_LABEL_MAX
      | Global e \<Rightarrow> cstring (e_label e) \<and> length (e_label e) < EXIM_LABEL_MAX
      | DLL d \<Rightarrow> cstring (d_libname d) \<and> length (d_libname d) < MODLIB_NAME_MAX
      | ModName m \<Rightarrow> cstring (m_modname m) \<and> length (m_modname m) < MODLIB_NAME_MAX
      | Generic _ \<Rightarrow> False | Common _ \<Rightarrow> False)"

text \<open>The body of a record in the file, for every type that the reader knows.\<close>

definition rec_body :: "rdfheaderrec \<Rightarrow> bytes" where
  "rec_body r =
     (case r of
        Common c \<Rightarrow> le_bytes 2 (c_segment c) @ le_bytes 4 (c_size c) @ le_bytes 2 (c_align c) @ c_label c @ [0]
      | _ \<Rightarrow> (case rec_fields r of Inr (Inr ds) \<Rightarrow> concat (map data_bytes ds) | _ \<Rightarrow> []))"

definition rec_bytes :: "rdfheaderrec \<Rightarrow> bytes" where
  "rec_bytes r = [rec_type r, rec_reclen r] @ rec_body r"

definition readable :: "rdfheaderrec \<Rightarrow> bool" where
  "readable r \<longleftrightarrow> writable r \<or> (case r of Common c \<Rightarrow> cstring (c_label c) \<and> length (c_label c) < EXIM_LABEL_MAX | _ \<Rightarrow> False)"

lemma writable_body: "writable r \<Longrightarrow> rec_fields r = Inr (Inr ds) \<Longrightarrow> rec_body r = concat (map data_bytes ds)"
  by (cases r) (simp_all add: rec_body_def writable_def)

lemma rdfaddheader_ok:
  assumes "writable r"
  shows "\<exists>b. rdfaddheader h r = Inr (None, h\<lparr>hb_buf := b\<rparr>) \<and> membufdump b = membufdump (hb_buf h) @ rec_bytes r"
proof -
  obtain ds where ds: "rec_fields r = Inr (Inr ds)" "\<forall>d \<in> set ds. data_size d \<le> BUF_BLOCK_LEN"
    using assms by (cases r) (simp_all add: writable_def rec_fields_def data_size_def BUF_BLOCK_LEN_def EXIM_LABEL_MAX_def MODLIB_NAME_MAX_def)
  have "\<forall>d \<in> set [Chars [rec_type r], Chars [rec_reclen r]]. data_size d \<le> BUF_BLOCK_LEN" by (simp add: data_size_def BUF_BLOCK_LEN_def)
  from membufwrites_ok [OF this, of "hb_buf h"] obtain b where
    b: "steps membufwrite (hb_buf h) [Chars [rec_type r], Chars [rec_reclen r]] = Inr b"
    "membufdump b = membufdump (hb_buf h) @ [rec_type r, rec_reclen r]"
    by (auto simp: data_bytes_def)
  obtain b' where b': "steps membufwrite b ds = Inr b'" "membufdump b' = membufdump b @ concat (map data_bytes ds)"
    using membufwrites_ok [OF ds(2), of b] by (elim exE conjE) (rule that; assumption)
  then show ?thesis
    by (intro exI [of _ b']) (simp only: rdfaddheader_def b(1) andthen_simps ds(1) sum.case b'(1), simp add: rec_bytes_def writable_body [OF assms ds(1)] b'(2) b(2))
qed

lemma reads_reloc:
  "reads (read_reloc C 8) ([s] @ le_bytes 4 f @ [n] @ le_bytes 2 g)
    (Inr (C \<lparr>r_reclen = 8, r_segment = s, r_offset = f, r_length = n, r_refseg = g\<rparr>))"
  by (simp only: read_reloc_def simp_thms if_False,
    intro reads_bind [OF reads_RI8] reads_bind [OF reads_RI32] reads_bind_return [OF reads_RI16] refl)

lemma reads_import:
  "cstring l \<Longrightarrow> length l < EXIM_LABEL_MAX \<Longrightarrow>
    reads (read_import C n) ([f] @ le_bytes 2 s @ l @ [0]) (Inr (C \<lparr>i_reclen = n, i_flags = f, i_segment = s, i_label = l\<rparr>))"
  unfolding read_import_def
  by (intro reads_bind [OF reads_RI8] reads_bind [OF reads_RI16] reads_bind_return [OF reads_RS] refl)

lemma reads_global:
  assumes "cstring l" and "length l < EXIM_LABEL_MAX"
  shows "reads (read_record 3 n) ([f] @ [s] @ le_bytes 4 v @ l @ [0])
    (Inr (Global \<lparr>e_reclen = n, e_flags = f, e_segment = s, e_offset = v, e_label = l\<rparr>))"
proof -
  have "read_record 3 n = rd_bind RI8 (\<lambda>flags. rd_bind RI8 (\<lambda>seg. rd_bind RI32 (\<lambda>ofs. rd_bind (RS EXIM_LABEL_MAX) (\<lambda>l.
      rd_return (Inr (Global \<lparr>e_reclen = n, e_flags = flags, e_segment = seg, e_offset = ofs, e_label = l\<rparr>))))))"
    by (simp add: read_record_def)
  then show ?thesis using assms
    by (simp only:, intro reads_bind [OF reads_RI8] reads_bind [OF reads_RI32] reads_bind_return [OF reads_RS] refl)
qed

lemma reads_common:
  assumes "cstring l" and "length l < EXIM_LABEL_MAX"
  shows "reads (read_record 10 n) (le_bytes 2 s @ le_bytes 4 z @ le_bytes 2 g @ l @ [0])
    (Inr (Common \<lparr>c_reclen = n, c_segment = s, c_size = z, c_align = g, c_label = l\<rparr>))"
proof -
  have "read_record 10 n = rd_bind RI16 (\<lambda>seg. rd_bind RI32 (\<lambda>z. rd_bind RI16 (\<lambda>al. rd_bind (RS EXIM_LABEL_MAX) (\<lambda>l.
      rd_return (Inr (Common \<lparr>c_reclen = n, c_segment = seg, c_size = z, c_align = al, c_label = l\<rparr>))))))"
    by (simp add: read_record_def)
  then show ?thesis using assms
    by (simp only:, intro reads_bind [OF reads_RI16] reads_bind [OF reads_RI32] reads_bind_return [OF reads_RS] refl)
qed

lemma reads_record:
  assumes "readable r"
  shows "reads (read_record (rec_type r) (rec_reclen r)) (rec_body r) (Inr r)"
proof (cases r)
  case (Reloc x)
  then show ?thesis using assms reads_reloc [of Reloc]
    by (cases x) (auto simp: readable_def writable_def rec_body_def rec_fields_def rec_type_def rec_reclen_def read_record_def data_bytes_def)
next
  case (SegReloc x)
  then show ?thesis using assms reads_reloc [of SegReloc]
    by (cases x) (auto simp: readable_def writable_def rec_body_def rec_fields_def rec_type_def rec_reclen_def read_record_def data_bytes_def)
next
  case (Import x)
  then show ?thesis using assms reads_import [of _ Import]
    by (cases x) (auto simp: readable_def writable_def rec_body_def rec_fields_def rec_type_def rec_reclen_def read_record_def data_bytes_def)
next
  case (FarImport x)
  then show ?thesis using assms reads_import [of _ FarImport]
    by (cases x) (auto simp: readable_def writable_def rec_body_def rec_fields_def rec_type_def rec_reclen_def read_record_def data_bytes_def)
next
  case (Global x)
  then show ?thesis using assms reads_global
    by (cases x) (auto simp: readable_def writable_def rec_body_def rec_fields_def rec_type_def rec_reclen_def data_bytes_def)
next
  case (Common x)
  then show ?thesis using assms reads_common
    by (cases x) (auto simp: readable_def writable_def rec_body_def rec_type_def rec_reclen_def)
next
  case (DLL x)
  then show ?thesis using assms
    by (cases x) (auto simp: readable_def writable_def rec_body_def rec_fields_def rec_type_def rec_reclen_def read_record_def data_bytes_def
      intro!: reads_bind_return [OF reads_RS])
next
  case (ModName x)
  then show ?thesis using assms
    by (cases x) (auto simp: readable_def writable_def rec_body_def rec_fields_def rec_type_def rec_reclen_def read_record_def data_bytes_def
      intro!: reads_bind_return [OF reads_RS])
next
  case (BSS x)
  then show ?thesis using assms
    by (cases x) (auto simp: readable_def writable_def rec_body_def rec_fields_def rec_type_def rec_reclen_def read_record_def data_bytes_def
      intro!: reads_bind_return [OF reads_RI32])
qed (use assms in \<open>simp_all add: readable_def writable_def\<close>)

text \<open>One step of the reader over the bytes of a record.\<close>

lemma rdfgetheaderrec_ok:
  assumes "readable r" and "header_loc f = Some (pre @ rec_bytes r @ post)" and "header_fp f = length pre"
    and "int (length pre) < sint (header_len f)"
  shows "rdfgetheaderrec f = Inr (Got r, f\<lparr>header_fp := length pre + length (rec_bytes r)\<rparr>)"
proof -
  have "reads (rd_bind RI8 (\<lambda>ty. rd_bind RI8 (\<lambda>len. read_record ty len)))
    ([rec_type r] @ [rec_reclen r] @ rec_body r) (Inr r)"
    by (intro reads_bind [OF reads_RI8] reads_record assms(1))
  then have "rd_bind RI8 (\<lambda>ty. rd_bind RI8 (\<lambda>len. read_record ty len)) (pre @ rec_bytes r @ post) (length pre) =
    Inr (Inr r, length pre + length (rec_bytes r))"
    by (simp add: reads_def rec_bytes_def)
  then show ?thesis using assms(2-4) by (simp add: rdfgetheaderrec_def)
qed

section \<open>Reading a whole header\<close>

text \<open>A reader only moves on, and not out of the header.\<close>

definition forward :: "'a reader \<Rightarrow> bool" where
  "forward m \<longleftrightarrow> (\<forall>loc p v q. m loc p = Inr (v, q) \<longrightarrow> p \<le> q)"

lemma forward_return [intro]: "forward (rd_return v)"
  by (simp add: forward_def rd_return_def)

lemma forward_bind [intro]: "forward m \<Longrightarrow> (\<And>v. forward (k v)) \<Longrightarrow> forward (rd_bind m k)"
  by (fastforce simp: forward_def rd_bind_def andthen_eq_Inr)

lemma forward_RI8 [intro]: "forward RI8"
  by (simp add: forward_def RI8_def guard_eq_Inr)

lemma forward_RI16 [intro]: "forward RI16" and forward_RI32 [intro]: "forward RI32"
  unfolding RI16_def RI32_def by (intro forward_bind forward_return forward_RI8)+

lemma forward_RS [intro]: "forward (RS n)"
  by (induction n) (auto simp: forward_def [of "RS 0" for loc, unfolded RS.simps] intro!: forward_bind split: if_splits)

lemma forward_record [intro]: "forward (read_record ty len)"
  by (auto simp: read_record_def read_reloc_def read_import_def intro!: forward_bind split: if_splits)

lemma rdfgetheaderrec_moves:
  assumes "rdfgetheaderrec f = Inr (Got r, f')"
  obtains loc where "header_loc f = Some loc" "header_fp f < length loc" "header_fp f < header_fp f'" "f' = f\<lparr>header_fp := header_fp f'\<rparr>"
proof -
  let ?p = "header_fp f"
  obtain loc where loc: "header_loc f = Some loc" using assms by (cases "header_loc f") (simp_all add: rdfgetheaderrec_def)
  obtain v q where q: "rd_bind RI8 (\<lambda>ty. rd_bind RI8 (\<lambda>len. read_record ty len)) loc ?p = Inr (v, q)" "f' = f\<lparr>header_fp := q\<rparr>"
    using assms loc by (auto simp: rdfgetheaderrec_def andthen_eq_Inr split: if_splits)
  have l: "?p < length loc" using q(1) by (auto simp: rd_bind_def RI8_def andthen_eq_Inr guard_eq_Inr)
  then have "rd_bind RI8 (\<lambda>len. read_record (loc ! ?p) len) loc (?p + 1) = Inr (v, q)"
    using q(1) by (simp add: rd_bind_def [of RI8 "\<lambda>ty. rd_bind RI8 (\<lambda>len. read_record ty len)"] RI8_def [THEN fun_cong, THEN fun_cong])
  moreover have "forward (rd_bind RI8 (\<lambda>len. read_record (loc ! ?p) len))" by auto
  ultimately have "?p + 1 \<le> q" unfolding forward_def by blast
  then show thesis using that [OF loc l] q(2) by simp
qed

text \<open>The loop of the clients: read records until the null pointer comes.\<close>

function read_all :: "rdffile \<Rightarrow> (rdfheaderrec list \<times> got \<times> rdffile) result" where
  "read_all f =
     andthen (rdfgetheaderrec f) (\<lambda>(g, f'). case g of
       Got r \<Rightarrow> andthen (read_all f') (\<lambda>(rs, e, f''). Inr (r # rs, e, f''))
     | _ \<Rightarrow> Inr ([], g, f'))"
  by pat_completeness auto
termination
proof (relation "measure (\<lambda>f. case header_loc f of None \<Rightarrow> 0 | Some loc \<Rightarrow> length loc - header_fp f)")
  fix f v g f' r
  assume "rdfgetheaderrec f = Inr v" "(g, f') = v" "g = Got r"
  then have "rdfgetheaderrec f = Inr (Got r, f')" by simp
  from rdfgetheaderrec_moves [OF this] obtain loc where
    l: "header_loc f = Some loc" "header_fp f < length loc" "header_fp f < header_fp f'" "f' = f\<lparr>header_fp := header_fp f'\<rparr>" .
  then have "header_loc f' = Some loc" by (metis rdffile.select_convs(4) rdffile.surjective rdffile.update_convs(5))
  then show "(f', f) \<in> measure (\<lambda>f. case header_loc f of None \<Rightarrow> 0 | Some loc \<Rightarrow> length loc - header_fp f)"
    using l(1-3) by simp
qed simp

declare read_all.simps [simp del]

lemma read_all_ok:
  "\<forall>r \<in> set rs. readable r \<Longrightarrow> header_loc f = Some (pre @ concat (map rec_bytes rs)) \<Longrightarrow> header_fp f = length pre \<Longrightarrow>
    sint (header_len f) = int (length pre + length (concat (map rec_bytes rs))) \<Longrightarrow>
    \<exists>f'. read_all f = Inr (rs, End, f')"
proof (induction rs arbitrary: pre f)
  case Nil
  then show ?case by (subst read_all.simps) (simp add: rdfgetheaderrec_def)
next
  case (Cons r rs)
  define f' where "f' = f\<lparr>header_fp := length pre + length (rec_bytes r)\<rparr>"
  have "0 < int (length (rec_bytes r)) + int (length (concat (map rec_bytes rs)))" by (simp add: rec_bytes_def)
  then have g: "rdfgetheaderrec f = Inr (Got r, f')"
    using Cons.prems rdfgetheaderrec_ok [of r f pre "concat (map rec_bytes rs)"] by (simp add: f'_def)
  have "\<exists>f''. read_all f' = Inr (rs, End, f'')"
    using Cons.prems by (intro Cons.IH [of f' "pre @ rec_bytes r"]) (simp_all add: f'_def)
  then show ?case by (subst read_all.simps) (auto simp: g)
qed

section \<open>A module is read as it was laid out\<close>

text \<open>
  The layout that the format prescribes: the signature, the length of what follows, the length of the
  header, the header, the segments with their headers of ten bytes, and ten null bytes. A segment is
  its type, its number, a reserved word and its data.
\<close>

type_synonym segment = "u16 \<times> u16 \<times> u16 \<times> bytes"

definition seg_image :: "segment \<Rightarrow> bytes" where
  "seg_image = (\<lambda>(t, n, r, d). le_bytes 2 t @ le_bytes 2 n @ le_bytes 2 r @ le_bytes 4 (of_nat (length d) :: i32) @ d)"

definition segs_image :: "segment list \<Rightarrow> bytes" where
  "segs_image ss = concat (map seg_image ss) @ replicate 10 0"

text \<open>The table of the segments that start at a place in the file.\<close>

fun seg_table :: "nat \<Rightarrow> segment list \<Rightarrow> segment_header list" where
  "seg_table base [] = []"
| "seg_table base ((t, n, r, d) # ss) =
     \<lparr>sh_type = t, sh_number = n, sh_reserved = r, sh_length = of_nat (length d), sh_offset = of_nat (base + 10), sh_data = None\<rparr> #
     seg_table (base + 10 + length d) ss"

abbreviation next_type :: "segment list \<Rightarrow> u16" where
  "next_type ss \<equiv> (case ss of [] \<Rightarrow> 0 | (t, _) # _ \<Rightarrow> t)"

lemma fread_at:
  "file_bytes f = pre @ x @ post \<Longrightarrow> file_pos f = length pre \<Longrightarrow> n = length x \<Longrightarrow>
    fread n f = (x, f\<lparr>file_pos := length pre + length x\<rparr>)"
  by (simp add: fread_def)

lemma length_seg_image: "length (seg_image (t, n, r, d)) = 10 + length d"
  by (simp add: seg_image_def)

lemma sint_of_nat_i32: "n < 2 ^ 31 \<Longrightarrow> sint (of_nat n :: i32) = int n"
  using int_word_sint [of "int n", where 'a = 32] by simp

lemma segs_image_type: "\<exists>x. segs_image ss = le_bytes 2 (next_type ss) @ x"
proof (cases ss)
  case Nil
  have "replicate 10 (0 :: u8) = [0, 0] @ replicate 8 0" by (simp add: eval_nat_numeral)
  moreover have "le_bytes 2 (0 :: u16) = [0, 0]" by (simp add: le_bytes_2)
  ultimately have "replicate 10 0 = le_bytes 2 (0 :: u16) @ replicate 8 0" by simp
  then show ?thesis by (simp add: segs_image_def Nil)
qed (auto simp: segs_image_def seg_image_def split: prod.split)

declare seg_loop.simps [simp del]

lemma seg_loop_ok:
  assumes "file_bytes fp = pre @ segs_image ss @ post" and "file_pos fp = length pre + 2"
    and "\<forall>s \<in> set ss. fst s \<noteq> 0" and "length acc + length ss \<le> RDF_MAXSEGS" and "length (file_bytes fp) < 2 ^ 31"
  shows "seg_loop (next_type ss) fp acc =
    Inr (Done (fp\<lparr>file_pos := length pre + length (concat (map seg_image ss)) + 2\<rparr>, acc @ seg_table (length pre) ss))"
  using assms
proof (induction ss arbitrary: pre fp acc)
  case Nil
  then show ?case by (subst seg_loop.simps) simp
next
  case (Cons s ss)
  obtain t n r d where s: "s = (t, n, r, d)" by (cases s)
  let ?len = "of_nat (length d) :: i32"
  define fp1 where "fp1 = fp\<lparr>file_pos := length pre + 4\<rparr>"
  define fp2 where "fp2 = fp\<lparr>file_pos := length pre + 6\<rparr>"
  define fp3 where "fp3 = fp\<lparr>file_pos := length pre + 10\<rparr>"
  define fp4 where "fp4 = fp\<lparr>file_pos := length pre + 10 + length d\<rparr>"
  define fp5 where "fp5 = fp\<lparr>file_pos := length pre + 12 + length d\<rparr>"
  define h where "h = \<lparr>sh_type = t, sh_number = n, sh_reserved = r, sh_length = ?len, sh_offset = of_nat (length pre + 10), sh_data = None\<rparr>"
  have b: "file_bytes fp = pre @ le_bytes 2 t @ le_bytes 2 n @ le_bytes 2 r @ le_bytes 4 ?len @ d @ segs_image ss @ post"
    using Cons.prems(1) by (simp add: s segs_image_def seg_image_def)
  have small: "length pre + 10 + length d < 2 ^ 31" using Cons.prems(5) by (simp add: b)
  obtain x where x: "segs_image ss = le_bytes 2 (next_type ss) @ x" using segs_image_type by blast
  have r1: "fread 2 fp = (le_bytes 2 n, fp1)"
    using fread_at [of fp "pre @ le_bytes 2 t" "le_bytes 2 n" _ 2] Cons.prems(2) by (simp add: b fp1_def)
  have r2: "fread 2 fp1 = (le_bytes 2 r, fp2)"
    using fread_at [of fp1 "pre @ le_bytes 2 t @ le_bytes 2 n" "le_bytes 2 r" _ 2] by (simp add: b fp1_def fp2_def)
  have r3: "fread 4 fp2 = (le_bytes 4 ?len, fp3)"
    using fread_at [of fp2 "pre @ le_bytes 2 t @ le_bytes 2 n @ le_bytes 2 r" "le_bytes 4 ?len" _ 4] by (simp add: b fp2_def fp3_def)
  have r4: "fseek_cur (sint ?len) fp3 = Some fp4"
    using small by (simp add: fseek_cur_def sint_of_nat_i32 fp3_def fp4_def nat_add_distrib)
  have r5: "fread 2 fp4 = (le_bytes 2 (next_type ss), fp5)"
    using fread_at [of fp4 "pre @ le_bytes 2 t @ le_bytes 2 n @ le_bytes 2 r @ le_bytes 4 ?len @ d" "le_bytes 2 (next_type ss)" _ 2]
    by (simp add: b x fp4_def fp5_def)
  have "seg_loop (next_type ss) fp5 (acc @ [h]) =
    Inr (Done (fp5\<lparr>file_pos := length (pre @ seg_image s) + length (concat (map seg_image ss)) + 2\<rparr>,
      (acc @ [h]) @ seg_table (length (pre @ seg_image s)) ss))"
    using Cons.prems by (intro Cons.IH) (simp_all add: fp5_def s length_seg_image segs_image_def)
  moreover have "seg_loop t fp acc = seg_loop (next_type ss) fp5 (acc @ [h])"
    using Cons.prems(3,4)
    by (subst seg_loop.simps) (simp add: r1 r2 r3 r4 r5 s ftell_def fp3_def [THEN arg_cong [of _ _ file_pos]] h_def flip: of_nat_add)
  ultimately show ?case by (simp add: s length_seg_image fp5_def h_def algebra_simps)
qed

definition module_image :: "i32 \<Rightarrow> bytes \<Rightarrow> segment list \<Rightarrow> bytes" where
  "module_image objlen hdr ss = RDOFFId @ le_bytes 4 objlen @ le_bytes 4 (of_nat (length hdr) :: i32) @ hdr @ segs_image ss"

lemma RDOFFId: "length RDOFFId = 6" "strcmp RDOFFId RDOFFId = 0"
proof -
  show "length RDOFFId = 6" by (simp add: RDOFFId_def bytes_of_def)
  have "cstring RDOFFId" by (simp add: RDOFFId_def bytes_of_def cstring_def)
  then show "strcmp RDOFFId RDOFFId = 0" by (simp add: exact.cmp_eq)
qed

text \<open>The module as \<open>rdfopenhere\<close> describes it.\<close>

definition opened :: "cfile \<Rightarrow> i32 option \<Rightarrow> bytes \<Rightarrow> nat \<Rightarrow> i32 \<Rightarrow> bytes \<Rightarrow> segment list \<Rightarrow> rdffile" where
  "opened fp refcount name base objlen hdr ss =
     \<lparr>rfp = fp, header_len = of_nat (length hdr), header_ofs = of_nat (base + 14), header_loc = None, header_fp = 0,
      segs = seg_table (base + 14 + length hdr) ss, eof_offset = of_nat (base + 14) + objlen - 4, rname = name,
      refs = map_option (\<lambda>n. n + 1) refcount\<rparr>"

lemma rdfopenhere_ok:
  assumes "file_bytes fp = pre @ module_image objlen hdr ss @ post" and "file_pos fp = length pre"
    and "\<forall>s \<in> set ss. fst s \<noteq> 0" and "length ss \<le> RDF_MAXSEGS" and "length (file_bytes fp) < 2 ^ 31"
  shows "rdfopenhere fp refcount name = Inr (Done (opened fp refcount name (length pre) objlen hdr ss,
    sint (of_nat (length pre + 14) + objlen - 4) \<noteq> int (length pre + length (module_image objlen hdr ss))))"
proof -
  let ?len = "of_nat (length hdr) :: i32"
  define fp1 where "fp1 = fp\<lparr>file_pos := length pre + 6\<rparr>"
  define fp2 where "fp2 = fp\<lparr>file_pos := length pre + 10\<rparr>"
  define fp3 where "fp3 = fp\<lparr>file_pos := length pre + 14\<rparr>"
  define fp4 where "fp4 = fp\<lparr>file_pos := length pre + 14 + length hdr\<rparr>"
  define fp5 where "fp5 = fp\<lparr>file_pos := length pre + 16 + length hdr\<rparr>"
  define fp6 where "fp6 = fp\<lparr>file_pos := length pre + 16 + length hdr + length (concat (map seg_image ss))\<rparr>"
  have b: "file_bytes fp = pre @ RDOFFId @ le_bytes 4 objlen @ le_bytes 4 ?len @ hdr @ segs_image ss @ post"
    using assms(1) by (simp add: module_image_def)
  have small: "length hdr < 2 ^ 31" using assms(5) by (simp add: b)
  obtain x where x: "segs_image ss = le_bytes 2 (next_type ss) @ x" using segs_image_type by blast
  have r1: "fread 6 fp = (RDOFFId, fp1)"
    using fread_at [of fp pre RDOFFId _ 6] assms(2) by (simp add: b fp1_def RDOFFId)
  have r2: "fread 4 fp1 = (le_bytes 4 objlen, fp2)"
    using fread_at [of fp1 "pre @ RDOFFId" "le_bytes 4 objlen" _ 4] by (simp add: b fp1_def fp2_def RDOFFId)
  have r3: "fread 4 fp2 = (le_bytes 4 ?len, fp3)"
    using fread_at [of fp2 "pre @ RDOFFId @ le_bytes 4 objlen" "le_bytes 4 ?len" _ 4] by (simp add: b fp2_def fp3_def RDOFFId)
  have r4: "fseek_cur (sint ?len) fp3 = Some fp4"
    using small by (simp add: fseek_cur_def sint_of_nat_i32 fp3_def fp4_def nat_add_distrib)
  have r5: "fread 2 fp4 = (le_bytes 2 (next_type ss), fp5)"
    using fread_at [of fp4 "pre @ RDOFFId @ le_bytes 4 objlen @ le_bytes 4 ?len @ hdr" "le_bytes 2 (next_type ss)" _ 2]
    by (simp add: b x fp4_def fp5_def RDOFFId)
  have loop: "seg_loop (next_type ss) fp5 [] = Inr (Done (fp6, seg_table (length pre + 14 + length hdr) ss))"
    using seg_loop_ok [of fp5 "pre @ RDOFFId @ le_bytes 4 objlen @ le_bytes 4 ?len @ hdr" ss post "[]"] assms(3-5)
    by (simp add: fp5_def fp6_def b RDOFFId algebra_simps)
  have t: "ftell fp3 = int (length pre + 14)" "ftell fp6 + 8 = int (length pre + length (module_image objlen hdr ss))" "ftell fp = int (length pre)"
    by (simp_all add: ftell_def fp3_def fp6_def assms(2) module_image_def RDOFFId segs_image_def)
  have "fp6\<lparr>file_pos := length pre\<rparr> = fp" using assms(2) by (simp add: fp6_def)
  then show ?thesis
    by (simp add: rdfopenhere_def Let_def r1 r2 r3 r4 r5 RDOFFId loop t(1,3) opened_def del: of_nat_add)
       (simp add: t(2) [symmetric] of_nat_add [symmetric] del: of_nat_add)
qed

lemma length_seg_table [simp]: "length (seg_table base ss) = length ss"
  by (induction base ss rule: seg_table.induct) simp_all

text \<open>Where the data of a segment are.\<close>

lemma seg_table_nth:
  "i < length ss \<Longrightarrow> \<exists>a z. concat (map seg_image ss) = a @ snd (snd (snd (ss ! i))) @ z \<and>
    seg_table base ss ! i = \<lparr>sh_type = fst (ss ! i), sh_number = fst (snd (ss ! i)), sh_reserved = fst (snd (snd (ss ! i))),
      sh_length = of_nat (length (snd (snd (snd (ss ! i))))), sh_offset = of_nat (base + length a), sh_data = None\<rparr>"
proof (induction base ss arbitrary: i rule: seg_table.induct)
  case (2 base t n r d ss)
  let ?h = "le_bytes 2 t @ le_bytes 2 n @ le_bytes 2 r @ le_bytes 4 (of_nat (length d) :: i32)"
  show ?case
  proof (cases i)
    case 0
    then show ?thesis by (intro exI [of _ ?h] exI [of _ "concat (map seg_image ss)"]) (simp add: seg_image_def)
  next
    case (Suc j)
    then have "j < length ss" using 2(2) by simp
    from 2(1) [OF this] obtain a z where az: "concat (map seg_image ss) = a @ snd (snd (snd (ss ! j))) @ z"
      "seg_table (base + 10 + length d) ss ! j = \<lparr>sh_type = fst (ss ! j), sh_number = fst (snd (ss ! j)), sh_reserved = fst (snd (snd (ss ! j))),
        sh_length = of_nat (length (snd (snd (snd (ss ! j))))), sh_offset = of_nat (base + 10 + length d + length a), sh_data = None\<rparr>"
      by (elim exE conjE) (rule that; assumption)
    show ?thesis using az
      by (intro exI [of _ "?h @ d @ a"] exI [of _ z]) (simp add: Suc seg_image_def algebra_simps)
  qed
qed simp

lemma rdfloadseg_segment:
  assumes "file_bytes (rfp f) = pre @ d @ post" and "i < length (segs f)" and "sh_offset (segs f ! i) = of_nat (length pre)"
    and "sh_length (segs f ! i) = of_nat (length d)" and "length (file_bytes (rfp f)) < 2 ^ 31"
  shows "\<exists>f'. rdfloadseg f (int i) = Inr (Done (d, f'))"
proof -
  define fp where "fp = (rfp f)\<lparr>file_pos := length pre\<rparr>"
  have small: "length pre < 2 ^ 31" "length d < 2 ^ 31" using assms(1,5) by simp_all
  then have "fseek_set (sint (sh_offset (segs f ! i))) (rfp f) = Some fp"
    by (simp add: assms(3) fseek_set_def sint_of_nat_i32 fp_def)
  moreover have "fread (length d) fp = (d, fp\<lparr>file_pos := length pre + length d\<rparr>)"
    using fread_at [of fp pre d post] assms(1) by (simp add: fp_def)
  ultimately show ?thesis using assms(2) small by (simp add: rdfloadseg_def Let_def assms(4) sint_of_nat_i32)
qed

lemma rdfloadseg_header:
  assumes "file_bytes (rfp f) = pre @ h @ post" and "header_ofs f = of_nat (length pre)"
    and "header_len f = of_nat (length h)" and "length (file_bytes (rfp f)) < 2 ^ 31"
  shows "\<exists>fp. rdfloadseg f (- 1) = Inr (Done (h, f\<lparr>rfp := fp, header_loc := Some h, header_fp := 0\<rparr>))"
proof -
  define fp where "fp = (rfp f)\<lparr>file_pos := length pre\<rparr>"
  have small: "length pre < 2 ^ 31" "length h < 2 ^ 31" using assms(1,4) by simp_all
  then have "fseek_set (sint (header_ofs f)) (rfp f) = Some fp"
    by (simp add: assms(2) fseek_set_def sint_of_nat_i32 fp_def)
  moreover have "fread (length h) fp = (h, fp\<lparr>file_pos := length pre + length h\<rparr>)"
    using fread_at [of fp pre h post] assms(1) by (simp add: fp_def)
  ultimately show ?thesis using small
    by (intro exI [of _ "fp\<lparr>file_pos := length pre + length h\<rparr>"]) (simp add: rdfloadseg_def Let_def assms(3) sint_of_nat_i32)
qed

section \<open>Properties\<close>

text \<open>The callers add records one after the other, and do not look at what is returned.\<close>

definition add_records :: "rdf_headerbuf \<Rightarrow> rdfheaderrec list \<Rightarrow> rdf_headerbuf result" where
  "add_records = steps (\<lambda>h r. andthen (rdfaddheader h r) (\<lambda>(e, h). Inr h))"

lemma add_records_ok:
  "\<forall>r \<in> set rs. writable r \<Longrightarrow> \<exists>b. add_records h rs = Inr (h\<lparr>hb_buf := b\<rparr>) \<and> membufdump b = membufdump (hb_buf h) @ concat (map rec_bytes rs)"
proof (induction rs arbitrary: h)
  case Nil
  then show ?case by (intro exI [of _ "hb_buf h"]) (simp add: add_records_def)
next
  case (Cons r rs)
  obtain b where b: "rdfaddheader h r = Inr (None, h\<lparr>hb_buf := b\<rparr>)" "membufdump b = membufdump (hb_buf h) @ rec_bytes r"
    using rdfaddheader_ok [of r h] Cons.prems by auto
  obtain b' where "add_records (h\<lparr>hb_buf := b\<rparr>) rs = Inr (h\<lparr>hb_buf := b\<rparr>\<lparr>hb_buf := b'\<rparr>)"
    "membufdump b' = membufdump b @ concat (map rec_bytes rs)"
    using Cons.IH [of "h\<lparr>hb_buf := b\<rparr>"] Cons.prems by auto
  then show ?case by (intro exI [of _ b']) (simp add: add_records_def b)
qed

definition header_of :: "rdfheaderrec list \<Rightarrow> bytes" where
  "header_of rs = (case add_records rdfnewheader rs of Inr h \<Rightarrow> membufdump (hb_buf h) | Inl e \<Rightarrow> [])"

text \<open>What a client reads from a module.\<close>

definition module_reads :: "cfile \<Rightarrow> rdfheaderrec list \<Rightarrow> segment list \<Rightarrow> bool" where
  "module_reads fp rs ss \<longleftrightarrow> (\<exists>f w h f1 f2. rdfopenhere fp None [] = Inr (Done (f, w)) \<and>
    rdfloadseg f (- 1) = Inr (Done (h, f1)) \<and> read_all f1 = Inr (rs, End, f2) \<and> length (segs f) = length ss \<and>
    (\<forall>i < length ss. case ss ! i of (t, n, r, d) \<Rightarrow> sh_type (segs f ! i) = t \<and> sh_number (segs f ! i) = n \<and>
      sh_reserved (segs f ! i) = r \<and> sh_length (segs f ! i) = of_nat (length d) \<and> (\<exists>f3. rdfloadseg f (int i) = Inr (Done (d, f3)))))"

lemma module_readsI:
  assumes "\<forall>r \<in> set rs. readable r" and "\<forall>s \<in> set ss. fst s \<noteq> 0" and "length ss \<le> RDF_MAXSEGS"
    and bytes: "bytes = pre @ module_image objlen (concat (map rec_bytes rs)) ss @ post" and "length bytes < 2 ^ 31"
  shows "module_reads \<lparr>file_bytes = bytes, file_pos = length pre\<rparr> rs ss"
proof -
  define hdr where "hdr = concat (map rec_bytes rs)"
  note bytes = bytes [folded hdr_def]
  define fp where "fp = \<lparr>file_bytes = bytes, file_pos = length pre\<rparr>"
  define f where "f = opened fp None [] (length pre) objlen hdr ss"
  have f: "file_bytes (rfp f) = bytes" "header_ofs f = of_nat (length pre + 14)" "header_len f = of_nat (length hdr)"
    "segs f = seg_table (length pre + 14 + length hdr) ss"
    by (simp_all add: f_def opened_def fp_def)
  obtain w where open_: "rdfopenhere fp None [] = Inr (Done (f, w))"
    using rdfopenhere_ok [of fp pre objlen hdr ss post] assms(2,3,5) bytes by (auto simp: fp_def f_def)
  obtain fp1 where h: "rdfloadseg f (- 1) = Inr (Done (hdr, f\<lparr>rfp := fp1, header_loc := Some hdr, header_fp := 0\<rparr>))"
    using rdfloadseg_header [of f "pre @ RDOFFId @ le_bytes 4 objlen @ le_bytes 4 (of_nat (length hdr) :: i32)" hdr "segs_image ss @ post"] f assms(5) bytes
    by (auto simp: module_image_def RDOFFId)
  have "length hdr < 2 ^ 31" using assms(5) bytes by (simp add: module_image_def)
  then obtain f2 where "read_all (f\<lparr>rfp := fp1, header_loc := Some hdr, header_fp := 0\<rparr>) = Inr (rs, End, f2)"
    using read_all_ok [OF assms(1), of "f\<lparr>rfp := fp1, header_loc := Some hdr, header_fp := 0\<rparr>" "[]"] f(3)
    by (auto simp: hdr_def sint_of_nat_i32)
  moreover have "case ss ! i of (t, n, r, d) \<Rightarrow> sh_type (segs f ! i) = t \<and> sh_number (segs f ! i) = n \<and> sh_reserved (segs f ! i) = r \<and>
      sh_length (segs f ! i) = of_nat (length d) \<and> (\<exists>f3. rdfloadseg f (int i) = Inr (Done (d, f3)))" if i: "i < length ss" for i
  proof -
    obtain t n r d where s: "ss ! i = (t, n, r, d)" by (cases "ss ! i")
    obtain a z where az: "concat (map seg_image ss) = a @ d @ z"
      "segs f ! i = \<lparr>sh_type = t, sh_number = n, sh_reserved = r, sh_length = of_nat (length d),
        sh_offset = of_nat (length pre + 14 + length hdr + length a), sh_data = None\<rparr>"
      using seg_table_nth [OF i, of "length pre + 14 + length hdr"] by (auto simp: s f(4))
    have "\<exists>f3. rdfloadseg f (int i) = Inr (Done (d, f3))"
      using f(1,4) az i assms(5) bytes
      by (intro rdfloadseg_segment [of f "pre @ RDOFFId @ le_bytes 4 objlen @ le_bytes 4 (of_nat (length hdr) :: i32) @ hdr @ a" d
            "z @ replicate 10 0 @ post"]) (simp_all add: module_image_def segs_image_def RDOFFId algebra_simps)
    then show ?thesis using az(2) s by simp
  qed
  ultimately show ?thesis unfolding module_reads_def
    using open_ h f(4) by (intro exI [of _ f] exI [of _ w] exI [of _ hdr]
        exI [of _ "f\<lparr>rfp := fp1, header_loc := Some hdr, header_fp := 0\<rparr>"] exI [of _ f2]) (simp add: fp_def)
qed

lemma header_of_writable: "\<forall>r \<in> set rs. writable r \<Longrightarrow> header_of rs = concat (map rec_bytes rs)"
  using add_records_ok [of rs rdfnewheader] by (auto simp: header_of_def rdfnewheader_def newmembuf_def)

text \<open>
  C7. A module round trip: records of every type that the writer knows, but for generic ones, are
  collected in memory buffers and laid out in a module with its segments, at any place of a file; the
  reader opens it, gives the records back in the order they were added and then the end of the header,
  and loads the data of every segment, whose number, type and length it has read.
\<close>

theorem module_roundtrip:
  assumes "\<forall>r \<in> set rs. writable r" and "\<forall>s \<in> set ss. fst s \<noteq> 0" and "length ss \<le> RDF_MAXSEGS"
    and "length (pre @ module_image objlen (header_of rs) ss @ post) < 2 ^ 31"
  shows "(\<exists>h. add_records rdfnewheader rs = Inr h) \<and>
    module_reads \<lparr>file_bytes = pre @ module_image objlen (header_of rs) ss @ post, file_pos = length pre\<rparr> rs ss"
  using add_records_ok [OF assms(1), of rdfnewheader]
    module_readsI [OF _ assms(2,3) _ assms(4), of rs pre objlen post] assms(1)
  by (auto simp: header_of_writable readable_def)

definition demo_records :: "rdfheaderrec list" where
  "demo_records =
     [ModName \<lparr>m_reclen = 2, m_modname = bytes_of ''m''\<rparr>,
      Global \<lparr>e_reclen = 8, e_flags = 0, e_segment = 0, e_offset = 5, e_label = bytes_of ''f''\<rparr>,
      Reloc \<lparr>r_reclen = 8, r_segment = 0, r_offset = 2, r_length = 2, r_refseg = 1\<rparr>]"

lemma demo_writable: "\<forall>r \<in> set demo_records. writable r"
  by (simp add: demo_records_def writable_def cstring_def bytes_of_def EXIM_LABEL_MAX_def MODLIB_NAME_MAX_def)

lemma demo_header: "length (header_of demo_records) = 24"
  by (simp add: header_of_writable [OF demo_writable])
     (simp add: demo_records_def rec_bytes_def rec_body_def rec_fields_def data_bytes_def bytes_of_def)

theorem module_roundtrip_witness:
  "module_reads \<lparr>file_bytes = module_image 66 (header_of demo_records) [(1, 0, 0, [1, 2, 3, 4])], file_pos = 0\<rparr> demo_records [(1, 0, 0, [1, 2, 3, 4])]"
  using module_roundtrip [of demo_records "[(1, 0, 0, [1, 2, 3, 4])]" "[]" 66 "[]"] demo_writable
  by (simp add: module_image_def segs_image_def seg_image_def demo_header RDOFFId RDF_MAXSEGS_def)

text \<open>
  C17. What \<open>rdfwriteheader\<close> writes is not a module: it puts the length of the header before the length
  of the module, where the format and the reader have them the other way round. Whatever the records
  and the segments are, the reader takes the length of the module for that of the header, and rejects
  the finished file with a read error.
\<close>

theorem written_module_rejected:
  assumes "\<forall>r \<in> set rs. writable r" and "length (header_of rs) + length (segs_image ss) + 14 < 2 ^ 31 - 4"
  shows "\<exists>h. add_records rdfnewheader rs = Inr h \<and>
    (let h = foldl (\<lambda>h (t, n, r, d). rdfaddsegment h (of_nat (length d))) h ss
     in rdfopenhere \<lparr>file_bytes = rdfwriteheader h @ segs_image ss, file_pos = 0\<rparr> refcount name = Inr (Fail RDF_ERR_READ))"
proof -
  obtain b where b: "add_records rdfnewheader rs = Inr (rdfnewheader\<lparr>hb_buf := b\<rparr>)" "membufdump b = concat (map rec_bytes rs)"
    using add_records_ok [OF assms(1), of rdfnewheader] by (auto simp: rdfnewheader_def newmembuf_def)
  define h where "h = foldl (\<lambda>h (t, n, r, d). rdfaddsegment h (of_nat (length d))) (rdfnewheader\<lparr>hb_buf := b\<rparr>) ss"
  define hdr where "hdr = membufdump b"
  have seg: "hb_buf (foldl (\<lambda>h (t, n, r, d). rdfaddsegment h (of_nat (length d))) h ss) = hb_buf h \<and>
    10 * hb_nsegments (foldl (\<lambda>h (t, n, r, d). rdfaddsegment h (of_nat (length d))) h ss) +
      hb_seglength (foldl (\<lambda>h (t, n, r, d). rdfaddsegment h (of_nat (length d))) h ss) =
    10 * hb_nsegments h + hb_seglength h + of_nat (length (concat (map seg_image ss)))" for h
    by (induction ss arbitrary: h) (auto simp: rdfaddsegment_def length_seg_image algebra_simps)
  define n where "n = length hdr + 14 + length (concat (map seg_image ss))"
  have "10 * hb_nsegments h + hb_seglength h = of_nat (length (concat (map seg_image ss)))" "hb_buf h = b"
    using seg [of "rdfnewheader\<lparr>hb_buf := b\<rparr>"] by (simp_all add: h_def rdfnewheader_def)
  then have "of_nat (length hdr) + 14 + 10 * hb_nsegments h + hb_seglength h = (of_nat n :: i32)" "hb_buf h = b"
    by (simp_all only: add.assoc n_def of_nat_add of_nat_numeral)
  then have w: "rdfwriteheader h = RDOFFId @ le_bytes 4 (of_nat (length hdr) :: i32) @ le_bytes 4 (of_nat n :: i32) @ hdr"
    by (simp only: rdfwriteheader_def membuflength_dump hdr_def Let_def)
  have small: "n < 2 ^ 31" using assms(2) b by (simp add: n_def hdr_def header_of_def segs_image_def)
  define fp where "fp = \<lparr>file_bytes = rdfwriteheader h @ segs_image ss, file_pos = 0\<rparr>"
  have fb: "file_bytes fp = RDOFFId @ le_bytes 4 (of_nat (length hdr) :: i32) @ le_bytes 4 (of_nat n :: i32) @ hdr @ segs_image ss"
    by (simp add: fp_def w)
  define fp1 where "fp1 = fp\<lparr>file_pos := 6\<rparr>"
  define fp2 where "fp2 = fp\<lparr>file_pos := 10\<rparr>"
  define fp3 where "fp3 = fp\<lparr>file_pos := 14\<rparr>"
  define fp4 where "fp4 = fp\<lparr>file_pos := 14 + n\<rparr>"
  have r1: "fread 6 fp = (RDOFFId, fp1)" using fread_at [of fp "[]" RDOFFId _ 6] by (simp add: fb fp1_def RDOFFId) (simp add: fp_def)
  have r2: "fread 4 fp1 = (le_bytes 4 (of_nat (length hdr) :: i32), fp2)"
    using fread_at [of fp1 RDOFFId "le_bytes 4 (of_nat (length hdr) :: i32)" _ 4] by (simp add: fb fp1_def fp2_def RDOFFId)
  have r3: "fread 4 fp2 = (le_bytes 4 (of_nat n :: i32), fp3)"
    using fread_at [of fp2 "RDOFFId @ le_bytes 4 (of_nat (length hdr) :: i32)" "le_bytes 4 (of_nat n :: i32)" _ 4]
    by (simp add: fb fp2_def fp3_def RDOFFId)
  have r4: "fseek_cur (sint (of_nat n :: i32)) fp3 = Some fp4"
    using small by (simp add: fseek_cur_def sint_of_nat_i32 fp3_def fp4_def nat_add_distrib)
  have "length (file_bytes fp) < 14 + n" by (simp add: fb RDOFFId n_def segs_image_def)
  then have r5: "fst (fread 2 fp4) = []" by (simp add: fread_def fp4_def)
  have "rdfopenhere fp refcount name = Inr (Fail RDF_ERR_READ)"
    using r5 by (simp add: rdfopenhere_def Let_def r1 r2 r3 r4 RDOFFId case_prod_beta)
  then show ?thesis using b(1) by (simp add: h_def fp_def)
qed

theorem written_module_rejected_witness:
  "\<exists>h. add_records rdfnewheader demo_records = Inr h \<and>
    (let h = rdfaddsegment h 4 in rdfopenhere \<lparr>file_bytes = rdfwriteheader h @ segs_image [(1, 0, 0, [1, 2, 3, 4])], file_pos = 0\<rparr> None [] =
      Inr (Fail RDF_ERR_READ))"
  using written_module_rejected [of demo_records "[(1, 0, 0, [1, 2, 3, 4])]" None "[]"] demo_writable
  by (simp add: demo_header segs_image_def seg_image_def Let_def)

end
