(* ===== verification/OutRdf2.thy ===== *)
theory OutRdf2
  imports Rdf Saa Segments Numbers
begin

text \<open>
  The output format \<open>output/outrdf2.c\<close>: the assembler's calls collect header records and the bytes of
  the segments in sequential access arrays, and the cleanup lays them out as a module. The last
  section shows that the reader of \<open>Rdf\<close> reads the module.
\<close>

section \<open>State\<close>

record rdf2_seg =
  sg_name :: bytes
  sg_number :: i32
  sg_type :: u16
  sg_reserved :: u16
  sg_length :: i32
  sg_saa :: "saa option"

text \<open>\<open>MNumber\<close>, \<open>MPower\<close>: the two messages on an alignment; \<open>MConflict\<close>: EXTERN with EXPORT or GLOBAL with IMPORT.\<close>

datatype rdf2_message =
    MLongLabel | MNoLabel | MNumber | MPower | MSymbolType | MSpecial | MConflict | MAbsolute | MSegment | MWrt | MBss
  | MComma | MSegType | MRedeclared | MNoType | MLongName

text \<open>
  The static variables: the segments with their arrays (the null pointer for BSS), the header, the two
  lengths and the flag for far symbols, which lives on between calls. With the next number that
  \<open>seg_alloc\<close> gives out, and the messages.
\<close>

record rdf2_state =
  r2_segs :: "rdf2_seg list"
  r2_header :: saa
  r2_bsslength :: i32
  r2_headerlength :: i32
  r2_farsym :: bool
  r2_next :: i32
  r2_messages :: "rdf2_message list"

definition complain :: "rdf2_message \<Rightarrow> rdf2_state \<Rightarrow> rdf2_state" where
  "complain m st = st\<lparr>r2_messages := r2_messages st @ [m]\<rparr>"

definition rdf2_init :: "i32 \<Rightarrow> bool \<Rightarrow> rdf2_state result" where
  "rdf2_init next_seg farsym =
     andthen (saa_init 1) (\<lambda>s0. andthen (saa_init 1) (\<lambda>s1. andthen (saa_init 1) (\<lambda>hd.
       let (segtext, nx) = seg_alloc next_seg; (segdata, nx) = seg_alloc nx; (segbss, nx) = seg_alloc nx
       in guard (segtext = 0 \<and> segdata = 2 \<and> segbss = 4) AssertFailed (Inr
            \<lparr>r2_segs =
               [\<lparr>sg_name = bytes_of ''.text'', sg_number = 0, sg_type = 1, sg_reserved = 0, sg_length = 0, sg_saa = Some s0\<rparr>,
                \<lparr>sg_name = bytes_of ''.data'', sg_number = 1, sg_type = 2, sg_reserved = 0, sg_length = 0, sg_saa = Some s1\<rparr>,
                \<lparr>sg_name = bytes_of ''.bss'', sg_number = 2, sg_type = 0xFFFF, sg_reserved = 0, sg_length = 0, sg_saa = None\<rparr>],
             r2_header = hd, r2_bsslength = 0, r2_headerlength = 0, r2_farsym = farsym, r2_next = nx, r2_messages = []\<rparr>))))"

section \<open>Header records\<close>

text \<open>The pieces of a record go to the header one by one; then its length is counted.\<close>

definition write_pieces :: "bytes list \<Rightarrow> u8 \<Rightarrow> rdf2_state \<Rightarrow> rdf2_state result" where
  "write_pieces xss reclen st =
     andthen (steps saa_put (r2_header st) xss) (\<lambda>hd.
       Inr (st\<lparr>r2_header := hd, r2_headerlength := r2_headerlength st + ucast reclen + 2\<rparr>))"

text \<open>\<open>rty\<close> is \<open>RDFREC_RELOC\<close> or \<open>RDFREC_SEGRELOC\<close>; a reference to a segment base changes it.\<close>

definition write_reloc_rec :: "u8 \<Rightarrow> reloc_rec \<Rightarrow> rdf2_state \<Rightarrow> rdf2_state result" where
  "write_reloc_rec rty r st =
     (let rty = (if r_refseg r \<noteq> 0xFFFF \<and> r_refseg r AND 1 \<noteq> 0 then 6 else rty); refseg = drop_bit 1 (r_refseg r)
      in write_pieces [[rty], [r_reclen r], [r_segment r], le_bytes 4 (r_offset r), [r_length r], le_bytes 2 refseg] (r_reclen r) st)"

definition write_export_rec :: "export_rec \<Rightarrow> rdf2_state \<Rightarrow> rdf2_state result" where
  "write_export_rec r st =
     write_pieces [[3], [e_reclen r], [e_flags r], [drop_bit 1 (e_segment r)], le_bytes 4 (e_offset r), e_label r @ [0]] (e_reclen r) st"

definition write_import_rec :: "u8 \<Rightarrow> import_rec \<Rightarrow> rdf2_state \<Rightarrow> rdf2_state result" where
  "write_import_rec rty r st =
     write_pieces [[rty], [i_reclen r], [i_flags r], le_bytes 2 (drop_bit 1 (i_segment r)), i_label r @ [0]] (i_reclen r) st"

definition write_bss_rec :: "bss_rec \<Rightarrow> rdf2_state \<Rightarrow> rdf2_state result" where
  "write_bss_rec r st = write_pieces [[5], [b_reclen r], le_bytes 4 (b_amount r)] (b_reclen r) st"

definition write_common_rec :: "common_rec \<Rightarrow> rdf2_state \<Rightarrow> rdf2_state result" where
  "write_common_rec r st =
     write_pieces [[10], [c_reclen r], le_bytes 2 (drop_bit 1 (c_segment r)), le_bytes 4 (c_size r), le_bytes 2 (c_align r), c_label r @ [0]]
       (c_reclen r) st"

definition write_dll_rec :: "dll_rec \<Rightarrow> rdf2_state \<Rightarrow> rdf2_state result" where
  "write_dll_rec r st = write_pieces [[4], [d_reclen r], d_libname r @ [0]] (d_reclen r) st"

definition write_modname_rec :: "mod_rec \<Rightarrow> rdf2_state \<Rightarrow> rdf2_state result" where
  "write_modname_rec r st = write_pieces [[8], [m_reclen r], m_modname r @ [0]] (m_reclen r) st"

section \<open>Labels\<close>

text \<open>\<open>readnum\<close> gives zero with an error; its own warning is not kept.\<close>

definition read_value :: "bytes \<Rightarrow> i64 \<times> bool" where
  "read_value str = (case readnum str of None \<Rightarrow> (0, True) | Some (v, _) \<Rightarrow> (v, False))"

definition power_of_two :: "u16 \<Rightarrow> bool" where
  "power_of_two al \<longleftrightarrow> (uint al OR (uint al - 1)) = 2 * uint al - 1"

definition rdf2_common :: "bytes \<Rightarrow> i32 \<Rightarrow> i64 \<Rightarrow> bytes option \<Rightarrow> rdf2_state \<Rightarrow> rdf2_state result" where
  "rdf2_common name segment offset special st =
     (let (align, st) =
            (case special of
               None \<Rightarrow> (0, st)
             | Some s \<Rightarrow>
                 let (v, err) = read_value s; al = ucast v :: u16
                 in (al, if err then complain MNumber st else if \<not> power_of_two al then complain MPower st else st))
      in write_common_rec \<lparr>c_reclen = of_nat (9 + length name), c_segment = ucast segment, c_size = ucast offset,
           c_align = align, c_label = name\<rparr> st)"

text \<open>The special text behind a symbol: the flags it gives.\<close>

definition symbol_kind :: "bytes \<Rightarrow> u8 \<times> rdf2_state \<Rightarrow> u8 \<times> rdf2_state" where
  "symbol_kind special = (\<lambda>(symflags, st).
     if special = [] then (symflags, st)
     else
       let special = dropWhile isspace special
       in if nasm_stricmp special (bytes_of ''far'') = 0 then (symflags, st\<lparr>r2_farsym := True\<rparr>)
          else if nasm_stricmp special (bytes_of ''near'') = 0 then (symflags, st\<lparr>r2_farsym := False\<rparr>)
          else if nasm_stricmp special (bytes_of ''proc'') = 0 \<or> nasm_stricmp special (bytes_of ''function'') = 0 then (symflags OR 2, st)
          else if nasm_stricmp special (bytes_of ''data'') = 0 \<or> nasm_stricmp special (bytes_of ''object'') = 0 then (symflags OR 1, st)
          else (symflags, complain MSymbolType st))"

definition symbol_flags :: "bytes option \<Rightarrow> rdf2_state \<Rightarrow> u8 \<times> rdf2_state" where
  "symbol_flags special st =
     (case special of
        None \<Rightarrow> (0, st)
      | Some s \<Rightarrow>
          let s = dropWhile (\<lambda>c. c = 0x20 \<or> c = 0x09) s
          in if nasm_strnicmp s (bytes_of ''export'') 6 = 0 then symbol_kind (drop 6 s) (4, st)
             else if nasm_strnicmp s (bytes_of ''import'') 6 = 0 then symbol_kind (drop 6 s) (8, st)
             else symbol_kind s (0, st))"

definition seg_index :: "rdf2_seg list \<Rightarrow> i32 \<Rightarrow> nat option" where
  "seg_index ss number = find (\<lambda>i. sg_number (ss ! i) = number) [0..<length ss]"

text \<open>An exported symbol of a segment of the module, or an imported one.\<close>

definition rdf2_symbol :: "bytes \<Rightarrow> i32 \<Rightarrow> i64 \<Rightarrow> u8 \<times> rdf2_state \<Rightarrow> rdf2_state result" where
  "rdf2_symbol name segment offset = (\<lambda>(symflags, st).
     if cchar name 0 = 0x2E \<and> cchar name 1 = 0x2E \<and> cchar name 2 \<noteq> 0x40 then Inr (complain MSpecial st)
     else case seg_index (r2_segs st) (signed_drop_bit 1 segment) of
       None \<Rightarrow>
         write_import_rec (if r2_farsym st then 7 else 2)
           \<lparr>i_reclen = of_nat (4 + length name), i_flags = symflags, i_segment = ucast segment, i_label = name\<rparr>
           (if symflags AND 4 \<noteq> 0 then complain MConflict st else st)
     | Some i \<Rightarrow>
         write_export_rec
           \<lparr>e_reclen = of_nat (7 + length name), e_flags = symflags, e_segment = ucast segment, e_offset = ucast offset, e_label = name\<rparr>
           (if symflags AND 8 \<noteq> 0 then complain MConflict st else st))"

definition rdf2_deflabel :: "bytes \<Rightarrow> i32 \<Rightarrow> i64 \<Rightarrow> int \<Rightarrow> bytes option \<Rightarrow> rdf2_state \<Rightarrow> rdf2_state result" where
  "rdf2_deflabel name segment offset is_global special st =
     (if EXIM_LABEL_MAX \<le> length name then Inr (complain MLongLabel st)
      else if name = [] then Inr (complain MNoLabel st)
      else
        andthen (if is_global = 2 then rdf2_common name segment offset special st else Inr st) (\<lambda>st.
        if is_global \<noteq> 1 then Inr st else rdf2_symbol name segment offset (symbol_flags special st)))"

section \<open>Segments\<close>

text \<open>
  The names of \<open>segmenttypes\<close> with their numbers, and the declaration of a segment: the name up to a
  space, and behind it the type with an optional number. The test in the loop that skips the spaces is
  of the constant 80, so nothing is skipped.
\<close>

definition segment_types :: "(bytes \<times> i32) list" where
  "segment_types =
     [(bytes_of ''null'', 0), (bytes_of ''text'', 1), (bytes_of ''code'', 1), (bytes_of ''data'', 2), (bytes_of ''comment'', 3),
      (bytes_of ''lcomment'', 4), (bytes_of ''pcomment'', 5), (bytes_of ''symdebug'', 6), (bytes_of ''linedebug'', 7)]"

definition segment_code :: "bytes \<Rightarrow> rdf2_state \<Rightarrow> i32 \<times> rdf2_state" where
  "segment_code p st =
     (case find (\<lambda>(s, n). nasm_stricmp p s = 0) segment_types of
        Some (_, n) \<Rightarrow> (n, st)
      | None \<Rightarrow> let (v, err) = read_value p in if err then (3, complain MSegType st) else (ucast v, st))"

definition segment_attributes :: "bytes \<Rightarrow> rdf2_state \<Rightarrow> i32 \<times> i32 \<times> rdf2_state" where
  "segment_attributes p st =
     (if p = [] then (- 1, 0, st)
      else
        let q = dropWhile (\<lambda>c. c \<noteq> 0x2C) p; p = takeWhile (\<lambda>c. c \<noteq> 0x2C) p;
            (reserved, st) = (if q = [] then (0, st)
              else let (v, err) = read_value (tl q) in if err then (0, complain MComma st) else (ucast v, st));
            (code, st) = segment_code p st
        in (code, reserved, st))"

definition new_segment :: "bytes \<Rightarrow> i32 \<Rightarrow> i32 \<Rightarrow> rdf2_state \<Rightarrow> (i32 \<times> rdf2_state) result" where
  "new_segment name code reserved st =
     guard (length (r2_segs st) \<noteq> RDF_MAXSEGS) AssertFailed
     (let (i, nx) = seg_alloc (r2_next st)
      in guard (i AND 1 = 0) AssertFailed
         (andthen (saa_init 1) (\<lambda>s. Inr (i, st\<lparr>r2_next := nx, r2_segs := r2_segs st @
           [\<lparr>sg_name = name, sg_number = signed_drop_bit 1 i, sg_type = ucast code, sg_reserved = ucast reserved,
             sg_length = 0, sg_saa = Some s\<rparr>]\<rparr>))))"

definition rdf2_section_names :: "bytes option \<Rightarrow> rdf2_state \<Rightarrow> (i32 \<times> rdf2_state) result" where
  "rdf2_section_names name st =
     (case name of
        None \<Rightarrow> Inr (0, st)
      | Some name \<Rightarrow>
          let p = dropWhile (\<lambda>c. \<not> isspace c) name; name = takeWhile (\<lambda>c. \<not> isspace c) name;
              (code, reserved, st) = segment_attributes (tl p) st
          in case find (\<lambda>s. strcmp name (sg_name s) = 0) (r2_segs st) of
               Some s \<Rightarrow> Inr (sg_number s * 2, if code \<noteq> - 1 \<or> reserved \<noteq> 0 then complain MRedeclared st else st)
             | None \<Rightarrow> if code = - 1 then new_segment name 3 reserved (complain MNoType st) else new_segment name code reserved st)"

section \<open>Output\<close>

definition rdf2_membufwrite :: "i32 \<Rightarrow> bytes \<Rightarrow> rdf2_state \<Rightarrow> rdf2_state result" where
  "rdf2_membufwrite segment data st =
     (case seg_index (r2_segs st) segment of
        None \<Rightarrow> Inl AssertFailed
      | Some i \<Rightarrow>
          let sg = r2_segs st ! i
          in case sg_saa sg of
               None \<Rightarrow> Inl NullDeref
             | Some s \<Rightarrow> andthen (saa_put s data) (\<lambda>s. Inr (st\<lparr>r2_segs := (r2_segs st)[i :=
                 sg\<lparr>sg_length := sg_length sg + of_nat (length data), sg_saa := Some s\<rparr>]\<rparr>)))"

definition getsegmentlength :: "i32 \<Rightarrow> rdf2_state \<Rightarrow> i32 result" where
  "getsegmentlength segment st =
     (case seg_index (r2_segs st) segment of None \<Rightarrow> Inl AssertFailed | Some i \<Rightarrow> Inr (sg_length (r2_segs st ! i)))"

text \<open>
  What is to be output, with \<open>size\<close>: for a relative address it is the distance to the end of the
  instruction. \<open>OUT_OTHER\<close> are the types that the format does not know.
\<close>

datatype rdf2_data =
    OUT_RAWDATA bytes | OUT_RESERVE u64 | OUT_ADDRESS i64 u64 | OUT_REL2ADR i64 u64 | OUT_REL4ADR i64 u64 | OUT_OTHER u64

fun reserve_bytes :: "nat \<Rightarrow> i32 \<Rightarrow> u8 \<Rightarrow> rdf2_state \<Rightarrow> rdf2_state result" where
  "reserve_bytes 0 segto b st = Inr st"
| "reserve_bytes (Suc n) segto b st = andthen (rdf2_membufwrite segto [b] st) (reserve_bytes n segto b)"

definition out_address :: "i32 \<Rightarrow> i64 \<Rightarrow> u64 \<Rightarrow> i32 \<Rightarrow> rdf2_state \<Rightarrow> rdf2_state result" where
  "out_address segto v sz segment st =
     (let asize = nat \<bar>sint (ucast sz :: i32)\<bar>
      in andthen
           (if segment \<noteq> NO_SEG
            then andthen (getsegmentlength segto st) (\<lambda>here.
              write_reloc_rec 1 \<lparr>r_reclen = 8, r_segment = ucast segto, r_offset = here, r_length = of_nat asize, r_refseg = ucast segment\<rparr> st)
            else Inr st) (\<lambda>st.
         guard (asize \<le> 8) OutOfBounds (rdf2_membufwrite segto (take asize (le_bytes 8 v)) st)))"

definition out_rel2 :: "i32 \<Rightarrow> i64 \<Rightarrow> u64 \<Rightarrow> i32 \<Rightarrow> rdf2_state \<Rightarrow> rdf2_state result" where
  "out_rel2 segto v sz segment st =
     guard (segment \<noteq> segto) AssertFailed
     (andthen (getsegmentlength segto st) (\<lambda>here.
        if segment \<noteq> NO_SEG \<and> segment AND 1 \<noteq> 0 then
          andthen (write_reloc_rec 6 \<lparr>r_reclen = 8, r_segment = ucast segto, r_offset = here, r_length = 2, r_refseg = ucast segment\<rparr> st)
            (rdf2_membufwrite segto (le_bytes 2 (ucast v :: i32)))
        else
          andthen (write_reloc_rec 1 \<lparr>r_reclen = 8, r_segment = ucast (segto + 64), r_offset = here, r_length = 2, r_refseg = ucast segment\<rparr> st)
            (rdf2_membufwrite segto (le_bytes 2 (ucast v - (here + ucast sz) :: i32)))))"

definition out_rel4 :: "bool \<Rightarrow> i32 \<Rightarrow> i64 \<Rightarrow> u64 \<Rightarrow> i32 \<Rightarrow> rdf2_state \<Rightarrow> rdf2_state result" where
  "out_rel4 bits64 segto v sz segment st =
     guard (segment \<noteq> segto \<or> bits64) AssertFailed
     (guard (segment = NO_SEG \<or> segment AND 1 = 0) AssertFailed
     (andthen (getsegmentlength segto st) (\<lambda>here.
        andthen (write_reloc_rec 1 \<lparr>r_reclen = 8, r_segment = ucast (segto + 64), r_offset = here, r_length = 4, r_refseg = ucast segment\<rparr> st)
          (rdf2_membufwrite segto (le_bytes 4 (ucast v - (here + ucast sz) :: i32))))))"

text \<open>In BSS space is only reserved.\<close>

definition bss_reserves :: "i32 \<Rightarrow> rdf2_data \<Rightarrow> rdf2_state \<Rightarrow> rdf2_data \<times> rdf2_state" where
  "bss_reserves segto data st =
     (if segto = 2
      then (case data of
          OUT_RESERVE n \<Rightarrow> (data, st)
        | OUT_REL2ADR v n \<Rightarrow> (OUT_RESERVE 2, complain MBss st)
        | _ \<Rightarrow> (OUT_RESERVE 4, complain MBss st))
      else (data, st))"

text \<open>\<open>junk\<close> is the first byte of the buffer on the stack, which nothing has been written to.\<close>

definition out_data :: "bool \<Rightarrow> u8 \<Rightarrow> i32 \<Rightarrow> i32 \<Rightarrow> rdf2_data \<times> rdf2_state \<Rightarrow> rdf2_state result" where
  "out_data bits64 junk segto segment = (\<lambda>(data, st). case data of
       OUT_RESERVE n \<Rightarrow>
         if segto = 2 then Inr (st\<lparr>r2_bsslength := r2_bsslength st + ucast n\<rparr>) else reserve_bytes (unat n) segto junk st
     | OUT_RAWDATA bs \<Rightarrow> guard (segment = NO_SEG) AssertFailed (rdf2_membufwrite segto bs st)
     | OUT_ADDRESS v n \<Rightarrow> out_address segto v n segment st
     | OUT_REL2ADR v n \<Rightarrow> out_rel2 segto v n segment st
     | OUT_REL4ADR v n \<Rightarrow> out_rel4 bits64 segto v n segment st
     | OUT_OTHER n \<Rightarrow> Inr st)"

definition rdf2_out :: "bool \<Rightarrow> u8 \<Rightarrow> i32 \<Rightarrow> rdf2_data \<Rightarrow> i32 \<Rightarrow> i32 \<Rightarrow> rdf2_state \<Rightarrow> rdf2_state result" where
  "rdf2_out bits64 junk segto data segment wrt st =
     (if segto = NO_SEG then Inr (case data of OUT_RESERVE _ \<Rightarrow> st | _ \<Rightarrow> complain MAbsolute st)
      else
        let segto = signed_drop_bit 1 segto
        in if seg_index (r2_segs st) segto = None then Inr (complain MSegment st)
           else out_data bits64 junk segto segment (bss_reserves segto data (if wrt \<noteq> NO_SEG then complain MWrt st else st)))"

section \<open>Directives and the end\<close>

datatype rdf2_name = D_LIBRARY | D_MODULE

definition rdf2_directive :: "rdf2_name \<Rightarrow> bytes \<Rightarrow> int \<Rightarrow> rdf2_state \<Rightarrow> rdf2_state result" where
  "rdf2_directive d v pass st =
     (if MODLIB_NAME_MAX \<le> length v then Inr (complain MLongName st)
      else if pass \<noteq> 1 then Inr st
      else case d of
        D_LIBRARY \<Rightarrow> write_dll_rec \<lparr>d_reclen = of_nat (length v + 1), d_libname = v\<rparr> st
      | D_MODULE \<Rightarrow> write_modname_rec \<lparr>m_reclen = of_nat (length v + 1), m_modname = v\<rparr> st)"

text \<open>The segments but BSS, which is the third.\<close>

definition kept_segs :: "rdf2_state \<Rightarrow> rdf2_seg list" where
  "kept_segs st = take 2 (r2_segs st) @ drop 3 (r2_segs st)"

fun write_segs :: "rdf2_seg list \<Rightarrow> mbyte list result" where
  "write_segs [] = Inr []"
| "write_segs (sg # ss) =
     (case sg_saa sg of
        None \<Rightarrow> Inl NullDeref
      | Some s \<Rightarrow> andthen (saa_fpwrite s) (\<lambda>(d, _). andthen (write_segs ss) (\<lambda>rest.
          Inr (map Some (le_bytes 2 (sg_type sg) @ le_bytes 2 (ucast (sg_number sg) :: u16) @ le_bytes 2 (sg_reserved sg) @
            le_bytes 4 (sg_length sg)) @ d @ rest))))"

definition rdf2_cleanup :: "rdf2_state \<Rightarrow> mbyte list result" where
  "rdf2_cleanup st =
     andthen (if r2_bsslength st \<noteq> 0 then write_bss_rec \<lparr>b_reclen = 4, b_amount = r2_bsslength st\<rparr> st else Inr st) (\<lambda>st.
       let l = r2_headerlength st + 4;
           l = foldl (\<lambda>l sg. l + (10 + sg_length sg)) l (kept_segs st);
           l = l + 10
       in andthen (saa_fpwrite (r2_header st)) (\<lambda>(hd, _).
          andthen (write_segs (kept_segs st)) (\<lambda>ss.
            Inr (map Some (RDOFFId @ le_bytes 4 l @ le_bytes 4 (r2_headerlength st)) @ hd @ ss @
              map Some (le_bytes 4 (0 :: i32) @ le_bytes 4 (0 :: i32) @ le_bytes 2 (0 :: u16))))))"

text \<open>A call of the assembler.\<close>

datatype rdf2_call =
    Section "bytes option" | Label bytes i32 i64 int "bytes option" | Output bool u8 i32 rdf2_data i32 i32
  | Directive rdf2_name bytes int

definition rdf2_step :: "rdf2_state \<Rightarrow> rdf2_call \<Rightarrow> rdf2_state result" where
  "rdf2_step st c =
     (case c of
        Section name \<Rightarrow> andthen (rdf2_section_names name st) (\<lambda>(i, st). Inr st)
      | Label name segment offset glob special \<Rightarrow> rdf2_deflabel name segment offset glob special st
      | Output bits64 junk segto data segment wrt \<Rightarrow> rdf2_out bits64 junk segto data segment wrt st
      | Directive d v pass \<Rightarrow> rdf2_directive d v pass st)"

section \<open>What is collected is a header and segments\<close>

definition sized :: "rdfheaderrec \<Rightarrow> bool" where
  "sized r \<longleftrightarrow> unat (rec_reclen r) = length (rec_body r)"

definition seg_ok :: "rdf2_seg \<Rightarrow> bool" where
  "seg_ok sg \<longleftrightarrow> (\<exists>s. sg_saa sg = Some s \<and> saa_at_end s \<and> sg_length sg = of_nat (length (saa_bytes s)))"

definition rdf2_ok :: "rdf2_state \<Rightarrow> rdfheaderrec list \<Rightarrow> bool" where
  "rdf2_ok st rs \<longleftrightarrow>
     saa_at_end (r2_header st) \<and> saa_bytes (r2_header st) = concat (map rec_bytes rs) \<and> (\<forall>r \<in> set rs. readable r) \<and>
     r2_headerlength st = of_nat (length (saa_bytes (r2_header st))) \<and> even (r2_next st) \<and>
     3 \<le> length (r2_segs st) \<and> length (r2_segs st) \<le> RDF_MAXSEGS \<and> sg_number (r2_segs st ! 2) = 2 \<and>
     (\<forall>i < length (r2_segs st). i \<noteq> 2 \<longrightarrow> seg_ok (r2_segs st ! i))"

text \<open>What a segment holds, without the array and the length; and what the calls share beside the segments.\<close>

type_synonym seg_view = "bytes \<times> i32 \<times> u16 \<times> u16 \<times> bytes"

definition seg_view :: "rdf2_seg \<Rightarrow> seg_view" where
  "seg_view sg = (sg_name sg, sg_number sg, sg_type sg, sg_reserved sg, case sg_saa sg of None \<Rightarrow> [] | Some s \<Rightarrow> saa_bytes s)"

abbreviation view :: "rdf2_state \<Rightarrow> seg_view list" where "view st \<equiv> map seg_view (r2_segs st)"

definition rest :: "rdf2_state \<Rightarrow> i32 \<times> bool \<times> i32 \<times> rdf2_message list" where
  "rest st = (r2_bsslength st, r2_farsym st, r2_next st, r2_messages st)"

definition add_bytes :: "nat \<Rightarrow> bytes \<Rightarrow> seg_view list \<Rightarrow> seg_view list" where
  "add_bytes i bs vs = vs[i := (case vs ! i of (name, number, code, reserved, d) \<Rightarrow> (name, number, code, reserved, d @ bs))]"

text \<open>An operation adds records to the header and makes the segments look like \<open>vs\<close>.\<close>

definition effect :: "rdf2_state result \<Rightarrow> rdf2_state \<Rightarrow> rdfheaderrec list \<Rightarrow> rdfheaderrec list \<Rightarrow> seg_view list \<Rightarrow> bool" where
  "effect x st rs rs' vs \<longleftrightarrow> (\<exists>st'. x = Inr st' \<and> rdf2_ok st' (rs @ rs') \<and> view st' = vs \<and> rest st' = rest st)"

lemma effect_none: "rdf2_ok st rs \<Longrightarrow> effect (Inr st) st rs [] (view st)"
  by (simp add: effect_def)

lemma effect_bind:
  assumes "effect x st rs rs1 vs"
    and "\<And>st1. rdf2_ok st1 (rs @ rs1) \<Longrightarrow> view st1 = vs \<Longrightarrow> rest st1 = rest st \<Longrightarrow> effect (f st1) st1 (rs @ rs1) rs2 vs2"
  shows "effect (andthen x f) st rs (rs1 @ rs2) vs2"
  using assms unfolding effect_def by (elim exE conjE) (fastforce simp: append_assoc)

lemma complain_ok [simp]: "rdf2_ok (complain m st) rs = rdf2_ok st rs" "r2_segs (complain m st) = r2_segs st"
  by (simp_all add: rdf2_ok_def complain_def)

lemma write_pieces_effect:
  assumes ok: "rdf2_ok st rs" and r: "concat xss = rec_bytes r" "readable r" "sized r" "rec_reclen r = n"
  shows "effect (write_pieces xss n st) st rs [r] (view st)"
proof -
  obtain hd where hd: "steps saa_put (r2_header st) xss = Inr hd" "saa_at_end hd"
    "saa_bytes hd = saa_bytes (r2_header st) @ rec_bytes r"
    using saa_sink.puts_ok [of "r2_header st" xss] ok r(1) by (auto simp: rdf2_ok_def)
  have "length (rec_bytes r) = unat n + 2" using r(3,4) by (simp add: rec_bytes_def sized_def)
  then have "of_nat (length (saa_bytes hd)) = r2_headerlength st + ucast n + (2 :: i32)"
    using ok by (simp add: hd(3) rdf2_ok_def)
  then show ?thesis using hd ok r(2)
    unfolding effect_def by (intro exI [of _ "st\<lparr>r2_header := hd, r2_headerlength := r2_headerlength st + ucast n + 2\<rparr>"])
      (simp add: write_pieces_def rdf2_ok_def rest_def)
qed

lemmas record_simps = rec_bytes_def rec_body_def rec_fields_def rec_type_def rec_reclen_def data_bytes_def readable_def writable_def sized_def

text \<open>The record of each writer.\<close>

definition reloc_of :: "u8 \<Rightarrow> reloc_rec \<Rightarrow> rdfheaderrec" where
  "reloc_of rty r =
     (if rty = 6 \<or> r_refseg r \<noteq> 0xFFFF \<and> r_refseg r AND 1 \<noteq> 0 then SegReloc (r\<lparr>r_refseg := drop_bit 1 (r_refseg r)\<rparr>)
      else Reloc (r\<lparr>r_refseg := drop_bit 1 (r_refseg r)\<rparr>))"

lemma write_reloc_effect:
  assumes "rdf2_ok st rs" and "r_reclen r = 8" and "rty = 1 \<or> rty = 6"
  shows "effect (write_reloc_rec rty r st) st rs [reloc_of rty r] (view st)"
  unfolding write_reloc_rec_def Let_def
  by (rule write_pieces_effect [OF assms(1)]) (use assms(2,3) in \<open>auto simp: reloc_of_def record_simps\<close>)

lemma write_export_effect:
  assumes "rdf2_ok st rs" and "cstring (e_label r)" and "length (e_label r) < 249" and "unat (e_reclen r) = 7 + length (e_label r)"
  shows "effect (write_export_rec r st) st rs [Global (r\<lparr>e_segment := drop_bit 1 (e_segment r)\<rparr>)] (view st)"
  unfolding write_export_rec_def
  by (rule write_pieces_effect [OF assms(1)]) (use assms(2-4) in \<open>simp_all add: record_simps EXIM_LABEL_MAX_def\<close>)

lemma write_import_effect:
  assumes "rdf2_ok st rs" and "cstring (i_label r)" and "length (i_label r) < 252" and "unat (i_reclen r) = 4 + length (i_label r)" and "rty = 2 \<or> rty = 7"
  shows "effect (write_import_rec rty r st) st rs
    [(if rty = 2 then Import else FarImport) (r\<lparr>i_segment := drop_bit 1 (i_segment r)\<rparr>)] (view st)"
  unfolding write_import_rec_def
  by (rule write_pieces_effect [OF assms(1)]) (use assms(2-5) in \<open>auto simp: record_simps EXIM_LABEL_MAX_def\<close>)

lemma write_common_effect:
  assumes "rdf2_ok st rs" and "cstring (c_label r)" and "length (c_label r) < 247" and "unat (c_reclen r) = 9 + length (c_label r)"
  shows "effect (write_common_rec r st) st rs [Common (r\<lparr>c_segment := drop_bit 1 (c_segment r)\<rparr>)] (view st)"
  unfolding write_common_rec_def
  by (rule write_pieces_effect [OF assms(1)])
    (use assms(2-4) in \<open>simp_all add: rec_bytes_def rec_body_def rec_type_def rec_reclen_def readable_def sized_def EXIM_LABEL_MAX_def\<close>)

lemma write_dll_effect:
  assumes "rdf2_ok st rs" and "cstring (d_libname r)" and "length (d_libname r) < MODLIB_NAME_MAX" and "unat (d_reclen r) = length (d_libname r) + 1"
  shows "effect (write_dll_rec r st) st rs [DLL r] (view st)"
  unfolding write_dll_rec_def by (rule write_pieces_effect [OF assms(1)]) (use assms(2-4) in \<open>simp_all add: record_simps\<close>)

lemma write_modname_effect:
  assumes "rdf2_ok st rs" and "cstring (m_modname r)" and "length (m_modname r) < MODLIB_NAME_MAX" and "unat (m_reclen r) = length (m_modname r) + 1"
  shows "effect (write_modname_rec r st) st rs [ModName r] (view st)"
  unfolding write_modname_rec_def by (rule write_pieces_effect [OF assms(1)]) (use assms(2-4) in \<open>simp_all add: record_simps\<close>)

lemma unat_reclen: "k + n < 256 \<Longrightarrow> unat (of_nat (k + n) :: u8) = k + n"
  by (simp add: unat_of_nat del: of_nat_add)

section \<open>Output: records and bytes\<close>

lemma seg_index_Some:
  "seg_index ss n = Some i \<Longrightarrow> i < length ss \<and> sg_number (ss ! i) = n"
  by (auto simp: seg_index_def find_Some_iff)

lemma seg_index_eq: "seg_index (r2_segs st) n = find (\<lambda>i. fst (snd (view st ! i)) = n) [0..<length (view st)]"
  unfolding seg_index_def by (intro find_cong) (auto simp: seg_view_def)

lemma seg_index_view: "view st = map seg_view ss \<Longrightarrow> seg_index (r2_segs st) n = seg_index ss n"
proof -
  assume v: "view st = map seg_view ss"
  then have l: "length (r2_segs st) = length ss" by (metis length_map)
  have "sg_number (r2_segs st ! i) = sg_number (ss ! i)" if "i < length ss" for i
    using arg_cong [OF v, of "\<lambda>vs. fst (snd (vs ! i))"] that l by (simp add: seg_view_def)
  then show ?thesis unfolding seg_index_def l by (intro find_cong) auto
qed

lemma seg_index_add:
  "view st = add_bytes i bs (view st0) \<Longrightarrow> i < length (r2_segs st0) \<Longrightarrow> seg_index (r2_segs st) n = seg_index (r2_segs st0) n"
proof -
  assume v: "view st = add_bytes i bs (view st0)" and i: "i < length (r2_segs st0)"
  have l: "length (r2_segs st) = length (r2_segs st0)" using arg_cong [OF v, of length] by (simp add: add_bytes_def)
  have "sg_number (r2_segs st ! j) = sg_number (r2_segs st0 ! j)" if "j < length (r2_segs st0)" for j
    using arg_cong [OF v, of "\<lambda>vs. fst (snd (vs ! j))"] that l i
    by (cases "j = i") (simp_all add: add_bytes_def seg_view_def)
  then show ?thesis unfolding seg_index_def l by (intro find_cong) auto
qed

lemma kept_seg:
  assumes "rdf2_ok st rs" and "seg_index (r2_segs st) n = Some i" and "n \<noteq> 2"
  obtains s where "sg_saa (r2_segs st ! i) = Some s" "saa_at_end s" "sg_length (r2_segs st ! i) = of_nat (length (saa_bytes s))" "i \<noteq> 2"
    "i < length (r2_segs st)"
proof -
  have i: "i < length (r2_segs st)" "sg_number (r2_segs st ! i) = n" using seg_index_Some [OF assms(2)] by auto
  with assms have "i \<noteq> 2" by (auto simp: rdf2_ok_def)
  with assms(1) i have "seg_ok (r2_segs st ! i)" by (simp add: rdf2_ok_def)
  then show ?thesis using that \<open>i \<noteq> 2\<close> i by (auto simp: seg_ok_def)
qed

lemma membufwrite_effect:
  assumes ok: "rdf2_ok st rs" and i: "seg_index (r2_segs st) n = Some i" "n \<noteq> 2"
  shows "effect (rdf2_membufwrite n bs st) st rs [] (add_bytes i bs (view st))"
proof -
  obtain s where s: "sg_saa (r2_segs st ! i) = Some s" "saa_at_end s" "sg_length (r2_segs st ! i) = of_nat (length (saa_bytes s))" "i \<noteq> 2"
    "i < length (r2_segs st)"
    using kept_seg [OF ok i] .
  obtain s' where s': "saa_put s bs = Inr s'" "saa_at_end s'" "saa_bytes s' = saa_bytes s @ bs"
    using saa_put_ok [OF s(2), of bs] by (elim exE conjE) (rule that; assumption)
  define sg where "sg = (r2_segs st ! i)\<lparr>sg_length := sg_length (r2_segs st ! i) + of_nat (length bs), sg_saa := Some s'\<rparr>"
  have "seg_ok sg" using s s' by (simp add: sg_def seg_ok_def)
  then have "rdf2_ok (st\<lparr>r2_segs := (r2_segs st)[i := sg]\<rparr>) rs"
    using ok s(4,5) by (simp add: rdf2_ok_def nth_list_update)
  moreover have "rdf2_membufwrite n bs st = Inr (st\<lparr>r2_segs := (r2_segs st)[i := sg]\<rparr>)"
    by (simp add: rdf2_membufwrite_def i(1) Let_def s(1) s'(1) sg_def)
  moreover have "map seg_view ((r2_segs st)[i := sg]) = add_bytes i bs (view st)"
    using s s'(3) by (simp add: add_bytes_def map_update seg_view_def sg_def)
  ultimately show ?thesis unfolding effect_def by (intro exI [of _ "st\<lparr>r2_segs := (r2_segs st)[i := sg]\<rparr>"]) (simp add: rest_def)
qed

lemma add_bytes_add: "i < length vs \<Longrightarrow> add_bytes i bs (add_bytes i as vs) = add_bytes i (as @ bs) vs"
  by (simp add: add_bytes_def split: prod.split)

lemma add_bytes_none: "add_bytes i [] vs = vs"
  by (simp add: add_bytes_def split: prod.split)

lemma reserve_effect:
  "rdf2_ok st rs \<Longrightarrow> seg_index (r2_segs st) n = Some i \<Longrightarrow> n \<noteq> 2 \<Longrightarrow>
    effect (reserve_bytes k n b st) st rs [] (add_bytes i (replicate k b) (view st))"
proof (induction k arbitrary: st)
  case 0
  then show ?case by (simp add: effect_none add_bytes_none)
next
  case (Suc k)
  have i: "i < length (r2_segs st)" using seg_index_Some [OF Suc.prems(2)] by simp
  have "effect (andthen (rdf2_membufwrite n [b] st) (reserve_bytes k n b)) st rs ([] @ []) (add_bytes i (replicate (Suc k) b) (view st))"
  proof (rule effect_bind [OF membufwrite_effect [OF Suc.prems]])
    fix st1
    assume *: "rdf2_ok st1 (rs @ [])" "view st1 = add_bytes i [b] (view st)"
    have "effect (reserve_bytes k n b st1) st1 rs [] (add_bytes i (replicate k b) (view st1))"
      using Suc.IH [of st1] * seg_index_add [OF *(2) i] Suc.prems by simp
    then show "effect (reserve_bytes k n b st1) st1 (rs @ []) [] (add_bytes i (replicate (Suc k) b) (view st))"
      using i by (simp add: *(2) add_bytes_add)
  qed
  then show ?case by simp
qed

text \<open>The records and the bytes that a piece of output stands for, in the segment \<open>n\<close> at \<open>here\<close>; nothing when it panics.\<close>

fun out_spec :: "bool \<Rightarrow> u8 \<Rightarrow> i32 \<Rightarrow> i32 \<Rightarrow> i32 \<Rightarrow> rdf2_data \<Rightarrow> (rdfheaderrec list \<times> bytes) option" where
  "out_spec bits64 junk n segment here (OUT_RAWDATA bs) = (if segment = NO_SEG then Some ([], bs) else None)"
| "out_spec bits64 junk n segment here (OUT_RESERVE k) = Some ([], replicate (unat k) junk)"
| "out_spec bits64 junk n segment here (OUT_ADDRESS v sz) =
     (let asize = nat \<bar>sint (ucast sz :: i32)\<bar>
      in if asize \<le> 8 then Some
           (if segment = NO_SEG then []
            else [reloc_of 1 \<lparr>r_reclen = 8, r_segment = ucast n, r_offset = here, r_length = of_nat asize, r_refseg = ucast segment\<rparr>],
            take asize (le_bytes 8 v)) else None)"
| "out_spec bits64 junk n segment here (OUT_REL2ADR v sz) =
     (if segment = n then None
      else if segment \<noteq> NO_SEG \<and> odd segment then Some
        ([SegReloc \<lparr>r_reclen = 8, r_segment = ucast n, r_offset = here, r_length = 2, r_refseg = drop_bit 1 (ucast segment)\<rparr>],
         le_bytes 2 (ucast v :: i32))
      else Some
        ([reloc_of 1 \<lparr>r_reclen = 8, r_segment = ucast (n + 64), r_offset = here, r_length = 2, r_refseg = ucast segment\<rparr>],
         le_bytes 2 (ucast v - (here + ucast sz) :: i32)))"
| "out_spec bits64 junk n segment here (OUT_REL4ADR v sz) =
     (if segment = n \<and> \<not> bits64 \<or> segment \<noteq> NO_SEG \<and> odd segment then None
      else Some
        ([reloc_of 1 \<lparr>r_reclen = 8, r_segment = ucast (n + 64), r_offset = here, r_length = 4, r_refseg = ucast segment\<rparr>],
         le_bytes 4 (ucast v - (here + ucast sz) :: i32)))"
| "out_spec bits64 junk n segment here (OUT_OTHER k) = Some ([], [])"

lemma reloc_then_bytes:
  assumes ok: "rdf2_ok st rs" and i: "seg_index (r2_segs st) n = Some i" "n \<noteq> 2" and r: "r_reclen r = 8" "rty = 1 \<or> rty = 6"
  shows "effect (andthen (write_reloc_rec rty r st) (rdf2_membufwrite n bs)) st rs [reloc_of rty r] (add_bytes i bs (view st))"
proof -
  have "effect (andthen (write_reloc_rec rty r st) (rdf2_membufwrite n bs)) st rs ([reloc_of rty r] @ []) (add_bytes i bs (view st))"
  proof (rule effect_bind [OF write_reloc_effect [OF ok r]])
    fix st1
    assume *: "rdf2_ok st1 (rs @ [reloc_of rty r])" "view st1 = view st"
    then show "effect (rdf2_membufwrite n bs st1) st1 (rs @ [reloc_of rty r]) [] (add_bytes i bs (view st))"
      using membufwrite_effect [OF *(1) _ i(2), of i bs] seg_index_view [OF *(2)] i(1) by simp
  qed
  then show ?thesis by simp
qed

lemma and_one_even: "w AND 1 = 0 \<longleftrightarrow> even w" for w :: "'a::len word"
  by (simp add: and_one_eq even_iff_mod_2_eq_zero)

lemma getsegmentlength_known: "seg_index (r2_segs st) n = Some i \<Longrightarrow> getsegmentlength n st = Inr (sg_length (r2_segs st ! i))"
  by (simp add: getsegmentlength_def)

lemma out_address_effect:
  assumes ok: "rdf2_ok st rs" and i: "seg_index (r2_segs st) n = Some i" "n \<noteq> 2"
  shows "case out_spec bits64 junk n segment (sg_length (r2_segs st ! i)) (OUT_ADDRESS v sz) of
      Some (rs', bs) \<Rightarrow> effect (out_address n v sz segment st) st rs rs' (add_bytes i bs (view st))
    | None \<Rightarrow> \<exists>e. out_address n v sz segment st = Inl e"
proof -
  define asize where "asize = nat \<bar>sint (ucast sz :: i32)\<bar>"
  have fail: "\<exists>e'. andthen x (\<lambda>_. Inl e) = Inl e'" for x :: "rdf2_state result" and e by (cases x) simp_all
  show ?thesis
  proof (cases "asize \<le> 8")
    case True
    then show ?thesis using membufwrite_effect [OF ok i] reloc_then_bytes [OF ok i]
      by (simp add: out_address_def getsegmentlength_known [OF i(1)] asize_def [symmetric])
  next
    case False
    then show ?thesis unfolding out_address_def by (simp only: out_spec.simps asize_def [symmetric] Let_def if_False option.case guard_False fail)
  qed
qed

lemma out_rel2_effect:
  assumes ok: "rdf2_ok st rs" and i: "seg_index (r2_segs st) n = Some i" "n \<noteq> 2"
  shows "case out_spec bits64 junk n segment (sg_length (r2_segs st ! i)) (OUT_REL2ADR v sz) of
      Some (rs', bs) \<Rightarrow> effect (out_rel2 n v sz segment st) st rs rs' (add_bytes i bs (view st))
    | None \<Rightarrow> \<exists>e. out_rel2 n v sz segment st = Inl e"
proof (cases "segment \<noteq> NO_SEG \<and> odd segment")
  case True
  then show ?thesis
    using reloc_then_bytes [OF ok i, of "\<lparr>r_reclen = 8, r_segment = ucast n, r_offset = sg_length (r2_segs st ! i), r_length = 2, r_refseg = ucast segment\<rparr>" 6]
    by (simp add: out_rel2_def getsegmentlength_known [OF i(1)] and_one_even reloc_of_def)
next
  case False
  then show ?thesis using reloc_then_bytes [OF ok i, of _ 1]
    by (auto simp: out_rel2_def getsegmentlength_known [OF i(1)] and_one_even)
qed

lemma out_rel4_effect:
  assumes ok: "rdf2_ok st rs" and i: "seg_index (r2_segs st) n = Some i" "n \<noteq> 2"
  shows "case out_spec bits64 junk n segment (sg_length (r2_segs st ! i)) (OUT_REL4ADR v sz) of
      Some (rs', bs) \<Rightarrow> effect (out_rel4 bits64 n v sz segment st) st rs rs' (add_bytes i bs (view st))
    | None \<Rightarrow> \<exists>e. out_rel4 bits64 n v sz segment st = Inl e"
proof (cases "segment = n \<and> \<not> bits64 \<or> segment \<noteq> NO_SEG \<and> odd segment")
  case True
  then show ?thesis by (auto simp: out_rel4_def guard_def and_one_even)
next
  case False
  then show ?thesis using reloc_then_bytes [OF ok i, of _ 1]
    by (auto simp: out_rel4_def getsegmentlength_known [OF i(1)] guard_def and_one_even)
qed

lemma out_data_effect:
  assumes ok: "rdf2_ok st rs" and i: "seg_index (r2_segs st) n = Some i" "n \<noteq> 2"
  shows "case out_spec bits64 junk n segment (sg_length (r2_segs st ! i)) data of
      Some (rs', bs) \<Rightarrow> effect (out_data bits64 junk n segment (data, st)) st rs rs' (add_bytes i bs (view st))
    | None \<Rightarrow> \<exists>e. out_data bits64 junk n segment (data, st) = Inl e"
proof (cases data)
  case (OUT_ADDRESS v sz)
  then show ?thesis using out_address_effect [OF ok i] by (simp only: out_data_def prod.case rdf2_data.case)
next
  case (OUT_REL2ADR v sz)
  then show ?thesis using out_rel2_effect [OF ok i] by (simp only: out_data_def prod.case rdf2_data.case)
next
  case (OUT_REL4ADR v sz)
  then show ?thesis using out_rel4_effect [OF ok i] by (simp only: out_data_def prod.case rdf2_data.case)
next
  case (OUT_RAWDATA bs)
  then show ?thesis using membufwrite_effect [OF ok i] by (simp add: out_data_def)
next
  case (OUT_RESERVE k)
  then show ?thesis using reserve_effect [OF ok i] i(2) by (simp add: out_data_def)
next
  case (OUT_OTHER k)
  then show ?thesis using effect_none [OF ok] by (simp add: out_data_def add_bytes_none)
qed

section \<open>Every call keeps the invariant\<close>

fun seg_key :: "seg_view \<Rightarrow> i32 \<times> u16" where
  "seg_key (name, number, code, reserved, d) = (number, code)"

abbreviation keys :: "rdf2_state \<Rightarrow> (i32 \<times> u16) list" where "keys st \<equiv> map seg_key (view st)"

text \<open>An operation ends well, with further records in the header and with segments of the given numbers and types.\<close>

definition goes_on :: "rdf2_state result \<Rightarrow> rdfheaderrec list \<Rightarrow> (i32 \<times> u16) list \<Rightarrow> bool" where
  "goes_on x rs ks \<longleftrightarrow> (\<exists>st rs'. x = Inr st \<and> rdf2_ok st (rs @ rs') \<and> keys st = ks)"

lemma goes_onI: "rdf2_ok st rs \<Longrightarrow> keys st = ks \<Longrightarrow> goes_on (Inr st) rs ks"
  unfolding goes_on_def by (metis append_Nil2)

lemma effect_goes_on: "effect x st rs rs' vs \<Longrightarrow> map seg_key vs = ks \<Longrightarrow> goes_on x rs ks"
  unfolding effect_def goes_on_def by blast

lemma goes_on_bind:
  assumes "goes_on x rs ks" and "\<And>st rs'. rdf2_ok st (rs @ rs') \<Longrightarrow> keys st = ks \<Longrightarrow> goes_on (f st) (rs @ rs') ks'"
  shows "goes_on (andthen x f) rs ks'"
  using assms unfolding goes_on_def by (auto, metis append.assoc)

lemma add_bytes_keys [simp]: "map seg_key (add_bytes i bs vs) = map seg_key vs"
proof -
  have "map seg_key (vs[i := v]) = map seg_key vs" if "i < length vs \<Longrightarrow> seg_key v = seg_key (vs ! i)" for v
    using that by (cases "i < length vs") (simp_all add: map_update list_update_beyond, metis list_update_id nth_map)
  then show ?thesis unfolding add_bytes_def by (simp split: prod.split)
qed

lemma symbol_flags_ok:
  "rdf2_ok st rs \<Longrightarrow> rdf2_ok (snd (symbol_flags sp st)) rs \<and> r2_segs (snd (symbol_flags sp st)) = r2_segs st"
  by (auto simp: symbol_flags_def symbol_kind_def rdf2_ok_def complain_def Let_def split: option.split)

lemma deflabel_goes_on:
  assumes ok: "rdf2_ok st rs" and name: "cstring name" "length name < 247"
  shows "goes_on (rdf2_deflabel name segment offset glob special st) rs (keys st)"
proof -
  have len: "unat (of_nat (9 + length name) :: u8) = 9 + length name" "unat (of_nat (7 + length name) :: u8) = 7 + length name"
    "unat (of_nat (4 + length name) :: u8) = 4 + length name"
    using name(2) by (simp_all add: unat_reclen del: of_nat_add)
  have common: "goes_on (rdf2_common name segment offset special st) rs (keys st)"
    unfolding rdf2_common_def Let_def case_prod_beta
    by (rule effect_goes_on, rule write_common_effect) (use ok name len in \<open>auto split: option.split\<close>)
  have "goes_on (rdf2_symbol name segment offset (symbol_flags special st)) rs (keys st)" if "rdf2_ok st rs" for st rs
  proof -
    obtain fl st' where fs: "symbol_flags special st = (fl, st')" by (cases "symbol_flags special st")
    then have ok': "rdf2_ok st' rs" "r2_segs st' = r2_segs st" using symbol_flags_ok [OF that, of special] by simp_all
    note w = effect_goes_on [OF write_import_effect] effect_goes_on [OF write_export_effect]
    show ?thesis
      unfolding fs rdf2_symbol_def prod.case
      using ok' name len by (auto intro!: goes_onI w split: option.split)
  qed
  note symbol = this
  show ?thesis
    unfolding rdf2_deflabel_def
    using ok common symbol by (auto intro!: goes_onI goes_on_bind)
qed

text \<open>The type that the text behind the name of a segment declares.\<close>

definition declared_code :: "bytes \<Rightarrow> i32" where
  "declared_code p =
     (if p = [] then - 1
      else
        let p = takeWhile (\<lambda>c. c \<noteq> 0x2C) p
        in case find (\<lambda>(s, n). nasm_stricmp p s = 0) segment_types of
             Some (_, n) \<Rightarrow> n
           | None \<Rightarrow> let (v, err) = read_value p in if err then 3 else ucast v)"

lemma segment_attributes_ok:
  assumes "rdf2_ok st rs"
  obtains reserved st' where "segment_attributes p st = (declared_code p, reserved, st')" "rdf2_ok st' rs" "r2_segs st' = r2_segs st"
proof -
  have code: "fst (segment_code p st) = fst (segment_code p st')" for p st st'
    by (auto simp: segment_code_def Let_def split: option.split prod.split)
  have "segment_code p st = (fst (segment_code p st), snd (segment_code p st))" "rdf2_ok st rs \<Longrightarrow> rdf2_ok (snd (segment_code p st)) rs"
    "r2_segs (snd (segment_code p st)) = r2_segs st" for p st
    by (auto simp: segment_code_def Let_def split: option.split prod.split)
  then have "fst (segment_attributes p st) = declared_code p \<and> rdf2_ok (snd (snd (segment_attributes p st))) rs \<and>
      r2_segs (snd (snd (segment_attributes p st))) = r2_segs st"
    using assms
    by (simp add: segment_attributes_def declared_code_def Let_def case_prod_beta segment_code_def split: option.split)
  then show ?thesis using that [of "fst (snd (segment_attributes p st))" "snd (snd (segment_attributes p st))"]
    by (metis prod.collapse)
qed

lemma new_segment_goes_on:
  assumes ok: "rdf2_ok st rs" and room: "length (r2_segs st) < RDF_MAXSEGS"
  shows "\<exists>k. goes_on (andthen (new_segment n code reserved st) (\<lambda>(i, st). Inr st)) rs (keys st @ [(k, ucast code)])"
proof -
  obtain s0 where s0: "saa_init 1 = Inr s0" "saa_ok s0" "saa_data s0 = []" "wptr s0 = 0" using saa_init_ok [of 1] by auto
  then have fresh: "saa_at_end s0" "saa_bytes s0 = []" using length_saa_data [of s0] by (simp_all add: saa_at_end_def saa_bytes_def)
  define sg where "sg = \<lparr>sg_name = n, sg_number = signed_drop_bit 1 (r2_next st), sg_type = ucast code, sg_reserved = ucast reserved,
    sg_length = 0, sg_saa = Some s0\<rparr>"
  define st' where "st' = st\<lparr>r2_next := r2_next st + 2, r2_segs := r2_segs st @ [sg]\<rparr>"
  have "rdf2_ok st' rs"
    using ok room fresh by (auto simp: st'_def rdf2_ok_def seg_ok_def sg_def nth_append less_Suc_eq)
  moreover have "keys st' = keys st @ [(signed_drop_bit 1 (r2_next st), ucast code)]" by (simp add: st'_def seg_view_def sg_def del: One_nat_def)
  moreover have "new_segment n code reserved st = Inr (r2_next st, st')"
    using ok room s0(1) by (simp add: new_segment_def seg_alloc_def rdf2_ok_def and_one_even st'_def sg_def del: One_nat_def)
  ultimately show ?thesis by (intro exI [of _ "signed_drop_bit 1 (r2_next st)"]) (simp add: goes_onI)
qed

lemma section_goes_on:
  assumes ok: "rdf2_ok st rs" and room: "length (r2_segs st) < RDF_MAXSEGS"
    and code: "\<And>n. name = Some n \<Longrightarrow> ucast (declared_code (tl (dropWhile (\<lambda>c. \<not> isspace c) n))) \<noteq> (0 :: u16)"
  shows "\<exists>ks. goes_on (andthen (rdf2_section_names name st) (\<lambda>(i, st). Inr st)) rs (keys st @ ks) \<and>
    length ks \<le> 1 \<and> (\<forall>k \<in> set ks. snd k \<noteq> 0)"
proof (cases name)
  case None
  then show ?thesis using ok by (intro exI [of _ "[]"]) (simp add: rdf2_section_names_def goes_onI)
next
  case (Some n)
  define p where "p = tl (dropWhile (\<lambda>c. \<not> isspace c) n)"
  define m where "m = takeWhile (\<lambda>c. \<not> isspace c) n"
  obtain reserved st' where a: "segment_attributes p st = (declared_code p, reserved, st')" "rdf2_ok st' rs" "r2_segs st' = r2_segs st"
    using segment_attributes_ok [OF ok] .
  have nz: "ucast (declared_code p) \<noteq> (0 :: u16)" using code [OF Some] by (simp add: p_def)
  have eq: "rdf2_section_names name st = (case find (\<lambda>s. strcmp m (sg_name s) = 0) (r2_segs st') of
      Some s \<Rightarrow> Inr (sg_number s * 2, if declared_code p \<noteq> - 1 \<or> reserved \<noteq> 0 then complain MRedeclared st' else st')
    | None \<Rightarrow> if declared_code p = - 1 then new_segment m 3 reserved (complain MNoType st') else new_segment m (declared_code p) reserved st')"
    unfolding rdf2_section_names_def Some option.case Let_def p_def [symmetric] a(1) prod.case m_def [symmetric] ..
  show ?thesis
  proof (cases "find (\<lambda>s. strcmp m (sg_name s) = 0) (r2_segs st')")
    case None
    have room': "length (r2_segs st') < RDF_MAXSEGS" using room a(3) by simp
    note new = new_segment_goes_on [OF a(2) room', of m "declared_code p" reserved]
      new_segment_goes_on [of "complain MNoType st'" rs m 3 reserved]
    note eq = eq [unfolded None option.case]
    have "\<exists>k c. goes_on (andthen (rdf2_section_names name st) (\<lambda>(i, st). Inr st)) rs (keys st @ [(k, c)]) \<and> c \<noteq> 0"
    proof (cases "declared_code p = - 1")
      case True
      with new(2) a(2,3) room' obtain k where "goes_on (andthen (rdf2_section_names name st) (\<lambda>(i, st). Inr st)) rs (keys st @ [(k, 3)])"
        by (auto simp: eq)
      then show ?thesis by (intro exI [of _ k] exI [of _ 3]) simp
    next
      case False
      with new(1) a(3) obtain k where
        "goes_on (andthen (rdf2_section_names name st) (\<lambda>(i, st). Inr st)) rs (keys st @ [(k, ucast (declared_code p))])"
        by (auto simp: eq)
      then show ?thesis using nz by blast
    qed
    then obtain k c where "goes_on (andthen (rdf2_section_names name st) (\<lambda>(i, st). Inr st)) rs (keys st @ [(k, c)])" "c \<noteq> 0" by blast
    then show ?thesis by (intro exI [of _ "[(k, c)]"]) simp
  next
    case (Some s)
    then show ?thesis using a by (intro exI [of _ "[]"]) (simp add: eq goes_onI)
  qed
qed

text \<open>
  The calls that the theorem is about: names of a length that a record can count, segments of another
  type than the end mark, and output that is not a panic.
\<close>

definition proper :: "rdf2_call \<Rightarrow> bool" where
  "proper c =
     (case c of
        Section name \<Rightarrow> (case name of None \<Rightarrow> True
          | Some n \<Rightarrow> ucast (declared_code (tl (dropWhile (\<lambda>c. \<not> isspace c) n))) \<noteq> (0 :: u16))
      | Label name _ _ _ _ \<Rightarrow> cstring name \<and> length name < 247
      | Output bits64 _ segto data segment _ \<Rightarrow> signed_drop_bit 1 segto = (2 :: i32) \<or> out_spec bits64 0 (signed_drop_bit 1 segto) segment 0 data \<noteq> None
      | Directive _ v _ \<Rightarrow> cstring v)"

lemma out_spec_None: "out_spec bits64 junk n segment here data = None \<longleftrightarrow> out_spec bits64 0 n segment 0 data = None"
  by (cases data) (simp_all add: Let_def)

lemma out_goes_on:
  assumes ok: "rdf2_ok st rs" and "proper (Output bits64 junk segto data segment wrt)"
  shows "goes_on (rdf2_out bits64 junk segto data segment wrt st) rs (keys st)"
proof -
  define n where "n = (signed_drop_bit 1 segto :: i32)"
  define st1 where "st1 = (if wrt \<noteq> NO_SEG then complain MWrt st else st)"
  have st1: "rdf2_ok st1 rs" "r2_segs st1 = r2_segs st" using ok by (simp_all add: st1_def)
  have bss: "rdf2_ok (st\<lparr>r2_bsslength := v\<rparr>) rs" if "rdf2_ok st rs" for st v using that by (simp add: rdf2_ok_def)
  show ?thesis
  proof (cases "segto = NO_SEG \<or> seg_index (r2_segs st) n = None")
    case True
    then show ?thesis using ok by (auto simp: rdf2_out_def Let_def n_def goes_onI split: rdf2_data.split)
  next
    case False
    then obtain i where i: "seg_index (r2_segs st1) n = Some i" using st1(2) by auto
    from False have r: "rdf2_out bits64 junk segto data segment wrt st = out_data bits64 junk n segment (bss_reserves n data st1)"
      by (auto simp: rdf2_out_def n_def st1_def Let_def simp del: One_nat_def)
    show ?thesis
    proof (cases "n = 2")
      case True
      then show ?thesis unfolding r
        using st1 by (cases data) (simp_all add: out_data_def bss_reserves_def goes_onI bss)
    next
      case n: False
      then obtain rs' bs where "out_spec bits64 junk n segment (sg_length (r2_segs st1 ! i)) data = Some (rs', bs)"
        using assms(2) out_spec_None [of bits64 junk n segment "sg_length (r2_segs st1 ! i)" data]
        by (cases "out_spec bits64 junk n segment (sg_length (r2_segs st1 ! i)) data") (auto simp: proper_def n_def simp del: One_nat_def)
      with out_data_effect [OF st1(1) i n, of bits64 junk segment data]
      have "effect (out_data bits64 junk n segment (data, st1)) st1 rs rs' (add_bytes i bs (view st1))" by simp
      then show ?thesis unfolding r using n st1(2) by (auto simp: bss_reserves_def intro!: effect_goes_on)
    qed
  qed
qed

lemma directive_goes_on: "rdf2_ok st rs \<Longrightarrow> cstring v \<Longrightarrow> goes_on (rdf2_directive d v pass st) rs (keys st)"
proof -
  assume *: "rdf2_ok st rs" "cstring v"
  have "unat (of_nat (length v + 1) :: u8) = length v + 1" if "\<not> MODLIB_NAME_MAX \<le> length v"
    using that by (intro unat_reclen) (simp add: MODLIB_NAME_MAX_def)
  then show ?thesis using *
    by (auto simp: rdf2_directive_def not_le split: rdf2_name.split
      intro!: goes_onI effect_goes_on [OF write_dll_effect] effect_goes_on [OF write_modname_effect])
qed

fun is_section :: "rdf2_call \<Rightarrow> bool" where
  "is_section (Section name) = True"
| "is_section _ = False"

lemma step_goes_on:
  assumes "rdf2_ok st rs" and "proper c" and "is_section c \<Longrightarrow> length (r2_segs st) < RDF_MAXSEGS"
  shows "\<exists>ks. goes_on (rdf2_step st c) rs (keys st @ ks) \<and> length ks \<le> (if is_section c then 1 else 0) \<and> (\<forall>k \<in> set ks. snd k \<noteq> 0)"
proof (cases c)
  case (Section name)
  have "\<exists>ks. goes_on (andthen (rdf2_section_names name st) (\<lambda>(i, st). Inr st)) rs (keys st @ ks) \<and> length ks \<le> 1 \<and> (\<forall>k \<in> set ks. snd k \<noteq> 0)"
    by (rule section_goes_on [OF assms(1)]) (use assms(2,3) Section in \<open>simp_all add: proper_def\<close>)
  then show ?thesis by (simp add: Section rdf2_step_def)
qed (use assms in \<open>simp_all del: map_map One_nat_def add: rdf2_step_def deflabel_goes_on out_goes_on directive_goes_on proper_def\<close>)

lemma steps_goes_on:
  assumes "rdf2_ok st rs" and "\<forall>c \<in> set cs. proper c" and "length (r2_segs st) + length (filter is_section cs) \<le> RDF_MAXSEGS"
    and "\<forall>k \<in> set (keys st). snd k \<noteq> 0"
  shows "\<exists>st' rs'. steps rdf2_step st cs = Inr st' \<and> rdf2_ok st' (rs @ rs') \<and> (\<forall>k \<in> set (keys st'). snd k \<noteq> 0)"
  using assms
proof (induction cs arbitrary: st rs)
  case Nil
  then show ?case by (intro exI [of _ st] exI [of _ "[]"]) simp
next
  case (Cons c cs)
  have room: "length (r2_segs st) < RDF_MAXSEGS" if "is_section c" using Cons.prems(3) that by simp
  obtain ks where ks: "goes_on (rdf2_step st c) rs (keys st @ ks)" "length ks \<le> (if is_section c then 1 else 0)" "\<forall>k \<in> set ks. snd k \<noteq> 0"
    using step_goes_on [OF Cons.prems(1), of c] room Cons.prems(2) by (metis list.set_intros(1))
  then obtain st1 rs1 where 1: "rdf2_step st c = Inr st1" "rdf2_ok st1 (rs @ rs1)" "keys st1 = keys st @ ks"
    by (auto simp: goes_on_def)
  have "length (r2_segs st1) = length (r2_segs st) + length ks" using arg_cong [OF 1(3), of length] by simp
  then have "length (r2_segs st1) + length (filter is_section cs) \<le> RDF_MAXSEGS" using Cons.prems(3) ks(2) by (auto split: if_splits)
  then obtain st' rs' where "steps rdf2_step st1 cs = Inr st'" "rdf2_ok st' ((rs @ rs1) @ rs')" "\<forall>k \<in> set (keys st'). snd k \<noteq> 0"
    using Cons.IH [OF 1(2)] Cons.prems(2,4) ks(3) by (auto simp: 1(3) simp del: map_map set_map list.set_map)
  then show ?case by (intro exI [of _ st'] exI [of _ "rs1 @ rs'"]) (simp add: 1(1))
qed

lemma init_ok:
  obtains st where "rdf2_init 0 far = Inr st" "rdf2_ok st []" "view st =
    [(bytes_of ''.text'', 0, 1, 0, []), (bytes_of ''.data'', 1, 2, 0, []), (bytes_of ''.bss'', 2, 0xFFFF, 0, [])]"
    "r2_farsym st = far" "r2_bsslength st = 0"
proof -
  obtain s0 where s0: "saa_init 1 = Inr s0" "saa_ok s0" "saa_data s0 = []" "wptr s0 = 0" using saa_init_ok [of 1] by auto
  then have "saa_at_end s0" "saa_bytes s0 = []" using length_saa_data [of s0] by (simp_all add: saa_at_end_def saa_bytes_def)
  define st where "st = \<lparr>r2_segs =
      [\<lparr>sg_name = bytes_of ''.text'', sg_number = 0, sg_type = 1, sg_reserved = 0, sg_length = 0, sg_saa = Some s0\<rparr>,
       \<lparr>sg_name = bytes_of ''.data'', sg_number = 1, sg_type = 2, sg_reserved = 0, sg_length = 0, sg_saa = Some s0\<rparr>,
       \<lparr>sg_name = bytes_of ''.bss'', sg_number = 2, sg_type = 0xFFFF, sg_reserved = 0, sg_length = 0, sg_saa = None\<rparr>],
    r2_header = s0, r2_bsslength = 0, r2_headerlength = 0, r2_farsym = far, r2_next = 6, r2_messages = []\<rparr>"
  have "rdf2_init 0 far = Inr st"
    by (simp add: rdf2_init_def s0(1) seg_alloc_def st_def del: One_nat_def)
  moreover have "rdf2_ok st []"
    by (simp add: st_def rdf2_ok_def seg_ok_def RDF_MAXSEGS_def \<open>saa_at_end s0\<close> \<open>saa_bytes s0 = []\<close>)
       (simp add: numeral_3_eq_3 less_Suc_eq numeral_2_eq_2 \<open>saa_at_end s0\<close> \<open>saa_bytes s0 = []\<close>)
  moreover have "view st =
      [(bytes_of ''.text'', 0, 1, 0, []), (bytes_of ''.data'', 1, 2, 0, []), (bytes_of ''.bss'', 2, 0xFFFF, 0, [])]"
    "r2_farsym st = far" "r2_bsslength st = 0"
    by (simp_all add: st_def seg_view_def \<open>saa_bytes s0 = []\<close>)
  ultimately show ?thesis by (rule that)
qed

section \<open>The file\<close>

text \<open>The segments of the module: all but BSS, which is the third.\<close>

fun seg_contents :: "seg_view \<Rightarrow> segment" where
  "seg_contents (name, number, code, reserved, d) = (code, ucast number, reserved, d)"

definition contents :: "rdf2_state \<Rightarrow> segment list" where
  "contents st = map seg_contents (take 2 (view st) @ drop 3 (view st))"

lemma contents_kept: "contents st = map (seg_contents \<circ> seg_view) (kept_segs st)"
  by (simp add: contents_def kept_segs_def take_map drop_map)

lemma saa_fpwrite_bytes: "saa_at_end s \<Longrightarrow> \<exists>s'. saa_fpwrite s = Inr (map Some (saa_bytes s), s')"
proof -
  assume s: "saa_at_end s"
  have "Some (the x) = x" if "x \<in> set (saa_data s)" for x using s that by (cases x) (auto simp: saa_at_end_def)
  then have "map Some (saa_bytes s) = saa_data s" by (auto simp: saa_bytes_def intro!: map_idI)
  then show ?thesis using saa_fpwrite_ok [of s] s by (auto simp: saa_at_end_def)
qed

lemma write_segs_ok: "\<forall>sg \<in> set ss. seg_ok sg \<Longrightarrow> write_segs ss = Inr (map Some (concat (map seg_image (map (seg_contents \<circ> seg_view) ss))))"
proof (induction ss)
  case (Cons sg ss)
  obtain s where s: "sg_saa sg = Some s" "saa_at_end s" "sg_length sg = of_nat (length (saa_bytes s))"
    using Cons.prems by (auto simp: seg_ok_def)
  obtain s' where "saa_fpwrite s = Inr (map Some (saa_bytes s), s')" using saa_fpwrite_bytes [OF s(2)] by blast
  then show ?case using Cons by (simp add: s seg_view_def seg_image_def)
qed simp

lemma kept_segs_ok: "rdf2_ok st rs \<Longrightarrow> \<forall>sg \<in> set (kept_segs st). seg_ok sg"
  by (fastforce simp: rdf2_ok_def kept_segs_def in_set_conv_nth)

lemma kept_segs_length:
  "\<forall>sg \<in> set ss. seg_ok sg \<Longrightarrow>
    foldl (\<lambda>l sg. l + (10 + sg_length sg)) l ss = l + of_nat (length (concat (map seg_image (map (seg_contents \<circ> seg_view) ss))))"
  by (induction ss arbitrary: l) (auto simp: seg_ok_def seg_view_def length_seg_image algebra_simps)

text \<open>The records that the cleanup writes, BSS included.\<close>

definition bss_records :: "rdf2_state \<Rightarrow> rdfheaderrec list" where
  "bss_records st = (if r2_bsslength st \<noteq> 0 then [BSS \<lparr>b_reclen = 4, b_amount = r2_bsslength st\<rparr>] else [])"

lemma cleanup_ok:
  assumes ok: "rdf2_ok st rs"
  defines "file objlen \<equiv> module_image objlen (concat (map rec_bytes (rs @ bss_records st))) (contents st)"
  shows "rdf2_cleanup st = Inr (map Some (file (of_nat (length (file 0) - 10))))"
proof -
  obtain st' where st': "(if r2_bsslength st \<noteq> 0 then write_bss_rec \<lparr>b_reclen = 4, b_amount = r2_bsslength st\<rparr> st else Inr st) = Inr st'"
    "rdf2_ok st' (rs @ bss_records st)" "contents st' = contents st"
  proof (cases "r2_bsslength st = 0")
    case True
    then show ?thesis using ok by (intro that [of st]) (simp_all add: bss_records_def)
  next
    case False
    define r where "r = BSS \<lparr>b_reclen = 4, b_amount = r2_bsslength st\<rparr>"
    have "concat [[5], [4], le_bytes 4 (r2_bsslength st)] = rec_bytes r" "readable r" "sized r" "rec_reclen r = 4"
      by (simp_all add: r_def rec_bytes_def rec_body_def rec_fields_def rec_type_def rec_reclen_def data_bytes_def
        readable_def writable_def sized_def)
    from write_pieces_effect [OF ok this] obtain st1 where w: "write_pieces [[5], [4], le_bytes 4 (r2_bsslength st)] 4 st = Inr st1"
      "rdf2_ok st1 (rs @ [r])" "view st1 = view st"
      by (auto simp: effect_def simp del: map_map)
    show ?thesis using False w
      by (intro that [of st1]) (simp_all add: write_bss_rec_def bss_records_def r_def contents_def del: map_map)
  qed
  define hd where "hd = concat (map rec_bytes (rs @ bss_records st))"
  define ss where "ss = contents st"
  have h: "saa_at_end (r2_header st')" "saa_bytes (r2_header st') = hd" "r2_headerlength st' = of_nat (length hd)"
    using st'(2) by (simp_all add: rdf2_ok_def hd_def)
  obtain s' where fp: "saa_fpwrite (r2_header st') = Inr (map Some hd, s')" using saa_fpwrite_bytes [OF h(1)] h(2) by auto
  have w: "write_segs (kept_segs st') = Inr (map Some (concat (map seg_image ss)))"
    using write_segs_ok [OF kept_segs_ok [OF st'(2)]] st'(3) by (simp only: ss_def contents_kept)
  have "length (file 0) - 10 = length hd + 4 + length (concat (map seg_image ss)) + 10"
    by (simp add: file_def hd_def [symmetric] ss_def [symmetric] module_image_def RDOFFId segs_image_def del: map_append concat_append)
  then have l: "foldl (\<lambda>l sg. l + (10 + sg_length sg)) (r2_headerlength st' + 4) (kept_segs st') + 10 = of_nat (length (file 0) - 10)"
    using kept_segs_length [OF kept_segs_ok [OF st'(2)]] by (simp add: h(3) ss_def st'(3) contents_kept [symmetric] del: map_map)
  have z: "le_bytes 4 (0 :: i32) @ le_bytes 4 (0 :: i32) @ le_bytes 2 (0 :: u16) = replicate 10 0"
    by (simp add: le_bytes_2 le_bytes_4) (simp add: eval_nat_numeral)
  have img: "file x = module_image x hd ss" for x by (simp only: file_def hd_def ss_def)
  define L :: i32 where "L = of_nat (length (file 0) - 10)"
  have "rdf2_cleanup st = Inr (map Some (RDOFFId @ le_bytes 4 L @ le_bytes 4 (of_nat (length hd) :: i32)) @ map Some hd @
      map Some (concat (map seg_image ss)) @ map Some (replicate 10 0))"
    unfolding rdf2_cleanup_def st'(1) andthen_simps Let_def l [folded L_def] fp w prod.case z by (simp only: h(3))
  also have "\<dots> = Inr (map Some (file L))"
    by (simp only: img module_image_def segs_image_def map_append append_assoc)
  finally show ?thesis unfolding L_def .
qed

section \<open>Properties\<close>

lemma seg_index_first: "view st = (name, n, code, reserved, d) # vs \<Longrightarrow> seg_index (r2_segs st) n = Some 0"
  by (simp add: seg_index_eq upt_rec del: map_map)

lemma init_text: obtains st where "rdf2_init 0 far = Inr st" "rdf2_ok st []" "seg_index (r2_segs st) 0 = Some 0"
  using init_ok [of far] by (metis seg_index_first)


lemma rdf2_out_effect:
  assumes "rdf2_ok st rs" and "segto \<noteq> NO_SEG" and "seg_index (r2_segs st) (signed_drop_bit 1 segto) = Some i"
    and "signed_drop_bit 1 segto \<noteq> (2 :: i32)"
  shows "case out_spec bits64 junk (signed_drop_bit 1 segto) segment (of_nat (length (snd (snd (snd (snd (view st ! i))))))) data of
      Some (rs', bs) \<Rightarrow> effect (rdf2_out bits64 junk segto data segment NO_SEG st) st rs rs' (add_bytes i bs (view st))
    | None \<Rightarrow> \<exists>e. rdf2_out bits64 junk segto data segment NO_SEG st = Inl e"
proof -
  define n where "n = (signed_drop_bit 1 segto :: i32)"
  note a = assms(3,4) [folded n_def]
  obtain s where s: "sg_saa (r2_segs st ! i) = Some s" "saa_at_end s" "sg_length (r2_segs st ! i) = of_nat (length (saa_bytes s))" "i \<noteq> 2"
    "i < length (r2_segs st)"
    using kept_seg [OF assms(1) a] .
  have eq: "rdf2_out bits64 junk segto data segment NO_SEG st = out_data bits64 junk n segment (data, st)"
    using assms(2) a by (simp add: rdf2_out_def n_def [symmetric] bss_reserves_def del: One_nat_def)
  have here: "of_nat (length (snd (snd (snd (snd (view st ! i)))))) = sg_length (r2_segs st ! i)" using s by (simp add: seg_view_def)
  show ?thesis using out_data_effect [OF assms(1) a, of bits64 junk segment data] unfolding n_def [symmetric] eq here .
qed



definition demo_calls :: "rdf2_call list" where
  "demo_calls = [Output False 0 0 (OUT_RAWDATA [0x90, 0xC3]) NO_SEG NO_SEG, Output False 0 2 (OUT_ADDRESS 5 4) 0 NO_SEG]"

lemma demo_proper: "\<forall>c \<in> set demo_calls. proper c" "3 + length (filter is_section demo_calls) \<le> RDF_MAXSEGS"
  by (simp_all add: demo_calls_def proper_def RDF_MAXSEGS_def)

lemma demo_run:
  assumes "rdf2_init 0 False = Inr st0"
  shows "\<exists>st rs. steps rdf2_step st0 demo_calls = Inr st \<and> rdf2_ok st rs \<and> r2_bsslength st = 0 \<and>
    contents st = [(1, 0, 0, [0x90, 0xC3]), (2, 1, 0, [5, 0, 0, 0])] \<and> length (concat (map rec_bytes rs)) = 10"
proof -
  obtain st where st: "rdf2_init 0 False = Inr st" "rdf2_ok st []" "view st =
    [(bytes_of ''.text'', 0, 1, 0, []), (bytes_of ''.data'', 1, 2, 0, []), (bytes_of ''.bss'', 2, 0xFFFF, 0, [])]" "r2_bsslength st = 0"
    by (rule init_ok)
  have "st = st0" using st(1) assms by simp
  note st0 = st(2-4) [unfolded this]
  have i: "seg_index (r2_segs st) 0 = Some 0" "seg_index (r2_segs st) 1 = Some 1"
    if "view st = [(bytes_of ''.text'', 0, 1, 0, d0), (bytes_of ''.data'', 1, 2, 0, d1), (bytes_of ''.bss'', 2, 0xFFFF, 0, [])]" for st d0 d1
    by (simp_all add: seg_index_eq that upt_rec del: map_map)
  have "effect (rdf2_out False 0 0 (OUT_RAWDATA [0x90, 0xC3]) NO_SEG NO_SEG st0) st0 [] [] (add_bytes 0 [0x90, 0xC3] (view st0))"
    using rdf2_out_effect [OF st0(1), of 0 0 False 0 "OUT_RAWDATA [0x90, 0xC3]" NO_SEG] i(1) [OF st0(2)] by simp
  then obtain st1 where st1: "rdf2_out False 0 0 (OUT_RAWDATA [0x90, 0xC3]) NO_SEG NO_SEG st0 = Inr st1" "rdf2_ok st1 []" "rest st1 = rest st0"
      and v1: "view st1 = [(bytes_of ''.text'', 0, 1, 0, [0x90, 0xC3]), (bytes_of ''.data'', 1, 2, 0, []), (bytes_of ''.bss'', 2, 0xFFFF, 0, [])]"
    unfolding effect_def st0(2) by (auto simp: add_bytes_def simp del: map_map)
  define r where "r = Reloc \<lparr>r_reclen = 8, r_segment = 1, r_offset = 0, r_length = 4, r_refseg = 0\<rparr>"
  have "take 4 (le_bytes 8 (5 :: i64)) = [5, 0, 0, 0]" by (simp add: le_bytes_def upt_rec)
  moreover have "reloc_of 1 \<lparr>r_reclen = 8, r_segment = 1, r_offset = 0, r_length = 4, r_refseg = 0\<rparr> = r" by (simp add: reloc_of_def r_def)
  ultimately have "effect (rdf2_out False 0 2 (OUT_ADDRESS 5 4) 0 NO_SEG st1) st1 [] [r] (add_bytes 1 [5, 0, 0, 0] (view st1))"
    using rdf2_out_effect [OF st1(2), of 2 1 False 0 "OUT_ADDRESS 5 4" 0] i(2) [OF v1] by (simp add: v1 del: map_map)
  then obtain st2 where st2: "rdf2_out False 0 2 (OUT_ADDRESS 5 4) 0 NO_SEG st1 = Inr st2" "rdf2_ok st2 [r]" "rest st2 = rest st1"
      and v2: "view st2 = [(bytes_of ''.text'', 0, 1, 0, [0x90, 0xC3]), (bytes_of ''.data'', 1, 2, 0, [5, 0, 0, 0]), (bytes_of ''.bss'', 2, 0xFFFF, 0, [])]"
    unfolding effect_def v1 by (auto simp: add_bytes_def simp del: map_map)
  have "contents st2 = [(1, 0, 0, [0x90, 0xC3]), (2, 1, 0, [5, 0, 0, 0])]" unfolding contents_def v2 by simp
  moreover have "length (rec_bytes r) = 10" by (simp add: r_def record_simps)
  ultimately show ?thesis using st1 st2 st0(3)
    by (intro exI [of _ st2] exI [of _ "[r]"]) (simp add: demo_calls_def rdf2_step_def rest_def del: map_map)
qed






text \<open>
  The check for references inside a segment compares the number of the assembler, which is even,
  with that of the format, which is half of it: a relative reference from one segment to the other
  whose number is half as large ends in a panic, whatever the distance.
\<close>

theorem rdf2_reference_panic:
  assumes "2 * n = segto" and "n \<noteq> segto" and "seg_index (r2_segs st) n = Some i" and "sint n < 2 ^ 30" and "3 \<le> sint n"
  shows "rdf2_out bits64 junk segto (OUT_REL2ADR v sz) n NO_SEG st = Inl AssertFailed \<and>
    rdf2_out False junk segto (OUT_REL4ADR v sz) n NO_SEG st = Inl AssertFailed"
proof -
  have small: "sint (word_of_int x :: i32) = x" if "3 \<le> x" "x < 2 ^ 31" for x
    using that by (simp add: int_word_sint)
  have "sint (word_of_int (2 * sint n) :: i32) = 2 * sint n" by (rule small) (use assms(4,5) in auto)
  moreover have "word_of_int (2 * sint n) = segto" using assms(1) by simp
  ultimately have "sint segto = 2 * sint n" by (simp only:)
  then have "sint (signed_drop_bit 1 segto) = sint n" by (simp add: sint_signed_drop_bit_eq drop_bit_eq_div)
  then have "word_of_int (sint (signed_drop_bit 1 segto)) = (word_of_int (sint n) :: i32)" by (simp only:)
  then have h: "signed_drop_bit 1 segto = n" by (simp del: One_nat_def)
  moreover have "segto \<noteq> NO_SEG" "n \<noteq> 2" using assms(5) h \<open>sint segto = 2 * sint n\<close> by auto
  ultimately show ?thesis using assms(3)
    by (simp add: rdf2_out_def bss_reserves_def out_data_def out_rel2_def out_rel4_def)
qed

definition demo_state :: rdf2_state where
  "demo_state = \<lparr>r2_segs = map (\<lambda>n. \<lparr>sg_name = [0x61 + of_nat n], sg_number = of_nat n, sg_type = 1, sg_reserved = 0, sg_length = 0, sg_saa = None\<rparr>) [0..<7],
     r2_header = saa_sample, r2_bsslength = 0, r2_headerlength = 0, r2_farsym = False, r2_next = 14, r2_messages = []\<rparr>"

theorem rdf2_reference_panic_witness:
  "rdf2_out False 0 12 (OUT_REL4ADR 100 4) 6 NO_SEG demo_state = Inl AssertFailed"
proof -
  have "seg_index (r2_segs demo_state) 6 = Some 6" by (simp add: demo_state_def seg_index_def upt_rec)
  from rdf2_reference_panic [OF _ _ this] show ?thesis by simp
qed

end
