(* ===== verification/Spec2Isabelle.thy ===== *)
theory Spec2Isabelle
  imports Raa Saa RbTree NasmString Crc64 HashTbl StrTbl Quote StrFunc Numbers Vectors Eval Precedence SyncHeap Disp8 Md5 Md5Vector PermText Segments Labels Passes StdScan TextEval Crc RdTables Rdf OutRdf2
begin

text \<open>
  A verification library for the core of the Netwide Assembler, the largest program of the
  repository: \<open>src/nasm-2.1.4-vs-proj/src\<close>, the paths below being relative to it. Every definition
  is a translation of C code, or of what the C code is compared with; every integer has the width
  the code gives it.

  \<^bold>\<open>The program.\<close> \<open>main\<close> runs passes over the source until no symbol moves any more
  (\<open>asm/nasm.c\<close>). In a pass each line goes through the preprocessor, the scanner
  (\<open>asm/stdscan.c\<close>) and the parser, which hands the expressions of the line to the evaluator
  (\<open>asm/eval.c\<close>). Labels go into the symbol table (\<open>asm/labels.c\<close>), which is a hash table
  (\<open>nasmlib/hashtbl.c\<close>) under a CRC (\<open>nasmlib/crc64.c\<close>); the offset of each segment is in a random
  access array (\<open>nasmlib/raa.c\<close>). The output formats collect bytes in sequential access arrays
  (\<open>nasmlib/saa.c\<close>), names in string tables (\<open>output/strtbl.c\<close>) and addresses in trees
  (\<open>nasmlib/rbtree.c\<close>). The disassembler keeps its synchronisation points in a heap
  (\<open>disasm/sync.c\<close>).

  \<^bold>\<open>Conventions\<close> (theory \<open>Prelude\<close>). A C integer is a \<open>word\<close> of its width, read with \<open>uint\<close> or
  \<open>sint\<close>; a string is the list of its bytes without the null byte, and reading at its end gives
  the null byte; an execution that the language leaves undefined, that fails an assertion or that
  would write out of bounds is a value of the left side of a sum, so that a theorem whose
  conclusion is \<open>Inr\<close> says that none of this happens. Structures that share storage keep it in an
  explicit store where it matters (the buffer of \<open>Quote\<close>, the blocks of \<open>PermText\<close>, the texts of
  tokens in \<open>StdScan\<close>). Allocation succeeds; the contents of fresh memory are unknown.

  \<^bold>\<open>Arrays, trees and tables.\<close>
  \<^item> \<open>Raa\<close>: \<open>raa.c\<close>. \<open>real_raa\<close> is the union of leaves and branches; \<open>real_raa_read\<close> and
    \<open>real_raa_write\<close> are the functions of that name. Sequences of writes below \<open>2 ^ 30\<close> implement a
    finite map; beyond that a shift is undefined.
  \<^item> \<open>Saa\<close>: \<open>saa.c\<close>, with its two cursors. The array is a byte string with random access; the
    locale \<open>byte_sink\<close> is what its clients append through, and the theorem on streams follows from
    its interpretation. The LEB128 writers are decoded again, for all arguments for which they end.
  \<^item> \<open>RbTree\<close>: \<open>rbtree.c\<close>. Order, balance, height; the locale \<open>address_map\<close> is the refinement to a
    list of entries.
  \<^item> \<open>HashTbl\<close> and \<open>Crc64\<close>: \<open>hashtbl.c\<close>, \<open>crc64.c\<close>. The locale \<open>hash_keys\<close> has the two
    disciplines of keys as interpretations, exact and up to case. Probing ends because the step is
    odd and the table, of a power of two, is never full; sizes are below \<open>2 ^ 62\<close>. The table of the
    CRC is the source's, and is shown to be the division by the polynomial.
  \<^item> \<open>StrTbl\<close>: \<open>strtbl.c\<close> over the hash table: each string once, at its offset in the image.
  \<^item> \<open>SyncHeap\<close>: \<open>sync.c\<close>; the reachable states are bags of points, with the order of a heap.

  \<^bold>\<open>Text.\<close>
  \<^item> \<open>NasmString\<close>: \<open>nasmlib/string.c\<close> and \<open>nasmlib/bsi.c\<close>; the locale \<open>string_order\<close> is what a
    comparison promises to the searches and to the hash table.
  \<^item> \<open>Quote\<close>: \<open>asm/quote.c\<close>, with the state machine of \<open>nasm_unquote\<close> both as a function on lists
    and in its buffer.
  \<^item> \<open>StrFunc\<close>: \<open>asm/strfunc.c\<close>; the two passes of each transformation, the locale \<open>utf8_finish\<close>
    with the three encodings as interpretations.
  \<^item> \<open>Numbers\<close>: \<open>include/ilog2.h\<close>, the range tests of \<open>include/nasmlib.h\<close>, \<open>nasmlib/readnum.c\<close>,
    \<open>asm/rdstrnum.c\<close>.
  \<^item> \<open>Md5\<close>, \<open>Md5Vector\<close>: \<open>nasmlib/md5c.c\<close>, equal to the reference digest of the padded message.

  \<^bold>\<open>The RDOFF object format\<close> (\<open>output/outrdf2.c\<close>, \<open>rdoff\<close>).
  \<^item> \<open>Crc\<close>: checksums by table, as a locale that \<open>Crc64\<close> and the hash of the linker interpret.
  \<^item> \<open>RdTables\<close>: \<open>rdoff/hash.c\<close>, \<open>symtab.c\<close>, \<open>segtab.c\<close> and \<open>collectn.c\<close>, the tables of the linker: a
    map of names, a tree of segment locations that stays sorted under its rotations, and an array
    without an end.
  \<^item> \<open>Rdf\<close>: \<open>rdoff/rdoff.c\<close>. The file is its bytes with a position; \<open>fread\<close> and \<open>fseek\<close> are the
    functions of the C library on it. A record that is written is read back, for each type that both
    directions know, and so is a module of any records and segments below \<open>2 ^ 31\<close> bytes; what the
    library itself puts in front of a module is not what its reader expects.
  \<^item> \<open>OutRdf2\<close>: \<open>output/outrdf2.c\<close> over \<open>Saa\<close>, with the records and the reader of \<open>Rdf\<close>. The
    invariant \<open>rdf2_ok\<close> says which records the header holds and that the lengths count its bytes;
    \<open>effect\<close> says what an operation adds to it and to the segments. The output of data refines
    \<open>out_spec\<close>, and whatever the calls, the file is read back by the tools.

  \<^bold>\<open>The assembler.\<close>
  \<^item> \<open>Vectors\<close>: \<open>asm/exprlib.c\<close> and the arithmetic of \<open>asm/eval.c\<close> on vectors, as linear
    combinations.
  \<^item> \<open>Eval\<close>: the whole of \<open>evaluate\<close>, over a scanner and an environment (look-up of symbols, the
    output format, the present location) that are parameters. The recursion has fuel: the code
    counts the depth of its recursion against \<open>LIMIT_EVAL\<close>, so that two more than this limit are
    enough, and \<open>evaluate_total_and_typed\<close> shows that the fuel never runs out, on endless
    sequences of tokens too.
  \<^item> \<open>Precedence\<close>: the evaluator returns the value of an expression from its text with the fewest
    brackets; value and text are defined on syntax trees, without reference to the code.
  \<^item> \<open>StdScan\<close>: \<open>asm/stdscan.c\<close> and \<open>nasm_token_hash\<close> of \<open>asm/tokhash.c\<close>. The generated tables of
    keywords are a parameter; that they form a perfect hash is a hypothesis of one theorem.
  \<^item> \<open>TextEval\<close> and this theory: \<open>evaluate\<close> over \<open>stdscan\<close>. A line that spells an expression is
    evaluated to its value, and any line at all is evaluated without running away.
  \<^item> \<open>PermText\<close>, \<open>Labels\<close>: \<open>asm/labels.c\<close>. The storage of names is separate from the table, where
    names are values. The relation \<open>label_step\<close> has the operations that the parser, the directives
    and the passes call; its reachable states keep definitions and types. Fewer than \<open>2 ^ 59\<close>
    labels are assumed, which is what the hash table needs.
  \<^item> \<open>Segments\<close>: the assembly position of \<open>asm/nasm.c\<close>, and \<open>asm/segalloc.c\<close>, over \<open>Raa\<close>.
  \<^item> \<open>Passes\<close>: the loop over the passes in \<open>asm/nasm.c\<close> and the limits. What a pass does to the
    symbols is an arbitrary function of the number of the pass; the counters are 64-bit and the
    bound on the limit of passes, \<open>2 ^ 62\<close>, keeps them from wrapping, and is the fuel.
  \<^item> \<open>Disp8\<close>: \<open>x86/disp8.c\<close>.

  \<^bold>\<open>Not modelled.\<close> The preprocessor, whose state is a graph of shared tokens; the parser and the
  instruction encoder, which interpret generated tables; these tables themselves; the other
  output formats, of which the models only see calls; the linker and the tools over the RDOFF library; the main program, files and messages; the third-party
  libraries of the repository (libevent, OpenSSL) and its sample projects in other languages. The
  names quoted in messages and the release of memory are left out of the operations that are
  modelled.
\<close>

section \<open>A line of text is evaluated to its value\<close>



text \<open>
  C9. Whatever is on the line, the evaluator over the scanner returns, and the vector it returns, if
  any, is well formed: sorted by the types of its terms, which are registers, segments and the
  other kinds of values. What is needed is that the keyword table numbers its registers in their
  range, and that the symbol table and the output format give segments outside far-absolute code.
\<close>

theorem evaluate_line_typed:
  assumes "tables_ok tb" and "registers_ok tb"
    and "\<forall>name seg ofs. lookup_label env name = Some (seg, ofs) \<longrightarrow> good_segment seg" and "\<forall>seg. good_segment (segbase env seg)"
    and "good_segment (loc_segment env)" and "good_segment (abs_segment env)" and "t_type tv = TOKEN_INVALID"
  shows "evaluate env (stdscan_fn tb) s tv fwref crit hints \<noteq> Inl Diverges \<and>
    (case evaluate env (stdscan_fn tb) s tv fwref crit hints of Inr (Some e, st) \<Rightarrow> vect_ok e | _ \<Rightarrow> True)"
proof -
  have "sane env (stdscan_fn tb)" using assms(3-6) good_scanner [OF assms(1,2)] by (simp add: sane_def)
  moreover have "good_token tv" using assms(7) by (simp add: good_token_def)
  ultimately show ?thesis using evaluate_total [of env "stdscan_fn tb" s tv fwref crit hints] evaluate_typed
    by (auto split: sum.split option.split)
qed

theorem evaluate_line_typed_witness:
  "case evaluate demo_env (stdscan_fn demo_tables) (demo_line ''eax*2+1'') (token TOKEN_INVALID 0) None 0 None of
     Inr (Some e, st) \<Rightarrow> vect_ok e | _ \<Rightarrow> True"
  using evaluate_line_typed [of demo_tables demo_env "token TOKEN_INVALID 0"] demo_perfect
  by (simp add: perfect_def demo_env_def good_segment_def token_def)

end
